(* ===== verification/Prelude.thy ===== *)
theory Prelude
  imports Main "HOL-Library.Word" "HOL-Library.Char_ord" "HOL-Library.List_Lexorder"
    "HOL-Library.Code_Target_Nat"
begin

text \<open>
  Shared vocabulary of the development.

  \<^item> Machine integers: \<open>u8\<close> \<dots> \<open>u64\<close> are words. \<open>usize\<close> (64 bits on every supported
    target) counts bytes, layers, tokens and blocks and is a \<open>nat\<close>; where an operation of the
    source can leave the 64-bit range the model writes the bound out (\<open>usize_max\<close>).
  \<^item> Fallible code returns a sum, \<open>Inl\<close> the error. \<open>rbind\<close> is the \<open>?\<close> operator and
    \<open>ensure\<close> an early \<open>return Err(..)\<close>. The collection \<open>result_simps\<close> holds the rules that
    take a successful chain apart.
  \<^item> Byte orders: \<open>be_bytes\<close>/\<open>le_bytes\<close> are \<open>to_be_bytes\<close>/\<open>to_le_bytes\<close> and
    \<open>from_be\<close>/\<open>from_le\<close> their inverses, with the round trips both ways.
  \<^item> Iterator adaptors of the standard library that the sources use: \<open>max_by\<close>, \<open>sort_by\<close>
    keys, \<open>HashMap\<close> as a finite map with an enumeration order given by the caller.
\<close>

named_theorems result_simps \<open>taking successful result chains apart\<close>
named_theorems bytes_simps \<open>lengths and round trips of byte encodings\<close>

subsection \<open>Machine integers\<close>

type_synonym u8 = "8 word"
type_synonym u16 = "16 word"
type_synonym u32 = "32 word"
type_synonym u64 = "64 word"
type_synonym usize = nat
type_synonym byte = u8

abbreviation usize_max :: nat where
  "usize_max \<equiv> 2 ^ 64 - 1"

text \<open>\<open>usize::saturating_sub\<close> is natural-number subtraction; \<open>checked_add\<close>, \<open>saturating_add\<close>
  and \<open>div_ceil\<close> are written out.\<close>

definition checked_add_usize :: "usize \<Rightarrow> usize \<Rightarrow> usize option" where
  "checked_add_usize a b = (if a + b \<le> usize_max then Some (a + b) else None)"

definition saturating_add_usize :: "usize \<Rightarrow> usize \<Rightarrow> usize" where
  "saturating_add_usize a b = min usize_max (a + b)"

definition checked_div_usize :: "usize \<Rightarrow> usize \<Rightarrow> usize option" where
  "checked_div_usize a b = (if b = 0 then None else Some (a div b))"

definition div_ceil :: "usize \<Rightarrow> usize \<Rightarrow> usize" where
  "div_ceil a b = (a + b - 1) div b"

lemma div_ceil_Suc: "0 < b \<Longrightarrow> div_ceil (Suc k) b = Suc (k div b)"
  by (simp add: div_ceil_def div_add_self2)

lemma div_ceil_bounds:
  assumes "0 < b"
  shows "a \<le> div_ceil a b * b" and "0 < a \<Longrightarrow> (div_ceil a b - 1) * b < a"
proof -
  show "a \<le> div_ceil a b * b"
  proof (cases a)
    case 0
    then show ?thesis by simp
  next
    case (Suc k)
    have "k < (k div b) * b + b"
      using dividend_less_div_times [OF assms, of k] by (simp add: add.commute)
    then show ?thesis by (simp add: Suc div_ceil_Suc [OF assms])
  qed
  show "(div_ceil a b - 1) * b < a" if "0 < a"
  proof (cases a)
    case 0
    with that show ?thesis by simp
  next
    case (Suc k)
    have "(k div b) * b < Suc k" using div_times_less_eq_dividend [of k b] by (simp only: less_Suc_eq_le)
    then show ?thesis by (simp add: Suc div_ceil_Suc [OF assms])
  qed
qed

subsection \<open>Results\<close>

definition rbind :: "'e + 'a \<Rightarrow> ('a \<Rightarrow> 'e + 'b) \<Rightarrow> 'e + 'b" where
  "rbind m f = (case m of Inl e \<Rightarrow> Inl e | Inr x \<Rightarrow> f x)"

definition ensure :: "bool \<Rightarrow> 'e \<Rightarrow> 'e + unit" where
  "ensure b e = (if b then Inr () else Inl e)"

definition ok_or :: "'a option \<Rightarrow> 'e \<Rightarrow> 'e + 'a" where
  "ok_or x e = (case x of None \<Rightarrow> Inl e | Some y \<Rightarrow> Inr y)"

definition map_err :: "('e \<Rightarrow> 'f) \<Rightarrow> 'e + 'a \<Rightarrow> 'f + 'a" where
  "map_err h m = (case m of Inl e \<Rightarrow> Inl (h e) | Inr x \<Rightarrow> Inr x)"

definition is_ok :: "'e + 'a \<Rightarrow> bool" where
  "is_ok m = (case m of Inl _ \<Rightarrow> False | Inr _ \<Rightarrow> True)"

lemma rbind_simps [simp]:
  "rbind (Inl e) f = Inl e" "rbind (Inr x) f = f x"
  by (simp_all add: rbind_def)

lemma rbind_eq_Inr [result_simps]: "rbind m f = Inr y \<longleftrightarrow> (\<exists>x. m = Inr x \<and> f x = Inr y)"
  by (cases m) auto

lemma rbind_eq_Inl: "rbind m f = Inl e \<longleftrightarrow> m = Inl e \<or> (\<exists>x. m = Inr x \<and> f x = Inl e)"
  by (cases m) auto

lemma rbind_cong [fundef_cong]:
  "m = m' \<Longrightarrow> (\<And>x. m' = Inr x \<Longrightarrow> f x = f' x) \<Longrightarrow> rbind m f = rbind m' f'"
  by (cases m') auto

lemma ensure_simps [simp]: "ensure True e = Inr ()" "ensure False e = Inl e"
  by (simp_all add: ensure_def)

lemma ensure_eq_Inr [result_simps]: "ensure b e = Inr u \<longleftrightarrow> b"
  by (simp add: ensure_def)

lemma ensure_eq_Inl: "ensure b e = Inl e' \<longleftrightarrow> \<not> b \<and> e' = e"
  by (auto simp: ensure_def)

lemma ok_or_simps [simp]: "ok_or None e = Inl e" "ok_or (Some x) e = Inr x"
  by (simp_all add: ok_or_def)

lemma ok_or_eq_Inr [result_simps]: "ok_or m e = Inr x \<longleftrightarrow> m = Some x"
  by (cases m) auto

lemma map_err_simps [simp]: "map_err h (Inl e) = Inl (h e)" "map_err h (Inr x) = Inr x"
  by (simp_all add: map_err_def)

lemma map_err_eq_Inr [result_simps]: "map_err h m = Inr x \<longleftrightarrow> m = Inr x"
  by (cases m) auto

lemma is_ok_iff: "is_ok m \<longleftrightarrow> (\<exists>x. m = Inr x)"
  by (cases m) (auto simp: is_ok_def)

text \<open>A \<open>for\<close> loop whose body may return early with an error.\<close>

fun rforeach :: "('a \<Rightarrow> 's \<Rightarrow> 'e + 's) \<Rightarrow> 'a list \<Rightarrow> 's \<Rightarrow> 'e + 's" where
  "rforeach f [] s = Inr s"
| "rforeach f (x # xs) s = rbind (f x s) (rforeach f xs)"

lemma rforeach_append:
  "rforeach f (xs @ ys) s = rbind (rforeach f xs s) (rforeach f ys)"
proof (induction xs arbitrary: s)
  case Nil
  show ?case by simp
next
  case (Cons x xs)
  then show ?case by (cases "f x s") simp_all
qed

lemma rforeach_invariant:
  assumes "rforeach f xs s = Inr s'" and "P s"
    and "\<And>x s s'. x \<in> set xs \<Longrightarrow> P s \<Longrightarrow> f x s = Inr s' \<Longrightarrow> P s'"
  shows "P s'"
  using assms
  by (induction xs arbitrary: s) (auto simp: rbind_eq_Inr)

subsection \<open>Byte orders\<close>

definition le_bytes :: "nat \<Rightarrow> 'a::len word \<Rightarrow> byte list" where
  "le_bytes n w = map (\<lambda>i. word_of_nat (unat w div 256 ^ i)) [0..<n]"

definition be_bytes :: "nat \<Rightarrow> 'a::len word \<Rightarrow> byte list" where
  "be_bytes n w = rev (le_bytes n w)"

fun le_nat :: "byte list \<Rightarrow> nat" where
  "le_nat [] = 0"
| "le_nat (b # bs) = unat b + 256 * le_nat bs"

definition from_le :: "byte list \<Rightarrow> 'a::len word" where
  "from_le bs = word_of_nat (le_nat bs)"

definition from_be :: "byte list \<Rightarrow> 'a::len word" where
  "from_be bs = from_le (rev bs)"

lemma length_le_bytes [simp, bytes_simps]: "length (le_bytes n w) = n"
  by (simp add: le_bytes_def)

lemma length_be_bytes [simp, bytes_simps]: "length (be_bytes n w) = n"
  by (simp add: be_bytes_def)

lemma unat_bound: "unat (w :: 'a::len word) < 2 ^ LENGTH('a)"
  by (rule unsigned_less)

lemma le_nat_append: "le_nat (xs @ ys) = le_nat xs + 256 ^ length xs * le_nat ys"
  by (induction xs) (simp_all add: algebra_simps)

lemma le_nat_less: "le_nat bs < 256 ^ length bs"
proof (induction bs)
  case Nil
  show ?case by simp
next
  case (Cons b bs)
  have "unat b < 256" using unat_bound [of b] by simp
  with Cons show ?case by simp
qed

lemma unat_byte_of_nat: "unat (word_of_nat k :: byte) = k mod 256"
  by (simp add: unat_of_nat)

lemma le_nat_le_bytes: "le_nat (le_bytes n w) = unat w mod 256 ^ n"
proof (induction n)
  case 0
  show ?case by (simp add: le_bytes_def)
next
  case (Suc n)
  have "le_bytes (Suc n) w = le_bytes n w @ [word_of_nat (unat w div 256 ^ n)]"
    by (simp add: le_bytes_def)
  then have "le_nat (le_bytes (Suc n) w)
      = unat w mod 256 ^ n + 256 ^ n * (unat w div 256 ^ n mod 256)"
    by (simp add: le_nat_append Suc.IH unat_byte_of_nat)
  also have "\<dots> = unat w mod (256 ^ n * 256)"
    by (simp add: mod_mult2_eq)
  finally show ?case by (simp add: mult.commute)
qed

lemma from_le_le_bytes [bytes_simps]:
  assumes "LENGTH('a) \<le> 8 * n"
  shows "from_le (le_bytes n w) = (w :: 'a::len word)"
proof -
  have "unat w < 2 ^ LENGTH('a)" by (rule unat_bound)
  also have "(2::nat) ^ LENGTH('a) \<le> 2 ^ (8 * n)"
    using assms by (intro power_increasing) simp_all
  also have "(2::nat) ^ (8 * n) = 256 ^ n"
    by (simp add: power_mult)
  finally have "unat w mod 256 ^ n = unat w" by simp
  then show ?thesis by (simp add: from_le_def le_nat_le_bytes)
qed

lemma from_be_be_bytes [bytes_simps]:
  assumes "LENGTH('a) \<le> 8 * n"
  shows "from_be (be_bytes n w) = (w :: 'a::len word)"
  using assms by (simp add: from_be_def be_bytes_def from_le_le_bytes)

lemma le_bytes_of_nat_le_nat:
  assumes "256 ^ length bs \<le> (2::nat) ^ LENGTH('a)"
  shows "le_bytes (length bs) (word_of_nat (le_nat bs) :: 'a::len word) = bs"
proof (rule nth_equalityI)
  show "length (le_bytes (length bs) (word_of_nat (le_nat bs) :: 'a word)) = length bs" by simp
next
  fix i
  assume "i < length (le_bytes (length bs) (word_of_nat (le_nat bs) :: 'a word))"
  then have i: "i < length bs" by simp
  have small: "le_nat bs < 2 ^ LENGTH('a)"
    using le_nat_less [of bs] assms by simp
  have "le_nat bs = le_nat (take i bs) + 256 ^ i * le_nat (drop i bs)"
    using le_nat_append [of "take i bs" "drop i bs"] i by simp
  moreover have "le_nat (take i bs) < 256 ^ i"
    using le_nat_less [of "take i bs"] i by simp
  ultimately have d: "le_nat bs div 256 ^ i = le_nat (drop i bs)"
    by simp
  have "drop i bs = bs ! i # drop (Suc i) bs"
    using i by (simp add: Cons_nth_drop_Suc)
  then have "word_of_nat (le_nat (drop i bs)) = (bs ! i :: byte)"
  proof -
    assume c: "drop i bs = bs ! i # drop (Suc i) bs"
    have "(word_of_nat (256 * le_nat (drop (Suc i) bs)) :: byte) = 0"
    proof -
      have "(256 :: byte) = 0" by simp
      then show ?thesis by (simp only: of_nat_mult of_nat_numeral) simp
    qed
    then show ?thesis by (simp add: c)
  qed
  with i small d show "le_bytes (length bs) (word_of_nat (le_nat bs) :: 'a word) ! i = bs ! i"
    by (simp add: le_bytes_def unat_of_nat)
qed

lemma le_bytes_from_le [bytes_simps]:
  assumes "length bs = n" and "8 * n \<le> LENGTH('a)"
  shows "le_bytes n (from_le bs :: 'a::len word) = bs"
proof -
  have "(256::nat) ^ length bs = 2 ^ (8 * n)"
    using assms(1) by (simp add: power_mult)
  also have "(2::nat) ^ (8 * n) \<le> 2 ^ LENGTH('a)"
    using assms(2) by (intro power_increasing) simp_all
  finally have "le_bytes (length bs) (word_of_nat (le_nat bs) :: 'a word) = bs"
    by (rule le_bytes_of_nat_le_nat)
  then show ?thesis by (simp add: from_le_def assms(1))
qed

lemma be_bytes_from_be [bytes_simps]:
  assumes "length bs = n" and "8 * n \<le> LENGTH('a)"
  shows "be_bytes n (from_be bs :: 'a::len word) = bs"
  using assms by (simp add: be_bytes_def from_be_def le_bytes_from_le)

subsection \<open>Reading a byte stream\<close>

text \<open>\<open>read_exact\<close> on a byte source: the bytes read and the bytes left, or \<open>None\<close> at the end of
  the input.\<close>

definition read_exact :: "nat \<Rightarrow> byte list \<Rightarrow> (byte list \<times> byte list) option" where
  "read_exact n bs = (if n \<le> length bs then Some (take n bs, drop n bs) else None)"

lemma read_exact_append [simp]: "length xs = n \<Longrightarrow> read_exact n (xs @ ys) = Some (xs, ys)"
  by (simp add: read_exact_def)

lemma read_exact_Some:
  "read_exact n bs = Some (xs, ys) \<longleftrightarrow> length xs = n \<and> bs = xs @ ys"
  by (auto simp: read_exact_def)

lemma read_exact_None: "read_exact n bs = None \<longleftrightarrow> length bs < n"
  by (auto simp: read_exact_def)

text \<open>Reading by offset, as the decoders do.\<close>

lemma drop_eq_ConsD:
  assumes "drop k xs = y # ys"
  shows "k < length xs" and "xs ! k = y" and "drop (Suc k) xs = ys"
proof -
  show k: "k < length xs" using assms by (metis drop_eq_Nil2 list.distinct(1) not_le)
  then have "xs ! k # drop (Suc k) xs = y # ys" using assms by (simp add: Cons_nth_drop_Suc)
  then show "xs ! k = y" and "drop (Suc k) xs = ys" by simp_all
qed

subsection \<open>Iterators\<close>

datatype ordering = Less | Equal | Greater

text \<open>\<open>Iterator::max_by\<close> keeps the later of two elements unless the earlier is greater.\<close>

definition max_by :: "('a \<Rightarrow> 'a \<Rightarrow> ordering) \<Rightarrow> 'a list \<Rightarrow> 'a option" where
  "max_by cmp xs = (case xs of [] \<Rightarrow> None
     | x # ys \<Rightarrow> Some (foldl (\<lambda>acc y. if cmp acc y = Greater then acc else y) x ys))"

lemma max_by_eq_None [simp]: "max_by cmp xs = None \<longleftrightarrow> xs = []"
  by (simp add: max_by_def split: list.splits)

lemma foldl_choice_in: "foldl (\<lambda>acc y. if P acc y then acc else y) x ys \<in> insert x (set ys)"
proof (induction ys arbitrary: x)
  case (Cons y ys)
  from Cons [of "if P x y then x else y"] show ?case by (auto split: if_splits)
qed simp

lemma max_by_in: "max_by cmp xs = Some x \<Longrightarrow> x \<in> set xs"
  using foldl_choice_in [of "\<lambda>acc y. cmp acc y = Greater"]
  by (auto simp: max_by_def split: list.splits)

text \<open>\<open>iter().enumerate()\<close>.\<close>

definition enum :: "'a list \<Rightarrow> (nat \<times> 'a) list" where
  "enum xs = zip [0..<length xs] xs"

lemma length_enum [simp]: "length (enum xs) = length xs"
  by (simp add: enum_def)

lemma enum_nth [simp]: "i < length xs \<Longrightarrow> enum xs ! i = (i, xs ! i)"
  by (simp add: enum_def)

lemma in_set_enum: "(i, x) \<in> set (enum xs) \<longleftrightarrow> i < length xs \<and> x = xs ! i"
  by (auto simp: in_set_conv_nth)

text \<open>\<open>Vec::remove\<close> at an index that is in range.\<close>

definition remove_at :: "nat \<Rightarrow> 'a list \<Rightarrow> 'a list" where
  "remove_at i xs = take i xs @ drop (Suc i) xs"

lemma length_remove_at [simp]: "i < length xs \<Longrightarrow> length (remove_at i xs) = length xs - 1"
  by (simp add: remove_at_def)

lemma set_remove_at: "set (remove_at i xs) \<subseteq> set xs"
  by (auto simp: remove_at_def dest: in_set_takeD in_set_dropD)

lemma sum_list_map_update:
  fixes xs :: "nat list"
  assumes "i < length xs"
  shows "sum_list (xs[i := v]) + xs ! i = sum_list xs + v"
  using assms
  by (induction xs arbitrary: i) (auto split: nat.split)

end
