(* ===== verification/Election.thy ===== *)
theory Election
  imports Prelude
begin

text \<open>
  The election crate: the term counter of \<open>fracture-election/src/term.rs\<close> and the agent of
  \<open>fracture-election/src/state_machine.rs\<close>. The counter is the \<open>u64\<close> it stores; an operation that
  changes it returns its value and the new counter. \<open>advance_to\<close> panics unless the term grows,
  which is the result \<open>None\<close>. The crate is compiled without overflow checks in release builds, so
  \<open>increment\<close> wraps.
\<close>

subsection \<open>Terms\<close>

type_synonym term_tracker = u64

definition advance_to :: "term_tracker \<Rightarrow> u64 \<Rightarrow> (u64 \<times> term_tracker) option" where
  "advance_to tr new_term = (if new_term > tr then Some (new_term, new_term) else None)"

definition increment :: "term_tracker \<Rightarrow> u64 \<times> term_tracker" where
  "increment tr = (tr + 1, tr + 1)"

definition is_acceptable :: "term_tracker \<Rightarrow> u64 \<Rightarrow> bool" where
  "is_acceptable tr received_term \<longleftrightarrow> received_term \<ge> tr"

definition is_newer :: "term_tracker \<Rightarrow> u64 \<Rightarrow> bool" where
  "is_newer tr received_term \<longleftrightarrow> received_term > tr"

definition update_if_newer :: "term_tracker \<Rightarrow> u64 \<Rightarrow> bool \<times> term_tracker" where
  "update_if_newer tr received_term =
     (if received_term > tr then (True, received_term) else (False, tr))"

subsection \<open>The agent\<close>

datatype election_state = Follower | Candidate | Leader

record election_config =
  el_node_id :: string
  el_priority :: u32
  election_window :: nat

datatype election_action =
    NoAction
  | Challenge string
  | DeclareVictory
  | StandDown string
  | AcceptLeader string string

record election_agent =
  el_config :: election_config
  el_term :: term_tracker
  el_state :: election_state

definition new_agent :: "election_config \<Rightarrow> u64 \<Rightarrow> election_agent" where
  "new_agent cfg initial_term = \<lparr>el_config = cfg, el_term = initial_term, el_state = Follower\<rparr>"

definition start_election :: "election_agent \<Rightarrow> u64 \<times> election_agent" where
  "start_election ag =
     (let (new_term, tr) = increment (el_term ag)
      in (new_term, ag\<lparr>el_term := tr, el_state := Candidate\<rparr>))"

definition outranks :: "election_config \<Rightarrow> string \<Rightarrow> u32 \<Rightarrow> bool" where
  "outranks cfg candidate_id candidate_priority \<longleftrightarrow>
     el_priority cfg < candidate_priority
     \<or> (el_priority cfg = candidate_priority \<and> el_node_id cfg < candidate_id)"

definition on_election_start ::
    "election_agent \<Rightarrow> string \<Rightarrow> u32 \<Rightarrow> u64 \<Rightarrow> election_action \<times> election_agent" where
  "on_election_start ag candidate_id candidate_priority candidate_term =
     (if \<not> is_acceptable (el_term ag) candidate_term then (NoAction, ag)
      else
        let ag = ag\<lparr>el_term := snd (update_if_newer (el_term ag) candidate_term)\<rparr>
        in if outranks (el_config ag) candidate_id candidate_priority
           then (Challenge candidate_id, ag)
           else if el_state ag = Candidate then (NoAction, ag\<lparr>el_state := Follower\<rparr>)
           else (NoAction, ag))"

definition on_election_challenge ::
    "election_agent \<Rightarrow> string \<Rightarrow> u32 \<Rightarrow> u64 \<Rightarrow> election_action \<times> election_agent" where
  "on_election_challenge ag challenger_id challenger_priority challenger_term =
     (if \<not> is_acceptable (el_term ag) challenger_term then (NoAction, ag)
      else
        let ag = ag\<lparr>el_term := snd (update_if_newer (el_term ag) challenger_term)\<rparr>
        in if el_state ag = Candidate
           then (StandDown challenger_id, ag\<lparr>el_state := Follower\<rparr>)
           else (NoAction, ag))"

definition on_victory ::
    "election_agent \<Rightarrow> string \<Rightarrow> u64 \<Rightarrow> string \<Rightarrow> election_action \<times> election_agent" where
  "on_victory ag leader_id leader_term coordinator_addr =
     (if \<not> is_acceptable (el_term ag) leader_term then (NoAction, ag)
      else
        let ag = ag\<lparr>el_term := snd (update_if_newer (el_term ag) leader_term)\<rparr>
        in (AcceptLeader leader_id coordinator_addr, ag\<lparr>el_state := Follower\<rparr>))"

definition on_election_timeout :: "election_agent \<Rightarrow> election_action \<times> election_agent" where
  "on_election_timeout ag =
     (if el_state ag = Candidate then (DeclareVictory, ag\<lparr>el_state := Leader\<rparr>)
      else (NoAction, ag))"

text \<open>Every entry point of the agent, as one event type.\<close>

datatype election_event =
    StartElection
  | GotStart string u32 u64
  | GotChallenge string u32 u64
  | GotVictory string u64 string
  | WindowExpired

fun handle :: "election_agent \<Rightarrow> election_event \<Rightarrow> election_action \<times> election_agent" where
  "handle ag StartElection = (NoAction, snd (start_election ag))"
| "handle ag (GotStart c p t) = on_election_start ag c p t"
| "handle ag (GotChallenge c p t) = on_election_challenge ag c p t"
| "handle ag (GotVictory l t a) = on_victory ag l t a"
| "handle ag WindowExpired = on_election_timeout ag"

subsection \<open>Laws of the agent\<close>

lemma update_if_newer_max: "snd (update_if_newer tr t) = max tr t"
  by (auto simp: update_if_newer_def max_def not_le)

lemma increment_greater: "tr \<noteq> - 1 \<Longrightarrow> tr < snd (increment tr)"
  by (simp add: increment_def not_le [symmetric] inc_less_eq_self_iff_eq)

lemmas handler_defs =
  start_election_def on_election_start_def on_election_challenge_def on_victory_def
  on_election_timeout_def is_acceptable_def increment_def Let_def update_if_newer_max

lemma handle_config [simp]: "el_config (snd (handle ag ev)) = el_config ag"
  by (cases ev) (auto simp: handler_defs)

lemma handle_term_mono:
  assumes "ev = StartElection \<Longrightarrow> el_term ag \<noteq> - 1"
  shows "el_term ag \<le> el_term (snd (handle ag ev))"
proof (cases ev)
  case StartElection
  then show ?thesis using increment_greater [of "el_term ag"] assms
    by (simp add: start_election_def increment_def)
qed (auto simp: handler_defs)

text \<open>An agent leads only by the expiry of its own window while it is a candidate, and is a
  candidate only by starting an election.\<close>

lemma handle_leader:
  assumes "el_state (snd (handle ag ev)) = Leader"
  shows "el_state ag = Leader \<or> ev = WindowExpired \<and> el_state ag = Candidate"
  using assms by (cases ev) (auto simp: handler_defs split: if_splits)

lemma handle_candidate:
  assumes "el_state (snd (handle ag ev)) = Candidate"
  shows "el_state ag = Candidate \<or> ev = StartElection"
  using assms by (cases ev) (auto simp: handler_defs split: if_splits)

lemma handle_declares:
  "fst (handle ag ev) = DeclareVictory \<longleftrightarrow> ev = WindowExpired \<and> el_state ag = Candidate"
  by (cases ev) (auto simp: handler_defs)

lemma outranks_total:
  assumes "el_node_id a \<noteq> el_node_id b"
  shows "outranks a (el_node_id b) (el_priority b) \<longleftrightarrow> \<not> outranks b (el_node_id a) (el_priority a)"
  using assms by (auto simp: outranks_def)

fun handle_all :: "election_agent \<Rightarrow> election_event list \<Rightarrow> election_agent" where
  "handle_all ag [] = ag"
| "handle_all ag (ev # evs) = handle_all (snd (handle ag ev)) evs"

lemma handle_all_append: "handle_all ag (xs @ ys) = handle_all (handle_all ag xs) ys"
  by (induction ag xs rule: handle_all.induct) simp_all

lemma handle_all_candidate:
  assumes "el_state (handle_all ag evs) = Candidate" and "el_state ag \<noteq> Candidate"
  shows "\<exists>us vs. evs = us @ StartElection # vs"
  using assms
proof (induction evs rule: rev_induct)
  case (snoc ev evs)
  then show ?case
    using handle_candidate [of "handle_all ag evs" ev] by (fastforce simp: handle_all_append)
qed simp

subsection \<open>Properties\<close>

text \<open>C4: A node leads only because of its own candidacy: in every run of a fresh agent that ends
  with it as the leader, it started an election and its window expired after that.\<close>

theorem leader_ran_for_election:
  assumes "el_state (handle_all (new_agent cfg t0) evs) = Leader"
  shows "\<exists>us vs ws. evs = us @ StartElection # vs @ WindowExpired # ws"
  using assms
proof (induction evs rule: rev_induct)
  case Nil
  then show ?case by (simp add: new_agent_def)
next
  case (snoc ev evs)
  let ?ag = "handle_all (new_agent cfg t0) evs"
  from snoc.prems have "el_state (snd (handle ?ag ev)) = Leader" by (simp add: handle_all_append)
  from handle_leader [OF this] show ?case
  proof
    assume "el_state ?ag = Leader"
    with snoc.IH obtain us vs ws where "evs = us @ StartElection # vs @ WindowExpired # ws" by blast
    then have "evs @ [ev] = us @ StartElection # vs @ WindowExpired # (ws @ [ev])" by simp
    then show ?thesis by blast
  next
    assume w: "ev = WindowExpired \<and> el_state ?ag = Candidate"
    then obtain us vs where "evs = us @ StartElection # vs"
      using handle_all_candidate [of "new_agent cfg t0" evs] by (auto simp: new_agent_def)
    then have "evs @ [ev] = us @ StartElection # vs @ WindowExpired # []" using w by simp
    then show ?thesis by blast
  qed
qed

theorem leader_ran_for_election_witness:
  "\<exists>us vs ws. [GotStart ''b'' 3 4, StartElection, WindowExpired]
     = us @ StartElection # vs @ WindowExpired # ws"
  using leader_ran_for_election [of "\<lparr>el_node_id = ''a'', el_priority = 1, election_window = 5\<rparr>" 0
      "[GotStart ''b'' 3 4, StartElection, WindowExpired]"]
  by (simp add: new_agent_def handler_defs outranks_def)

end
