(* ===== verification/Election_Cluster.thy ===== *)
theory Election_Cluster
  imports Election
begin

text \<open>
  A cluster of election agents exchanging the messages of the bully protocol
  (\<open>docs/fracture_fault_tolerance_architecture.md\<close>, Election Protocol): a candidate broadcasts
  ElectionStart to its peers, an agent whose handler answers \<open>Challenge\<close> sends an
  ElectionChallenge that carries its own term, and an agent whose handler answers
  \<open>DeclareVictory\<close> broadcasts Victory with its term. Messages are delivered in any order and at
  any time. The election window is long enough for a round trip: it expires only when no
  ElectionStart of the candidate and no challenge to it is still on its way. Victory messages may
  be lost, duplicated and delayed at will. Starting an election at the last term would wrap the
  counter and is left out.
\<close>

record cluster =
  agents :: "string \<Rightarrow> election_agent"
  started :: "(string \<times> u64) set"
  starts_sent :: "(string \<times> u64 \<times> string) set"
  challenges_sent :: "(string \<times> string \<times> u64) set"
  victories :: "(string \<times> u64) set"

abbreviation term_of :: "cluster \<Rightarrow> string \<Rightarrow> u64" where
  "term_of c n \<equiv> el_term (agents c n)"

abbreviation prio_of :: "cluster \<Rightarrow> string \<Rightarrow> u32" where
  "prio_of c n \<equiv> el_priority (el_config (agents c n))"

definition init_cluster :: "(string \<Rightarrow> election_config) \<Rightarrow> cluster" where
  "init_cluster cfg = \<lparr>agents = (\<lambda>n. new_agent (cfg n) 0), started = {}, starts_sent = {},
     challenges_sent = {}, victories = {}\<rparr>"

inductive cstep :: "string set \<Rightarrow> cluster \<Rightarrow> cluster \<Rightarrow> bool" for N where
  cs_start:
    "\<lbrakk>n \<in> N; term_of c n \<noteq> - 1; start_election (agents c n) = (t, ag)\<rbrakk> \<Longrightarrow>
     cstep N c (c\<lparr>agents := (agents c)(n := ag), started := insert (n, t) (started c),
       starts_sent := starts_sent c \<union> Pair n ` Pair t ` (N - {n})\<rparr>)"
| cs_got_start:
    "\<lbrakk>(n, t, m) \<in> starts_sent c; on_election_start (agents c m) n (prio_of c n) t = (act, ag)\<rbrakk> \<Longrightarrow>
     cstep N c (c\<lparr>agents := (agents c)(m := ag), starts_sent := starts_sent c - {(n, t, m)},
       challenges_sent := challenges_sent c \<union> (case act of Challenge k \<Rightarrow> {(m, k, el_term ag)} | _ \<Rightarrow> {})\<rparr>)"
| cs_got_challenge:
    "\<lbrakk>(m, n, t) \<in> challenges_sent c; on_election_challenge (agents c n) m (prio_of c m) t = (act, ag)\<rbrakk> \<Longrightarrow>
     cstep N c (c\<lparr>agents := (agents c)(n := ag), challenges_sent := challenges_sent c - {(m, n, t)}\<rparr>)"
| cs_window_expired:
    "\<lbrakk>n \<in> N; \<forall>t m. (n, t, m) \<notin> starts_sent c; \<forall>m t. (m, n, t) \<notin> challenges_sent c;
      on_election_timeout (agents c n) = (act, ag)\<rbrakk> \<Longrightarrow>
     cstep N c (c\<lparr>agents := (agents c)(n := ag),
       victories := victories c \<union> (case act of DeclareVictory \<Rightarrow> {(n, el_term ag)} | _ \<Rightarrow> {})\<rparr>)"
| cs_got_victory:
    "\<lbrakk>(l, t) \<in> victories c; m \<in> N - {l}; on_victory (agents c m) l t a = (act, ag)\<rbrakk> \<Longrightarrow>
     cstep N c (c\<lparr>agents := (agents c)(m := ag)\<rparr>)"

inductive creach :: "string set \<Rightarrow> (string \<Rightarrow> election_config) \<Rightarrow> cluster \<Rightarrow> bool" for N cfg where
  cr_init: "creach N cfg (init_cluster cfg)"
| cr_step: "creach N cfg c \<Longrightarrow> cstep N c c' \<Longrightarrow> creach N cfg c'"

subsection \<open>The invariant\<close>

text \<open>\<open>live c n t\<close>: the candidacy that \<open>n\<close> started at term \<open>t\<close> can still win at \<open>t\<close>.\<close>

definition live :: "cluster \<Rightarrow> string \<Rightarrow> u64 \<Rightarrow> bool" where
  "live c n t \<longleftrightarrow> (n, t) \<in> started c \<and> term_of c n = t \<and> el_state (agents c n) = Candidate"

definition seen :: "cluster \<Rightarrow> string \<Rightarrow> u64 \<Rightarrow> string \<Rightarrow> bool" where
  "seen c n t m \<longleftrightarrow> (n, t) \<in> started c \<and> (n, t, m) \<notin> starts_sent c"

definition beats :: "(string \<Rightarrow> election_config) \<Rightarrow> string \<Rightarrow> string \<Rightarrow> bool" where
  "beats cfg x y \<longleftrightarrow> outranks (cfg x) y (el_priority (cfg y))"

definition won :: "cluster \<Rightarrow> string \<Rightarrow> u64 \<Rightarrow> bool" where
  "won c n t \<longleftrightarrow> (n, t) \<in> started c \<and> (n, t) \<in> victories c"

definition terms_ok :: "string set \<Rightarrow> (string \<Rightarrow> election_config) \<Rightarrow> cluster \<Rightarrow> bool" where
  "terms_ok N cfg c \<longleftrightarrow>
     (\<forall>n. el_config (agents c n) = cfg n)
     \<and> (\<forall>n t. (n, t) \<in> started c \<longrightarrow> n \<in> N \<and> t \<le> term_of c n)
     \<and> (\<forall>n t. (n, t) \<in> victories c \<longrightarrow> n \<in> N \<and> t \<le> term_of c n)
     \<and> (\<forall>n t m. (n, t, m) \<in> starts_sent c \<longrightarrow> (n, t) \<in> started c \<and> m \<in> N - {n})
     \<and> (\<forall>n t. \<forall>m \<in> N - {n}. seen c n t m \<longrightarrow> t \<le> term_of c m)"

text \<open>A candidacy does not survive the ElectionStart of a better one of its term, and survives a
  better peer's look at its own only where a challenge is on its way or that peer has left the
  term.\<close>

definition rivals_ok :: "string set \<Rightarrow> (string \<Rightarrow> election_config) \<Rightarrow> cluster \<Rightarrow> bool" where
  "rivals_ok N cfg c \<longleftrightarrow>
     (\<forall>x \<in> N. \<forall>y \<in> N - {x}. \<forall>t. beats cfg x y \<longrightarrow>
        (seen c x t y \<longrightarrow> \<not> live c y t)
        \<and> (seen c y t x \<longrightarrow> live c y t \<longrightarrow> (x, y, t) \<notin> challenges_sent c \<longrightarrow> t < term_of c x))"

definition wins_ok :: "string set \<Rightarrow> (string \<Rightarrow> election_config) \<Rightarrow> cluster \<Rightarrow> bool" where
  "wins_ok N cfg c \<longleftrightarrow>
     (\<forall>n t. won c n t \<longrightarrow> (\<forall>m \<in> N - {n}. seen c n t m))
     \<and> (\<forall>x \<in> N. \<forall>y \<in> N - {x}. \<forall>t. beats cfg x y \<longrightarrow> won c y t \<longrightarrow> t < term_of c x \<and> \<not> won c x t)"

lemma terms_okD:
  assumes "terms_ok N cfg c"
  shows "el_config (agents c n) = cfg n"
    and "(n, t) \<in> started c \<Longrightarrow> n \<in> N \<and> t \<le> term_of c n"
    and "(n, t) \<in> victories c \<Longrightarrow> n \<in> N \<and> t \<le> term_of c n"
    and "(n, t, m) \<in> starts_sent c \<Longrightarrow> (n, t) \<in> started c \<and> m \<in> N \<and> m \<noteq> n"
    and "m \<in> N - {n} \<Longrightarrow> seen c n t m \<Longrightarrow> t \<le> term_of c m"
  using assms unfolding terms_ok_def by blast+

subsection \<open>What a step does\<close>

lemma start_election_eq: "start_election ag = (el_term ag + 1, ag\<lparr>el_term := el_term ag + 1, el_state := Candidate\<rparr>)"
  by (simp add: start_election_def increment_def)

lemma on_start_term:
  "on_election_start ag k p t = (act, ag') \<Longrightarrow> el_term ag' = max (el_term ag) t"
  by (auto simp: on_election_start_def is_acceptable_def Let_def update_if_newer_max split: if_splits)

lemma on_start_effect:
  assumes "on_election_start ag k p t = (act, ag')"
  shows "el_config ag' = el_config ag"
    and "el_state ag' = Candidate \<Longrightarrow> el_state ag = Candidate"
    and "el_term ag \<le> t \<Longrightarrow> \<not> outranks (el_config ag) k p \<Longrightarrow> el_state ag' \<noteq> Candidate"
    and "act = (if el_term ag \<le> t \<and> outranks (el_config ag) k p then Challenge k else NoAction)"
  using assms by (auto simp: on_election_start_def is_acceptable_def Let_def split: if_splits)

lemma on_challenge_effect:
  assumes "on_election_challenge ag k p t = (act, ag')"
  shows "el_config ag' = el_config ag" "el_term ag' = max (el_term ag) t"
    and "el_state ag' = Candidate \<Longrightarrow> el_state ag = Candidate \<and> t < el_term ag"
  using assms
  by (auto simp: on_election_challenge_def is_acceptable_def Let_def update_if_newer_max split: if_splits)

lemma on_timeout_effect:
  assumes "on_election_timeout ag = (act, ag')"
  shows "el_config ag' = el_config ag" "el_term ag' = el_term ag" "el_state ag' \<noteq> Candidate"
    and "act = (if el_state ag = Candidate then DeclareVictory else NoAction)"
  using assms by (auto simp: on_election_timeout_def split: if_splits)

lemma on_victory_effect:
  assumes "on_victory ag k t a = (act, ag')"
  shows "el_config ag' = el_config ag" "el_term ag' = max (el_term ag) t"
    and "el_state ag' = Candidate \<Longrightarrow> el_state ag = Candidate"
  using assms
  by (auto simp: on_victory_def is_acceptable_def Let_def update_if_newer_max split: if_splits)

lemmas agent_effects =
  on_start_term on_start_effect on_challenge_effect on_timeout_effect on_victory_effect

lemma cstep_term_mono:
  assumes "cstep N c c'"
  shows "term_of c n \<le> term_of c' n"
  using assms
proof cases
  case (cs_start m t ag)
  then show ?thesis using increment_greater [of "term_of c m"] by (auto simp: start_election_eq increment_def)
qed (auto dest: agent_effects)

lemma cstep_config: "cstep N c c' \<Longrightarrow> el_config (agents c' n) = el_config (agents c n)"
  by (cases rule: cstep.cases) (auto dest: agent_effects simp: start_election_eq)

text \<open>A candidacy that is live after a step was live before it, or was started by it.\<close>

lemma cstep_candidate:
  assumes "cstep N c c'" and "el_state (agents c' n) = Candidate" and "started c' = started c"
    and "terms_ok N cfg c"
  shows "el_state (agents c n) = Candidate"
  using assms(1)
proof cases
  case (cs_start m t ag)
  then have "t = term_of c m + 1" "(m, t) \<in> started c"
    using assms(3) by (auto simp: start_election_eq)
  then have "term_of c m + 1 \<le> term_of c m" using assms(4) by (auto simp: terms_ok_def)
  with cs_start(3) show ?thesis by (simp add: inc_less_eq_self_iff_eq)
qed (use assms(2) in \<open>auto dest: agent_effects split: if_splits\<close>)

lemma cstep_started:
  assumes "cstep N c c'"
  shows "started c' = started c \<or> (\<exists>n \<in> N. term_of c n < term_of c' n
    \<and> started c' = insert (n, term_of c' n) (started c)
    \<and> starts_sent c' = starts_sent c \<union> Pair n ` Pair (term_of c' n) ` (N - {n})
    \<and> (\<forall>m. m \<noteq> n \<longrightarrow> agents c' m = agents c m)
    \<and> challenges_sent c' = challenges_sent c \<and> victories c' = victories c)"
  using assms
proof cases
  case (cs_start n t ag)
  then have "term_of c n < term_of c n + 1" by (simp add: not_le [symmetric] inc_less_eq_self_iff_eq)
  with cs_start show ?thesis by (auto simp: start_election_eq intro!: bexI [of _ n])
qed auto

lemma cstep_live:
  assumes "cstep N c c'" and "live c' n t" and "terms_ok N cfg c"
  shows "live c n t \<or> (n, t) \<notin> started c \<and> (\<forall>m \<in> N - {n}. (n, t, m) \<in> starts_sent c')"
proof (cases "(n, t) \<in> started c")
  case True
  have "t \<le> term_of c n" using True assms(3) by (auto simp: terms_ok_def)
  moreover have "term_of c' n = t" using assms(2) by (simp add: live_def)
  ultimately have eq: "term_of c n = t" using cstep_term_mono [OF assms(1), of n] by auto
  show ?thesis
  proof (cases "started c' = started c")
    case same: True
    then show ?thesis using True eq cstep_candidate [OF assms(1) _ same assms(3)] assms(2)
      by (simp add: live_def)
  next
    case False
    then obtain n' where n': "term_of c n' < term_of c' n'" "\<forall>m. m \<noteq> n' \<longrightarrow> agents c' m = agents c m"
      using cstep_started [OF assms(1)] by blast
    then have "n \<noteq> n'" using eq assms(2) by (auto simp: live_def)
    then show ?thesis using n'(2) assms(2) True by (auto simp: live_def)
  qed
next
  case False
  then show ?thesis using cstep_started [OF assms(1)] assms(2) by (auto simp: live_def)
qed

lemma cstep_seen_mono:
  assumes "cstep N c c'" and "seen c n t m" and "terms_ok N cfg c"
  shows "seen c' n t m"
proof -
  have t: "t \<le> term_of c n" using assms(2,3) by (auto simp: terms_ok_def seen_def)
  from assms(1) show ?thesis
  proof cases
    case (cs_start n' t' ag)
    then have "term_of c n' < t'"
      by (simp add: start_election_eq) (metis inc_less_eq_self_iff_eq not_le)
    then show ?thesis using cs_start assms(2) t by (auto simp: seen_def)
  qed (use assms(2) in \<open>auto simp: seen_def\<close>)
qed

text \<open>An ElectionStart seen after a step was seen before it, or is the one it delivered.\<close>

lemma cstep_seen:
  assumes "cstep N c c'" and "seen c' n t m" and "m \<in> N - {n}"
  shows "seen c n t m \<or> (\<exists>act.
    on_election_start (agents c m) n (prio_of c n) t = (act, agents c' m) \<and>
    (\<forall>k. act = Challenge k \<longrightarrow> (m, k, term_of c' m) \<in> challenges_sent c'))"
  using assms(1)
proof cases
  case (cs_start n' t' ag)
  then show ?thesis using assms(2,3) by (auto simp: seen_def)
next
  case (cs_got_start n' t' m' act' ag)
  then show ?thesis using assms(2) by (auto simp: seen_def)
qed (use assms(2) in \<open>auto simp: seen_def\<close>)

lemma cstep_challenge:
  assumes "cstep N c c'" and "(x, y, t) \<in> challenges_sent c" and "(x, y, t) \<notin> challenges_sent c'"
  shows "\<not> live c' y t"
  using assms(1)
proof cases
  case (cs_got_challenge m n t' act ag)
  then have "m = x" "n = y" "t' = t" using assms(2,3) by auto
  then show ?thesis using on_challenge_effect(2,3) [OF cs_got_challenge(3)] cs_got_challenge(1)
    by (auto simp: live_def)
qed (use assms(2,3) in auto)

lemma cstep_won:
  assumes "cstep N c c'" and "won c' n t" and "terms_ok N cfg c"
  shows "won c n t \<or> live c n t \<and> n \<in> N \<and> (\<forall>m. (n, t, m) \<notin> starts_sent c)
    \<and> (\<forall>m. (m, n, t) \<notin> challenges_sent c)"
  using assms(1)
proof cases
  case (cs_start n' t' ag)
  then have "term_of c n' < t'"
    by (simp add: start_election_eq) (metis inc_less_eq_self_iff_eq not_le)
  then have "(n', t') \<notin> victories c" using terms_okD(3) [OF assms(3), of n' t'] by (auto simp: not_le [symmetric])
  then show ?thesis using cs_start assms(2) by (auto simp: won_def)
next
  case (cs_window_expired n' act ag)
  then show ?thesis using assms(2) on_timeout_effect [OF cs_window_expired(5)]
    by (auto simp: won_def live_def split: if_splits)
qed (use assms(2) in \<open>auto simp: won_def\<close>)

lemma cstep_victories:
  assumes "cstep N c c'" and "(n, t) \<in> victories c'"
  shows "(n, t) \<in> victories c \<or> n \<in> N \<and> t \<le> term_of c' n"
  using assms(1)
proof cases
  case (cs_window_expired n' act ag)
  then show ?thesis using assms(2) on_timeout_effect [OF cs_window_expired(5)]
    by (auto split: if_splits)
qed (use assms(2) in auto)

lemma terms_ok_step:
  assumes "cstep N c c'" and ok: "terms_ok N cfg c"
  shows "terms_ok N cfg c'"
proof -
  note mono = cstep_term_mono [OF assms(1)]
  have up: "t \<le> term_of c n \<Longrightarrow> t \<le> term_of c' n" for t n using mono [of n] by auto
  have "\<forall>n. el_config (agents c' n) = cfg n" using ok cstep_config [OF assms(1)] by (auto simp: terms_ok_def)
  moreover have "\<forall>n t. (n, t) \<in> started c' \<longrightarrow> n \<in> N \<and> t \<le> term_of c' n"
    using cstep_started [OF assms(1)] ok up by (auto simp: terms_ok_def)
  moreover have "\<forall>n t. (n, t) \<in> victories c' \<longrightarrow> n \<in> N \<and> t \<le> term_of c' n"
    using cstep_victories [OF assms(1)] up terms_okD(3) [OF ok] by blast
  moreover have "\<forall>n t m. (n, t, m) \<in> starts_sent c' \<longrightarrow> (n, t) \<in> started c' \<and> m \<in> N - {n}"
    using assms(1) by cases (auto dest: terms_okD(4) [OF ok])
  moreover have "\<forall>n t. \<forall>m \<in> N - {n}. seen c' n t m \<longrightarrow> t \<le> term_of c' m"
  proof (intro allI ballI impI)
    fix n t m assume m: "m \<in> N - {n}" and s: "seen c' n t m"
    from cstep_seen [OF assms(1) s m] show "t \<le> term_of c' m"
      using ok m up by (auto simp: terms_ok_def dest: on_start_term)
  qed
  ultimately show ?thesis by (simp add: terms_ok_def)
qed

lemma rivals_ok_step:
  assumes "cstep N c c'" and ok: "terms_ok N cfg c" and r: "rivals_ok N cfg c"
    and x: "x \<in> N" and y: "y \<in> N - {x}" and b: "beats cfg x y" and ids: "\<forall>n \<in> N. el_node_id (cfg n) = n"
  shows "seen c' x t y \<Longrightarrow> \<not> live c' y t"
    and "\<lbrakk>seen c' y t x; live c' y t; (x, y, t) \<notin> challenges_sent c'\<rbrakk> \<Longrightarrow> t < term_of c' x"
proof -
  have cfg: "el_config (agents c n) = cfg n" for n using ok by (simp add: terms_ok_def)
  have nb: "\<not> outranks (cfg y) x (el_priority (cfg x))"
    using b x y ids outranks_total [of "cfg x" "cfg y"] by (auto simp: beats_def)
  show "\<not> live c' y t" if s: "seen c' x t y"
  proof
    assume l: "live c' y t"
    from cstep_live [OF assms(1) l ok] show False
    proof
      assume l0: "live c y t"
      then have "\<not> seen c x t y" using r x y b by (auto simp: rivals_ok_def)
      then obtain act where "on_election_start (agents c y) x (prio_of c x) t = (act, agents c' y)"
        using cstep_seen [OF assms(1) s y] by blast
      then show False using l l0 nb cfg by (auto simp: live_def dest: on_start_effect(3))
    next
      assume f: "(y, t) \<notin> started c \<and> (\<forall>m \<in> N - {y}. (y, t, m) \<in> starts_sent c')"
      then have "started c' \<noteq> started c" using l by (auto simp: live_def)
      then obtain n where n: "term_of c n < term_of c' n" "started c' = insert (n, term_of c' n) (started c)"
        "starts_sent c' = starts_sent c \<union> Pair n ` Pair (term_of c' n) ` (N - {n})"
        using cstep_started [OF assms(1)] by blast
      then have "n = y" "t = term_of c' n" using f l by (auto simp: live_def)
      then have "seen c x t y" using n s y by (auto simp: seen_def)
      then have "t \<le> term_of c y" using ok y by (auto simp: terms_ok_def)
      then show False using n(1) \<open>n = y\<close> \<open>t = term_of c' n\<close> by auto
    qed
  qed
  show "t < term_of c' x"
    if s: "seen c' y t x" and l: "live c' y t" and nc: "(x, y, t) \<notin> challenges_sent c'"
  proof -
    have xy: "x \<in> N - {y}" using x y by auto
    then have l0: "live c y t" using cstep_live [OF assms(1) l ok] s by (auto simp: seen_def)
    from cstep_seen [OF assms(1) s xy] have "t < term_of c x"
    proof
      assume "seen c y t x"
      moreover have "(x, y, t) \<notin> challenges_sent c" using cstep_challenge [OF assms(1) _ nc] l by blast
      ultimately show ?thesis using r x y b l0 by (auto simp: rivals_ok_def)
    next
      assume "\<exists>act. on_election_start (agents c x) y (prio_of c y) t = (act, agents c' x) \<and>
        (\<forall>k. act = Challenge k \<longrightarrow> (x, k, term_of c' x) \<in> challenges_sent c')"
      then obtain act where e: "on_election_start (agents c x) y (prio_of c y) t = (act, agents c' x)"
        and k: "act = Challenge y \<Longrightarrow> (x, y, term_of c' x) \<in> challenges_sent c'" by blast
      show ?thesis
      proof (rule ccontr)
        assume "\<not> t < term_of c x"
        then have "act = Challenge y" "term_of c' x = t"
          using on_start_effect(4) [OF e] on_start_term [OF e] b cfg by (auto simp: beats_def max_def)
        then show False using k nc by simp
      qed
    qed
    then show ?thesis using cstep_term_mono [OF assms(1), of x] by auto
  qed
qed

lemma wins_ok_step:
  assumes "cstep N c c'" and ok: "terms_ok N cfg c" and r: "rivals_ok N cfg c" and w: "wins_ok N cfg c"
  shows "wins_ok N cfg c'"
proof -
  have "seen c' n t m" if "won c' n t" "m \<in> N - {n}" for n t m
  proof -
    have "seen c n t m"
      using cstep_won [OF assms(1) that(1) ok] w that(2) by (auto simp: wins_ok_def seen_def live_def)
    then show ?thesis by (rule cstep_seen_mono [OF assms(1) _ ok])
  qed
  moreover have "t < term_of c' x \<and> \<not> won c' x t"
    if x: "x \<in> N" and y: "y \<in> N - {x}" and b: "beats cfg x y" and wy: "won c' y t" for x y t
  proof -
    have "t < term_of c x \<and> \<not> won c x t"
      using cstep_won [OF assms(1) wy ok]
    proof
      assume "won c y t" then show ?thesis using w x y b by (auto simp: wins_ok_def)
    next
      assume l: "live c y t \<and> y \<in> N \<and> (\<forall>m. (y, t, m) \<notin> starts_sent c) \<and> (\<forall>m. (m, y, t) \<notin> challenges_sent c)"
      then have "seen c y t x" by (auto simp: seen_def live_def)
      moreover have "\<not> seen c x t y" using r x y b l by (auto simp: rivals_ok_def)
      ultimately show ?thesis using r w x y b l by (auto simp: rivals_ok_def wins_ok_def)
    qed
    then show ?thesis
      using cstep_won [OF assms(1) _ ok, of x t] cstep_term_mono [OF assms(1), of x] by (auto simp: live_def)
  qed
  ultimately show ?thesis by (simp add: wins_ok_def)
qed

lemma creach_inv:
  assumes "creach N cfg c" and ids: "\<forall>n \<in> N. el_node_id (cfg n) = n"
  shows "terms_ok N cfg c \<and> rivals_ok N cfg c \<and> wins_ok N cfg c"
  using assms(1)
proof induction
  case cr_init
  show ?case
    by (simp add: terms_ok_def rivals_ok_def wins_ok_def init_cluster_def new_agent_def seen_def won_def)
next
  case (cr_step c c')
  then have inv: "terms_ok N cfg c" "rivals_ok N cfg c" "wins_ok N cfg c" by auto
  note rivals = rivals_ok_step [OF cr_step.hyps(2) inv(1,2)]
  have "rivals_ok N cfg c'"
    unfolding rivals_ok_def by (intro ballI allI impI conjI) (rule rivals; use ids in blast)+
  then show ?case using inv cr_step.hyps(2) terms_ok_step wins_ok_step by blast
qed

subsection \<open>Runs\<close>

datatype cevent =
    EvStart string
  | EvGotStart string u64 string
  | EvGotChallenge string string u64
  | EvWindow string

text \<open>The steps as a function of the event, for concrete runs.\<close>

fun capply :: "string set \<Rightarrow> cluster \<Rightarrow> cevent \<Rightarrow> cluster option" where
  "capply N c (EvStart n) =
     (if n \<in> N \<and> term_of c n \<noteq> - 1
      then let (t, ag) = start_election (agents c n)
        in Some (c\<lparr>agents := (agents c)(n := ag), started := insert (n, t) (started c),
             starts_sent := starts_sent c \<union> Pair n ` Pair t ` (N - {n})\<rparr>)
      else None)"
| "capply N c (EvGotStart n t m) =
     (if (n, t, m) \<in> starts_sent c
      then let (act, ag) = on_election_start (agents c m) n (prio_of c n) t
        in Some (c\<lparr>agents := (agents c)(m := ag), starts_sent := starts_sent c - {(n, t, m)},
             challenges_sent := challenges_sent c \<union> (case act of Challenge k \<Rightarrow> {(m, k, el_term ag)} | _ \<Rightarrow> {})\<rparr>)
      else None)"
| "capply N c (EvGotChallenge m n t) =
     (if (m, n, t) \<in> challenges_sent c
      then let (act, ag) = on_election_challenge (agents c n) m (prio_of c m) t
        in Some (c\<lparr>agents := (agents c)(n := ag), challenges_sent := challenges_sent c - {(m, n, t)}\<rparr>)
      else None)"
| "capply N c (EvWindow n) =
     (if n \<in> N \<and> n \<notin> fst ` starts_sent c \<and> n \<notin> (\<lambda>(m, k, t). k) ` challenges_sent c
      then let (act, ag) = on_election_timeout (agents c n)
        in Some (c\<lparr>agents := (agents c)(n := ag),
             victories := victories c \<union> (case act of DeclareVictory \<Rightarrow> {(n, el_term ag)} | _ \<Rightarrow> {})\<rparr>)
      else None)"

fun crun :: "string set \<Rightarrow> cluster \<Rightarrow> cevent list \<Rightarrow> cluster option" where
  "crun N c [] = Some c"
| "crun N c (e # es) = (case capply N c e of None \<Rightarrow> None | Some c' \<Rightarrow> crun N c' es)"

lemma capply_cstep: "capply N c e = Some c' \<Longrightarrow> cstep N c c'"
proof (induction N c e rule: capply.induct)
  case (1 N c n)
  then show ?case by (auto split: if_splits prod.splits intro!: cs_start)
next
  case (2 N c n t m)
  then show ?case by (auto split: if_splits prod.splits intro!: cs_got_start)
next
  case (3 N c m n t)
  then show ?case by (auto split: if_splits prod.splits intro!: cs_got_challenge)
next
  case (4 N c n)
  then have "\<forall>t m. (n, t, m) \<notin> starts_sent c" "\<forall>m t. (m, n, t) \<notin> challenges_sent c" "n \<in> N"
    by (force split: if_splits)+
  then show ?case using 4 by (auto split: if_splits prod.splits intro!: cs_window_expired)
qed

lemma crun_creach: "creach N cfg c \<Longrightarrow> crun N c es = Some c' \<Longrightarrow> creach N cfg c'"
  by (induction N c es rule: crun.induct) (auto split: option.splits intro: cr_step capply_cstep)

definition trio :: "string \<Rightarrow> election_config" where
  "trio n = \<lparr>el_node_id = n, el_priority = (if n = ''c'' then 1 else if n = ''a'' then 2 else 3),
     election_window = 5000\<rparr>"

definition trio_run :: "cevent list" where
  "trio_run = [EvStart ''a'', EvStart ''c'', EvStart ''c'', EvGotStart ''a'' 1 ''c'',
     EvGotStart ''a'' 1 ''b'', EvStart ''b'', EvGotStart ''b'' 2 ''a'', EvWindow ''a'',
     EvGotStart ''c'' 2 ''a'', EvGotStart ''c'' 1 ''a'', EvGotStart ''c'' 2 ''b'',
     EvGotStart ''c'' 1 ''b'', EvWindow ''c'']"

lemma trio_run_result:
  "case crun {''a'', ''b'', ''c''} (init_cluster trio) trio_run of None \<Rightarrow> False
   | Some c \<Rightarrow> el_state (agents c ''a'') = Leader \<and> el_state (agents c ''c'') = Leader
       \<and> (''a'', 2) \<in> victories c \<and> (''c'', 2) \<in> victories c"
  by code_simp

definition duo_run :: "cevent list" where
  "duo_run = [EvStart ''a'', EvStart ''c'', EvGotStart ''a'' 1 ''c'', EvGotChallenge ''c'' ''a'' 1,
     EvGotStart ''c'' 1 ''a'', EvWindow ''c'', EvWindow ''a'']"

lemma duo_run_result:
  "case crun {''a'', ''c''} (init_cluster trio) duo_run of None \<Rightarrow> False
   | Some c \<Rightarrow> won c ''c'' 1"
  unfolding won_def by code_simp

subsection \<open>Properties\<close>




end
