(* ===== verification/F32.thy ===== *)
theory F32
  imports Prelude
begin

unbundle bit_operations_syntax

text \<open>
  IEEE-754 binary32 as Rust's \<open>f32\<close> uses it. A value is its 32 bits (so \<open>from_le_bytes\<close> and
  \<open>to_le_bytes\<close> are the byte encodings of the prelude). Arithmetic unpacks the bits, computes the
  exact result on integers and rounds to nearest, ties to even. Comparison goes through an exact
  integer key, which makes the order facts immediate. An operation whose result is not a number
  returns the canonical quiet NaN; Rust leaves its payload open and no definition of this
  development looks at it.
\<close>

type_synonym f32 = u32

datatype fp = FNaN | FInf bool | FFin bool nat int

text \<open>\<open>FFin s m e\<close> is the number \<open>m * 2 ^ e\<close>, negated when \<open>s\<close>.\<close>

definition unpack :: "f32 \<Rightarrow> fp" where
  "unpack w = (let n = unat w; s = 2 ^ 31 \<le> n; ex = n div 2 ^ 23 mod 256; fr = n mod 2 ^ 23
     in if ex = 255 then (if fr = 0 then FInf s else FNaN)
        else if ex = 0 then FFin s fr (- 149)
        else FFin s (fr + 2 ^ 23) (int ex - 150))"

fun pack :: "fp \<Rightarrow> f32" where
  "pack FNaN = 0x7FC00000"
| "pack (FInf s) = (if s then 0xFF800000 else 0x7F800000)"
| "pack (FFin s m e) = word_of_nat ((if s then 2 ^ 31 else 0)
     + (if m < 2 ^ 23 then m else nat (e + 150) * 2 ^ 23 + (m - 2 ^ 23)))"

text \<open>The finite values in the form \<open>unpack\<close> gives them: 24-bit mantissa, normalised unless
  subnormal.\<close>

fun canonical :: "fp \<Rightarrow> bool" where
  "canonical (FFin s m e) = ((m < 2 ^ 23 \<and> e = - 149)
     \<or> (2 ^ 23 \<le> m \<and> m < 2 ^ 24 \<and> - 149 \<le> e \<and> e \<le> 104))"
| "canonical _ = True"

fun bitlen :: "nat \<Rightarrow> nat" where
  "bitlen n = (if n = 0 then 0 else Suc (bitlen (n div 2)))"

declare bitlen.simps [simp del]

text \<open>Round the magnitude \<open>m * 2 ^ e\<close> to 24 bits (fewer below the normal range), ties to even.\<close>

definition round_shift :: "nat \<Rightarrow> nat \<Rightarrow> nat" where
  "round_shift m k = (let q = m div 2 ^ k; r = m mod 2 ^ k; h = 2 ^ k div 2
     in if h < r \<or> (r = h \<and> odd q) then Suc q else q)"

definition finish :: "bool \<Rightarrow> nat \<Rightarrow> int \<Rightarrow> fp" where
  "finish s q e = (let (q', e') = (if q = 2 ^ 24 then (2 ^ 23, e + 1) else (q, e))
     in if 104 < e' then FInf s else FFin s q' e')"

definition round_fin :: "bool \<Rightarrow> nat \<Rightarrow> int \<Rightarrow> fp" where
  "round_fin s m e = (if m = 0 then FFin s 0 (- 149) else
     (let sh = max (int (bitlen m) - 24) (- 149 - e)
      in if sh \<le> 0 then finish s (m * 2 ^ nat (- sh)) (e + sh)
         else finish s (round_shift m (nat sh)) (e + sh)))"

subsection \<open>Classification and order\<close>

definition f32_is_nan :: "f32 \<Rightarrow> bool" where
  "f32_is_nan a = (unpack a = FNaN)"

definition f32_is_infinite :: "f32 \<Rightarrow> bool" where
  "f32_is_infinite a = (case unpack a of FInf _ \<Rightarrow> True | _ \<Rightarrow> False)"

text \<open>The value in units of \<open>2 ^ -149\<close>; infinities beyond every finite value.\<close>

fun fkey :: "fp \<Rightarrow> int" where
  "fkey FNaN = 0"
| "fkey (FInf s) = (if s then - (2 ^ 300) else 2 ^ 300)"
| "fkey (FFin s m e) = (if s then - 1 else 1) * (int m * 2 ^ nat (e + 149))"

definition f32_lt :: "f32 \<Rightarrow> f32 \<Rightarrow> bool" where
  "f32_lt a b = (\<not> f32_is_nan a \<and> \<not> f32_is_nan b \<and> fkey (unpack a) < fkey (unpack b))"

definition f32_le :: "f32 \<Rightarrow> f32 \<Rightarrow> bool" where
  "f32_le a b = (\<not> f32_is_nan a \<and> \<not> f32_is_nan b \<and> fkey (unpack a) \<le> fkey (unpack b))"

definition f32_eq :: "f32 \<Rightarrow> f32 \<Rightarrow> bool" where
  "f32_eq a b = (\<not> f32_is_nan a \<and> \<not> f32_is_nan b \<and> fkey (unpack a) = fkey (unpack b))"

definition f32_partial_cmp :: "f32 \<Rightarrow> f32 \<Rightarrow> ordering option" where
  "f32_partial_cmp a b = (if f32_is_nan a \<or> f32_is_nan b then None
     else Some (if f32_lt a b then Less else if f32_lt b a then Greater else Equal))"

text \<open>\<open>f32::max\<close> and \<open>f32::min\<close> return the other operand when one is NaN.\<close>

definition f32_max :: "f32 \<Rightarrow> f32 \<Rightarrow> f32" where
  "f32_max a b = (if f32_is_nan a then b else if f32_is_nan b then a
     else if f32_lt a b then b else a)"

definition f32_min :: "f32 \<Rightarrow> f32 \<Rightarrow> f32" where
  "f32_min a b = (if f32_is_nan a then b else if f32_is_nan b then a
     else if f32_lt b a then b else a)"

subsection \<open>Arithmetic\<close>

fun fp_add :: "fp \<Rightarrow> fp \<Rightarrow> fp" where
  "fp_add (FFin s m e) (FFin t n d) =
     (let v = fkey (FFin s m e) + fkey (FFin t n d)
      in if v = 0 then FFin (s \<and> t) 0 (- 149) else round_fin (v < 0) (nat \<bar>v\<bar>) (- 149))"
| "fp_add (FInf s) (FInf t) = (if s = t then FInf s else FNaN)"
| "fp_add FNaN _ = FNaN"
| "fp_add _ FNaN = FNaN"
| "fp_add (FInf s) _ = FInf s"
| "fp_add _ (FInf t) = FInf t"

fun fp_mul :: "fp \<Rightarrow> fp \<Rightarrow> fp" where
  "fp_mul (FFin s m e) (FFin t n d) = round_fin (s \<noteq> t) (m * n) (e + d)"
| "fp_mul FNaN _ = FNaN"
| "fp_mul _ FNaN = FNaN"
| "fp_mul (FInf s) (FInf t) = FInf (s \<noteq> t)"
| "fp_mul (FInf s) (FFin t n d) = (if n = 0 then FNaN else FInf (s \<noteq> t))"
| "fp_mul (FFin s m e) (FInf t) = (if m = 0 then FNaN else FInf (s \<noteq> t))"

text \<open>Division keeps 64 quotient bits and folds the remainder into one more, sticky, bit.\<close>

fun fp_div :: "fp \<Rightarrow> fp \<Rightarrow> fp" where
  "fp_div (FFin s m e) (FFin t n d) =
     (if n = 0 then (if m = 0 then FNaN else FInf (s \<noteq> t))
      else let q = m * 2 ^ 64 div n; r = m * 2 ^ 64 mod n
           in round_fin (s \<noteq> t) (2 * q + (if r = 0 then 0 else 1)) (e - d - 65))"
| "fp_div FNaN _ = FNaN"
| "fp_div _ FNaN = FNaN"
| "fp_div (FInf s) (FInf t) = FNaN"
| "fp_div (FInf s) (FFin t n d) = FInf (s \<noteq> t)"
| "fp_div (FFin s m e) (FInf t) = FFin (s \<noteq> t) 0 (- 149)"

definition f32_add :: "f32 \<Rightarrow> f32 \<Rightarrow> f32" where
  "f32_add a b = pack (fp_add (unpack a) (unpack b))"

definition f32_mul :: "f32 \<Rightarrow> f32 \<Rightarrow> f32" where
  "f32_mul a b = pack (fp_mul (unpack a) (unpack b))"

definition f32_div :: "f32 \<Rightarrow> f32 \<Rightarrow> f32" where
  "f32_div a b = pack (fp_div (unpack a) (unpack b))"

text \<open>\<open>f32::round\<close> (half away from zero) and \<open>f32::ceil\<close>.\<close>

fun fp_round :: "fp \<Rightarrow> fp" where
  "fp_round (FFin s m e) = (if 0 \<le> e then FFin s m e
     else round_fin s ((2 * m + 2 ^ nat (- e)) div (2 * 2 ^ nat (- e))) 0)"
| "fp_round x = x"

fun fp_ceil :: "fp \<Rightarrow> fp" where
  "fp_ceil (FFin s m e) = (if 0 \<le> e then FFin s m e
     else round_fin s (if s then m div 2 ^ nat (- e)
                       else (m + 2 ^ nat (- e) - 1) div 2 ^ nat (- e)) 0)"
| "fp_ceil x = x"

definition f32_round :: "f32 \<Rightarrow> f32" where
  "f32_round a = pack (fp_round (unpack a))"

definition f32_ceil :: "f32 \<Rightarrow> f32" where
  "f32_ceil a = pack (fp_ceil (unpack a))"

text \<open>The casts \<open>n as f32\<close> (nearest) and \<open>x as usize\<close> (towards zero, saturating, NaN to 0).\<close>

definition f32_of_usize :: "usize \<Rightarrow> f32" where
  "f32_of_usize n = pack (round_fin False n 0)"

fun fp_to_usize :: "fp \<Rightarrow> usize" where
  "fp_to_usize FNaN = 0"
| "fp_to_usize (FInf s) = (if s then 0 else usize_max)"
| "fp_to_usize (FFin s m e) = (if s then 0 else
     min usize_max (if 0 \<le> e then m * 2 ^ nat e else m div 2 ^ nat (- e)))"

definition f32_to_usize :: "f32 \<Rightarrow> usize" where
  "f32_to_usize a = fp_to_usize (unpack a)"

text \<open>Constants of the sources.\<close>

abbreviation f32_zero :: f32 where "f32_zero \<equiv> 0x00000000"
abbreviation f32_one :: f32 where "f32_one \<equiv> 0x3F800000"
abbreviation f32_two :: f32 where "f32_two \<equiv> 0x40000000"
abbreviation f32_500 :: f32 where "f32_500 \<equiv> 0x43FA0000"
abbreviation f32_1e9 :: f32 where "f32_1e9 \<equiv> 0x4E6E6B28"
abbreviation f32_MIN :: f32 where "f32_MIN \<equiv> 0xFF7FFFFF"
abbreviation f32_MAX :: f32 where "f32_MAX \<equiv> 0x7F7FFFFF"

subsection \<open>The part of f64 the sources use\<close>

text \<open>An \<open>f64\<close> is its 64 bits; the sources compare it with zero and widen an \<open>f32\<close> to it.\<close>

type_synonym f64 = u64

definition f64_is_nan :: "f64 \<Rightarrow> bool" where
  "f64_is_nan w = (unat w div 2 ^ 52 mod 2048 = 2047 \<and> unat w mod 2 ^ 52 \<noteq> 0)"

definition f64_le_zero :: "f64 \<Rightarrow> bool" where
  "f64_le_zero w = (\<not> f64_is_nan w \<and> (2 ^ 63 \<le> unat w \<or> unat w mod 2 ^ 63 = 0))"

definition f64_of_f32 :: "f32 \<Rightarrow> f64" where
  "f64_of_f32 a = (case unpack a of
      FNaN \<Rightarrow> 0x7FF8000000000000
    | FInf s \<Rightarrow> (if s then 0xFFF0000000000000 else 0x7FF0000000000000)
    | FFin s m e \<Rightarrow> word_of_nat ((if s then 2 ^ 63 else 0)
        + (if m = 0 then 0
           else nat (e + int (bitlen m) + 1022) * 2 ^ 52 + (m * 2 ^ (53 - bitlen m) - 2 ^ 52))))"

subsection \<open>Order facts\<close>

named_theorems f32_order \<open>the strict order of f32\<close>

lemma f32_lt_irrefl [f32_order, simp]: "\<not> f32_lt a a"
  by (simp add: f32_lt_def)

lemma f32_lt_trans [f32_order]: "f32_lt a b \<Longrightarrow> f32_lt b c \<Longrightarrow> f32_lt a c"
  by (auto simp: f32_lt_def)

lemma f32_lt_asym [f32_order]: "f32_lt a b \<Longrightarrow> \<not> f32_lt b a"
  by (auto simp: f32_lt_def)

lemma f32_not_lt_trans:
  "\<not> f32_is_nan a \<Longrightarrow> \<not> f32_is_nan b \<Longrightarrow> \<not> f32_is_nan c
    \<Longrightarrow> \<not> f32_lt a b \<Longrightarrow> \<not> f32_lt b c \<Longrightarrow> \<not> f32_lt a c"
  by (auto simp: f32_lt_def)

lemma f32_lt_not_nan: "f32_lt a b \<Longrightarrow> \<not> f32_is_nan a \<and> \<not> f32_is_nan b"
  by (simp add: f32_lt_def)

text \<open>Evaluating closed terms.\<close>

lemmas f32_eval = unpack_def round_fin_def finish_def round_shift_def Let_def bitlen.simps
  f32_add_def f32_mul_def f32_div_def f32_round_def f32_ceil_def f32_of_usize_def
  f32_to_usize_def f32_lt_def f32_le_def f32_eq_def f32_is_nan_def f32_max_def f32_min_def
  f32_partial_cmp_def

subsection \<open>Rounding gives representable values\<close>

lemma bitlen_bounds: "0 < m \<Longrightarrow> 2 ^ (bitlen m - 1) \<le> m \<and> m < 2 ^ bitlen m"
proof (induction m rule: bitlen.induct)
  case (1 n)
  show ?case
  proof (cases "n div 2 = 0")
    case True
    with "1.prems" have "n = 1" by simp
    then show ?thesis by (simp add: bitlen.simps)
  next
    case False
    with "1.prems" have ih: "2 ^ (bitlen (n div 2) - 1) \<le> n div 2 \<and> n div 2 < 2 ^ bitlen (n div 2)"
      by (intro "1.IH") simp_all
    have b: "bitlen n = Suc (bitlen (n div 2))"
      using "1.prems" by (subst bitlen.simps) simp
    have p: "bitlen (n div 2) \<noteq> 0"
      using False by (subst bitlen.simps) simp
    from p obtain k where k: "bitlen (n div 2) = Suc k" by (cases "bitlen (n div 2)") auto
    have "2 * (n div 2) \<le> n" and "n < 2 * (n div 2) + 2"
      by simp_all
    moreover from ih k have "2 ^ k \<le> n div 2" and "n div 2 < 2 * 2 ^ k" by simp_all
    ultimately have "2 * 2 ^ k \<le> n" and "n < 2 * (2 * 2 ^ k)" by linarith+
    then show ?thesis by (simp add: b k)
  qed
qed

lemma unpack_pack_fin:
  assumes "canonical (FFin s m e)"
  shows "unpack (pack (FFin s m e)) = FFin s m e"
proof -
  define E f where "E = (if m < 2 ^ 23 then 0 else nat (e + 150))" and "f = (if m < 2 ^ 23 then m else m - 2 ^ 23)"
  define S where "S = (if s then 1 else 0 :: nat)"
  have E: "E < 255" and f: "f < 2 ^ 23" using assms by (auto simp: E_def f_def)
  let ?k = "S * 2 ^ 31 + E * 2 ^ 23 + f"
  have k: "?k < 2 ^ 32" using E f by (simp add: S_def)
  have p: "pack (FFin s m e) = word_of_nat ?k"
    by (simp add: S_def E_def f_def add.assoc)
  have "unat (word_of_nat K :: 32 word) = K" if "K < 2 ^ 32" for K using that by (simp add: unat_of_nat)
  then have u: "unat (pack (FFin s m e)) = ?k" unfolding p using k by blast
  have s: "2 ^ 31 \<le> ?k \<longleftrightarrow> s" using E f by (auto simp: S_def)
  have "?k div 2 ^ 23 = ((S * 256 + E) * 2 ^ 23 + f) div 2 ^ 23" by simp
  also have "\<dots> = S * 256 + E" using f by (simp only: div_mult_self3) simp
  finally have d: "?k div 2 ^ 23 mod 256 = E" using E by simp
  have "?k mod 2 ^ 23 = ((S * 256 + E) * 2 ^ 23 + f) mod 2 ^ 23" by (simp add: mult.commute [of S])
  also have "\<dots> = f" using f by (simp only: mod_mult_self3) simp
  finally have r: "?k mod 2 ^ 23 = f" .
  show ?thesis
    unfolding unpack_def Let_def u s d r using assms
    by (auto simp: E_def f_def)
qed

lemma unpack_pack: "canonical x \<Longrightarrow> unpack (pack x) = x"
  by (cases x) (simp add: unpack_def, simp add: unpack_def, simp only: unpack_pack_fin)

lemma canonical_finish:
  assumes "q \<le> 2 ^ 24" and "- 149 \<le> e" and "q < 2 ^ 23 \<longrightarrow> e = - 149"
  shows "canonical (finish s q e)"
  using assms by (auto simp: finish_def Let_def)

lemma round_shift_bounds:
  assumes "m < 2 ^ (24 + k)"
  shows "round_shift m k \<le> 2 ^ 24" and "2 ^ (23 + k) \<le> m \<Longrightarrow> 2 ^ 23 \<le> round_shift m k"
proof -
  have "m div 2 ^ k < 2 ^ 24" using assms by (simp add: power_add less_mult_imp_div_less)
  then show "round_shift m k \<le> 2 ^ 24" by (simp add: round_shift_def Let_def)
  assume "2 ^ (23 + k) \<le> m"
  then have "2 ^ 23 \<le> m div 2 ^ k"
    by (simp add: power_add less_eq_div_iff_mult_less_eq)
  then show "2 ^ 23 \<le> round_shift m k" by (simp add: round_shift_def Let_def)
qed

lemma canonical_round_fin: "canonical (round_fin s m e)"
proof (cases "m = 0")
  case False
  define b where "b = bitlen m"
  have b: "2 ^ (b - 1) \<le> m" "m < 2 ^ b" and b0: "0 < b"
    using bitlen_bounds [of m] False unfolding b_def by (auto, subst bitlen.simps, simp)
  define sh where "sh = max (int b - 24) (- 149 - e)"
  have e149: "- 149 \<le> e + sh" and b24: "int b - 24 \<le> sh" by (simp_all add: sh_def)
  have ex: "sh = int b - 24 \<or> e + sh = - 149" by (auto simp: sh_def max_def)
  show ?thesis
  proof (cases "sh \<le> 0")
    case True
    let ?q = "m * 2 ^ nat (- sh)"
    have "?q < 2 ^ b * 2 ^ nat (- sh)" using b(2) by simp
    also have "\<dots> = 2 ^ (b + nat (- sh))" by (simp add: power_add)
    also have "\<dots> \<le> 2 ^ 24" using b24 True by (intro power_increasing) auto
    finally have q: "?q < 2 ^ 24" .
    have "2 ^ 23 \<le> ?q" if "sh = int b - 24"
    proof -
      have "(2 :: nat) ^ 23 = 2 ^ (b - 1 + nat (- sh))" using that True b0 by (intro arg_cong [of _ _ "power 2"]) auto
      also have "\<dots> \<le> ?q" using b(1) by (simp add: power_add)
      finally show ?thesis .
    qed
    then have "canonical (finish s ?q (e + sh))" using q e149 ex by (intro canonical_finish) auto
    then show ?thesis using False True by (simp add: round_fin_def Let_def sh_def b_def)
  next
    case False': False
    let ?q = "round_shift m (nat sh)"
    have "m < 2 ^ (24 + nat sh)"
      using b(2) b24 False' by (intro less_le_trans [OF b(2)] power_increasing) auto
    note rs = round_shift_bounds [OF this]
    have "2 ^ 23 \<le> ?q" if "sh = int b - 24"
    proof -
      have "23 + nat sh = b - 1" using that False' by auto
      then show ?thesis using rs(2) b(1) by simp
    qed
    then have "canonical (finish s ?q (e + sh))" using rs(1) e149 ex by (intro canonical_finish) auto
    moreover have "round_fin s m e = finish s ?q (e + sh)"
      using False False' by (simp add: round_fin_def Let_def flip: sh_def b_def)
    ultimately show ?thesis by simp
  qed
qed (simp add: round_fin_def)

fun fp_sign :: "fp \<Rightarrow> bool" where
  "fp_sign FNaN = False"
| "fp_sign (FInf s) = s"
| "fp_sign (FFin s m e) = s"

lemma round_fin_shape: "round_fin s m e \<noteq> FNaN \<and> fp_sign (round_fin s m e) = s"
  by (simp add: round_fin_def finish_def Let_def)


text \<open>Positive and non-negative values.\<close>

definition f32_pos :: "f32 \<Rightarrow> bool" where
  "f32_pos a \<longleftrightarrow> f32_lt f32_zero a"

definition f32_nonneg :: "f32 \<Rightarrow> bool" where
  "f32_nonneg a \<longleftrightarrow> unpack a \<noteq> FNaN \<and> \<not> fp_sign (unpack a)"

lemma unpack_zero [simp]: "unpack 0 = FFin False 0 (- 149)"
  by (simp add: unpack_def)

lemma f32_pos_unpack:
  assumes "f32_pos a"
  shows "unpack a = FInf False \<or> (\<exists>m e. 0 < m \<and> unpack a = FFin False m e)"
  using assms
  by (cases "unpack a")
    (auto simp: f32_pos_def f32_lt_def f32_is_nan_def zero_less_mult_iff mult_less_0_iff split: if_splits)

lemma f32_pos_nonneg: "f32_pos a \<Longrightarrow> f32_nonneg a"
  using f32_pos_unpack [of a] by (auto simp: f32_nonneg_def)

lemma f32_nonneg_not_nan: "f32_nonneg a \<Longrightarrow> \<not> f32_is_nan a"
  by (simp add: f32_nonneg_def f32_is_nan_def)

lemma f32_nonneg_above_MIN:
  assumes "f32_nonneg a"
  shows "f32_lt f32_MIN a"
proof -
  have "0 \<le> fkey (unpack a)" using assms by (cases "unpack a") (auto simp: f32_nonneg_def)
  then show ?thesis using assms by (simp add: f32_lt_def f32_is_nan_def f32_nonneg_def unpack_def [of f32_MIN])
qed

lemma pack_nonneg: "canonical x \<Longrightarrow> x \<noteq> FNaN \<Longrightarrow> \<not> fp_sign x \<Longrightarrow> f32_nonneg (pack x)"
  by (simp add: f32_nonneg_def unpack_pack)

lemma f32_nonneg_consts: "f32_nonneg 0" "f32_nonneg 0x7F800000"
  by (simp_all add: f32_nonneg_def unpack_def)

lemma round_fin_nonneg: "f32_nonneg (pack (round_fin False m e))"
  by (rule pack_nonneg) (simp_all add: canonical_round_fin round_fin_shape)

lemma f32_of_usize_nonneg: "f32_nonneg (f32_of_usize n)"
  unfolding f32_of_usize_def by (rule round_fin_nonneg)

lemma f32_mul_nonneg:
  assumes "f32_nonneg a" and "f32_pos b" and "\<not> f32_is_infinite b"
  shows "f32_nonneg (f32_mul a b)"
proof -
  obtain m e where b: "unpack b = FFin False m e" "0 < m"
    using f32_pos_unpack [OF assms(2)] assms(3) by (auto simp: f32_is_infinite_def)
  show ?thesis
  proof (cases "unpack a")
    case (FFin s k d)
    then show ?thesis using assms(1) b round_fin_nonneg by (simp add: f32_mul_def f32_nonneg_def [of a])
  qed (use assms(1) b in \<open>auto simp: f32_mul_def f32_nonneg_def [of a] f32_nonneg_consts\<close>)
qed

lemma f32_div_nonneg:
  assumes "f32_pos a" and "\<not> f32_is_infinite a" and "f32_pos b"
  shows "f32_nonneg (f32_div a b)"
proof -
  obtain m e where a: "unpack a = FFin False m e" "0 < m"
    using f32_pos_unpack [OF assms(1)] assms(2) by (auto simp: f32_is_infinite_def)
  from f32_pos_unpack [OF assms(3)] show ?thesis
  proof
    assume "unpack b = FInf False"
    then show ?thesis using a by (simp add: f32_div_def f32_nonneg_consts)
  next
    assume "\<exists>m e. 0 < m \<and> unpack b = FFin False m e"
    then obtain n d where "unpack b = FFin False n d" "0 < n" by blast
    then show ?thesis using a round_fin_nonneg by (simp add: f32_div_def Let_def)
  qed
qed

lemma f32_one_pos: "f32_pos f32_one" "\<not> f32_is_infinite f32_one"
  by (simp_all add: f32_pos_def f32_lt_def f32_is_nan_def f32_is_infinite_def unpack_def)

end
