(* ===== verification/Core.thy ===== *)
theory Core
  imports F32
begin

text \<open>
  The crate \<open>fracture-core\<close>: the error type every crate returns (\<open>error.rs\<close>), element types
  (\<open>dtype.rs\<close>), tensor handles (\<open>tensor.rs\<close>) and the model configuration
  (\<open>model_config.rs\<close>). An error's \<open>String\<close> payload is the format string of the source with its
  placeholders left in, so that every early return keeps its own error value.
\<close>

subsection \<open>Errors\<close>

datatype io_error = UnexpectedEof | OtherIo string

datatype fracture_error =
    Backend string
  | OutOfMemory usize usize
  | InvalidShape string
  | TensorNotFound string
  | ModelConfigErr string
  | GgufParse string
  | WeightLoad string
  | KvCache string
  | Generation string
  | Tokenizer string
  | Server string
  | Pipeline string
  | Protocol string
  | UnsupportedDType string
  | Io io_error

type_synonym 'a result = "fracture_error + 'a"

subsection \<open>Element types\<close>

datatype dtype = FP16 | FP32 | BF16 | INT8 | INT4

fun size_bytes :: "dtype \<Rightarrow> usize" where
  "size_bytes FP16 = 2"
| "size_bytes FP32 = 4"
| "size_bytes BF16 = 2"
| "size_bytes INT8 = 1"
| "size_bytes INT4 = 1"

definition is_packed :: "dtype \<Rightarrow> bool" where
  "is_packed d = (d = INT4)"

subsection \<open>Tensor handles\<close>

record device_tensor =
  t_id :: u64
  t_shape :: "usize list"
  t_dtype :: dtype

definition try_new :: "u64 \<Rightarrow> usize list \<Rightarrow> dtype \<Rightarrow> device_tensor result" where
  "try_new i shape d =
     rbind (ensure (shape \<noteq> []) (InvalidShape ''shape must have at least one dimension'')) (\<lambda>_.
     rbind (rforeach (\<lambda>dim _. ensure (dim \<noteq> 0)
              (InvalidShape ''dimension {i} is zero in shape {shape:?}'')) shape ()) (\<lambda>_.
     Inr \<lparr>t_id = i, t_shape = shape, t_dtype = d\<rparr>))"

definition numel :: "device_tensor \<Rightarrow> usize" where
  "numel t = prod_list (t_shape t)"

definition tensor_size_bytes :: "device_tensor \<Rightarrow> usize" where
  "tensor_size_bytes t = (if is_packed (t_dtype t) then div_ceil (numel t) 2
     else numel t * size_bytes (t_dtype t))"

definition reshape :: "device_tensor \<Rightarrow> usize list \<Rightarrow> device_tensor result" where
  "reshape t new_shape =
     (let new_numel = prod_list new_shape
      in if new_numel \<noteq> numel t
         then Inl (InvalidShape ''cannot reshape tensor with {} elements to shape {:?} ({} elements)'')
         else Inr \<lparr>t_id = t_id t, t_shape = new_shape, t_dtype = t_dtype t\<rparr>)"

subsection \<open>Model configuration\<close>

record model_config =
  hidden_size :: usize
  num_layers :: usize
  num_q_heads :: usize
  num_kv_heads :: usize
  head_dim :: usize
  intermediate_size :: usize
  vocab_size :: usize
  rope_theta :: f64
  rms_norm_eps :: f64
  max_seq_len :: usize

text \<open>\<open>ModelConfig::validate\<close>, the checks in the order of the source.
  \<open>usize::is_multiple_of\<close> is divisibility.\<close>

definition validate_config :: "model_config \<Rightarrow> unit result" where
  "validate_config c =
     (if hidden_size c = 0 then Inl (ModelConfigErr ''hidden_size must be > 0'')
      else if num_layers c = 0 then Inl (ModelConfigErr ''num_layers must be > 0'')
      else if num_q_heads c = 0 then Inl (ModelConfigErr ''num_q_heads must be > 0'')
      else if num_kv_heads c = 0 then Inl (ModelConfigErr ''num_kv_heads must be > 0'')
      else if vocab_size c = 0 then Inl (ModelConfigErr ''vocab_size must be > 0'')
      else if head_dim c \<noteq> hidden_size c div num_q_heads c
        then Inl (ModelConfigErr ''head_dim ({}) != hidden_size ({}) / num_q_heads ({})'')
      else if intermediate_size c = 0 then Inl (ModelConfigErr ''intermediate_size must be > 0'')
      else if max_seq_len c = 0 then Inl (ModelConfigErr ''max_seq_len must be > 0'')
      else if f64_le_zero (rope_theta c) then Inl (ModelConfigErr ''rope_theta must be > 0.0'')
      else if f64_le_zero (rms_norm_eps c) then Inl (ModelConfigErr ''rms_norm_eps must be > 0.0'')
      else if \<not> num_kv_heads c dvd num_q_heads c
        then Inl (ModelConfigErr ''num_q_heads ({}) must be divisible by num_kv_heads ({})'')
      else Inr ())"

definition gqa_group_size :: "model_config \<Rightarrow> usize" where
  "gqa_group_size c = num_q_heads c div num_kv_heads c"

subsection \<open>Tensor facts\<close>

lemma rforeach_ensure_all:
  "rforeach (\<lambda>x _. ensure (P x) e) xs () = Inr () \<longleftrightarrow> (\<forall>x \<in> set xs. P x)"
  by (induction xs) (auto simp: result_simps)

lemma try_new_ok:
  "try_new i shape d = Inr t \<longleftrightarrow>
     shape \<noteq> [] \<and> 0 \<notin> set shape \<and> t = \<lparr>t_id = i, t_shape = shape, t_dtype = d\<rparr>"
  by (auto simp: try_new_def result_simps rforeach_ensure_all intro!: gr0I)

lemma numel_try_new: "try_new i shape d = Inr t \<Longrightarrow> 0 < numel t"
  using prod_list_zero_iff [of shape] by (auto simp: try_new_ok numel_def intro: gr0I)

lemma reshape_ok:
  "reshape t sh = Inr t' \<longleftrightarrow> prod_list sh = numel t \<and>
     t' = \<lparr>t_id = t_id t, t_shape = sh, t_dtype = t_dtype t\<rparr>"
  by (auto simp: reshape_def Let_def)

lemma reshape_size: "reshape t sh = Inr t' \<Longrightarrow> tensor_size_bytes t' = tensor_size_bytes t"
  by (auto simp: reshape_ok tensor_size_bytes_def numel_def)

lemma packed_size_bound:
  "numel t \<le> 2 * tensor_size_bytes t"
proof (cases "is_packed (t_dtype t)")
  case True
  then show ?thesis
    using div_ceil_bounds(1) [of 2 "numel t"] by (simp add: tensor_size_bytes_def mult.commute)
next
  case False
  then show ?thesis by (cases "t_dtype t") (simp_all add: tensor_size_bytes_def)
qed

subsection \<open>Configuration facts\<close>

text \<open>What a validated configuration promises its users: positive dimensions, grouped-query
  attention with whole groups, heads that fit the hidden size.\<close>

definition config_ok :: "model_config \<Rightarrow> bool" where
  "config_ok c \<longleftrightarrow> 0 < hidden_size c \<and> 0 < num_layers c \<and> 0 < num_q_heads c \<and> 0 < num_kv_heads c
     \<and> 0 < vocab_size c \<and> 0 < intermediate_size c \<and> 0 < max_seq_len c
     \<and> head_dim c = hidden_size c div num_q_heads c
     \<and> num_q_heads c = num_kv_heads c * gqa_group_size c"

lemma validate_config_ok: "validate_config c = Inr () \<Longrightarrow> config_ok c"
  by (auto simp: validate_config_def config_ok_def gqa_group_size_def split: if_splits)

lemma config_ok_heads_fit: "config_ok c \<Longrightarrow> num_q_heads c * head_dim c \<le> hidden_size c"
  by (simp add: config_ok_def)

end
