(* ===== verification/Stream_Codec.thy ===== *)
theory Stream_Codec
  imports Core
begin

text \<open>
  The interface of everything that is written to a byte stream and read back from it: the wire
  frames of \<open>fracture-protocol\<close>, its tensor headers, and the length-prefixed messages of the
  engine's IPC transport. A writer turns a message into bytes; a reader takes a message off the
  front of a stream and returns the bytes it left. The locale states the one law a provider
  owes and derives from it what the users of a stream rely on: messages written back to back are
  read back in order, the encoding is prefix-free, and no message is read from a torn stream.
\<close>

fun read_many :: "(byte list \<Rightarrow> 'e + 'm \<times> byte list) \<Rightarrow> nat \<Rightarrow> byte list \<Rightarrow> 'e + 'm list \<times> byte list"
where
  "read_many rd 0 bs = Inr ([], bs)"
| "read_many rd (Suc n) bs = rbind (rd bs) (\<lambda>(m, rest).
     rbind (read_many rd n rest) (\<lambda>(ms, rest'). Inr (m # ms, rest')))"

locale stream_codec =
  fixes wr :: "'m \<Rightarrow> byte list"
    and rd :: "byte list \<Rightarrow> 'e + 'm \<times> byte list"
    and ok :: "'m \<Rightarrow> bool"
  assumes read_write: "ok m \<Longrightarrow> rd (wr m @ rest) = Inr (m, rest)"
begin

lemma read_write_many:
  "\<forall>m \<in> set ms. ok m \<Longrightarrow> read_many rd (length ms) (concat (map wr ms) @ rest) = Inr (ms, rest)"
  by (induction ms) (simp_all add: read_write)

lemma prefix_free:
  assumes "ok m" and "ok m'" and "wr m @ r = wr m' @ r'"
  shows "m = m' \<and> r = r'"
proof -
  have "Inr (m, r) = rd (wr m @ r)" by (simp only: read_write [OF assms(1)])
  also have "\<dots> = Inr (m', r')" by (simp only: assms(3) read_write [OF assms(2)])
  finally show ?thesis by simp
qed

lemma write_inj: "ok m \<Longrightarrow> ok m' \<Longrightarrow> wr m = wr m' \<Longrightarrow> m = m'"
  by (rule prefix_free [THEN conjunct1, of m m' "[]" "[]"]) simp_all

lemma streams_unambiguous:
  assumes "length ms = length ms'" and "\<forall>m \<in> set ms \<union> set ms'. ok m"
    and "concat (map wr ms) = concat (map wr ms')"
  shows "ms = ms'"
proof -
  have "read_many rd (length ms) (concat (map wr ms)) = Inr (ms, [])"
    using read_write_many [of ms "[]"] assms(2) by simp
  moreover have "read_many rd (length ms) (concat (map wr ms)) = Inr (ms', [])"
    using read_write_many [of ms' "[]"] assms by simp
  ultimately show ?thesis by simp
qed

end

text \<open>A codec that is also strict: whatever is read was written by the writer.\<close>

locale strict_codec = stream_codec +
  assumes write_read: "rd bs = Inr (m, rest) \<Longrightarrow> ok m \<and> bs = wr m @ rest"
begin

lemma read_iff: "rd bs = Inr (m, rest) \<longleftrightarrow> ok m \<and> bs = wr m @ rest"
proof
  assume "ok m \<and> bs = wr m @ rest"
  then show "rd bs = Inr (m, rest)" by (simp add: read_write)
qed (rule write_read)

lemma torn_stream_rejected:
  assumes "ok m" and "k < length (wr m)"
  shows "\<nexists>x. rd (take k (wr m)) = Inr x"
proof
  assume "\<exists>x. rd (take k (wr m)) = Inr x"
  then obtain m' r where "rd (take k (wr m)) = Inr (m', r)" by auto
  then have m': "ok m'" and t: "take k (wr m) = wr m' @ r" by (auto simp: read_iff)
  have "wr m = wr m' @ (r @ drop k (wr m))"
    using t by (metis append_assoc append_take_drop_id)
  then have eq: "wr m @ [] = wr m' @ (r @ drop k (wr m))" by simp
  then have "r @ drop k (wr m) = []"
    using prefix_free [OF assms(1) m' eq] by simp
  with assms(2) show False by simp
qed

end

end
