(* ===== verification/Frame.thy ===== *)
theory Frame
  imports Stream_Codec
begin

text \<open>
  The wire frame of \<open>fracture-protocol/src/frame.rs\<close>: message types, the 16-byte header and the
  frame with its CRC32C trailer. The checksum is the crate \<open>crc32c\<close>, which is not part of the
  repository: it is the argument \<open>crc\<close> of every definition that computes it.
\<close>

subsection \<open>Message types\<close>

definition MAGIC :: "byte list" where
  "MAGIC = [0x46, 0x52]"

definition VERSION :: byte where
  "VERSION = 1"

definition HEADER_SIZE :: usize where
  "HEADER_SIZE = 16"

definition CRC_SIZE :: usize where
  "CRC_SIZE = 4"

definition MAX_PAYLOAD_SIZE :: u32 where
  "MAX_PAYLOAD_SIZE = 256 * 1024 * 1024"

datatype message_type =
    Register | RegisterAck | Forward | ForwardResult | Heartbeat | HeartbeatAck
  | CacheAlloc | CacheFree | Shutdown | ErrorMsg | CacheAllocAck | BatchedForward
  | BatchedForwardResult | WorkerReady | Reconfigure | ElectionStart | ElectionChallenge
  | Victory | ClusterManifest | ReRegister | LeaveIntent | WhoIsCoordinator
  | WhoIsCoordinatorResponse

text \<open>The discriminants of the \<open>repr(u8)\<close> enum: \<open>msg_type as u8\<close>.\<close>

fun to_u8 :: "message_type \<Rightarrow> u8" where
  "to_u8 Register = 0x01"
| "to_u8 RegisterAck = 0x02"
| "to_u8 Forward = 0x03"
| "to_u8 ForwardResult = 0x04"
| "to_u8 Heartbeat = 0x05"
| "to_u8 HeartbeatAck = 0x06"
| "to_u8 CacheAlloc = 0x07"
| "to_u8 CacheFree = 0x08"
| "to_u8 Shutdown = 0x09"
| "to_u8 ErrorMsg = 0x0A"
| "to_u8 CacheAllocAck = 0x0B"
| "to_u8 BatchedForward = 0x0C"
| "to_u8 BatchedForwardResult = 0x0D"
| "to_u8 WorkerReady = 0x0E"
| "to_u8 Reconfigure = 0x0F"
| "to_u8 ElectionStart = 0x10"
| "to_u8 ElectionChallenge = 0x11"
| "to_u8 Victory = 0x12"
| "to_u8 ClusterManifest = 0x13"
| "to_u8 ReRegister = 0x14"
| "to_u8 LeaveIntent = 0x15"
| "to_u8 WhoIsCoordinator = 0x16"
| "to_u8 WhoIsCoordinatorResponse = 0x17"

definition from_u8 :: "u8 \<Rightarrow> message_type result" where
  "from_u8 v =
     (if v = 0x01 then Inr Register
      else if v = 0x02 then Inr RegisterAck
      else if v = 0x03 then Inr Forward
      else if v = 0x04 then Inr ForwardResult
      else if v = 0x05 then Inr Heartbeat
      else if v = 0x06 then Inr HeartbeatAck
      else if v = 0x07 then Inr CacheAlloc
      else if v = 0x08 then Inr CacheFree
      else if v = 0x09 then Inr Shutdown
      else if v = 0x0A then Inr ErrorMsg
      else if v = 0x0B then Inr CacheAllocAck
      else if v = 0x0C then Inr BatchedForward
      else if v = 0x0D then Inr BatchedForwardResult
      else if v = 0x0E then Inr WorkerReady
      else if v = 0x0F then Inr Reconfigure
      else if v = 0x10 then Inr ElectionStart
      else if v = 0x11 then Inr ElectionChallenge
      else if v = 0x12 then Inr Victory
      else if v = 0x13 then Inr ClusterManifest
      else if v = 0x14 then Inr ReRegister
      else if v = 0x15 then Inr LeaveIntent
      else if v = 0x16 then Inr WhoIsCoordinator
      else if v = 0x17 then Inr WhoIsCoordinatorResponse
      else Inl (Protocol ''unknown message type: 0x{v:02X}''))"

subsection \<open>Header\<close>

record frame_header =
  msg_type :: message_type
  seq_id :: u64
  payload_len :: u32

definition encode_header :: "frame_header \<Rightarrow> byte list" where
  "encode_header h = [MAGIC ! 0, MAGIC ! 1, VERSION, to_u8 (msg_type h)]
     @ be_bytes 8 (seq_id h) @ be_bytes 4 (payload_len h)"

text \<open>The argument is the 16-byte array \<open>&[u8; HEADER_SIZE]\<close>.\<close>

definition decode_header :: "byte list \<Rightarrow> frame_header result" where
  "decode_header buf =
     (if buf ! 0 \<noteq> MAGIC ! 0 \<or> buf ! 1 \<noteq> MAGIC ! 1
      then Inl (Protocol ''invalid magic: 0x{:02X}{:02X}, expected 0x4652'')
      else if buf ! 2 \<noteq> VERSION
      then Inl (Protocol ''unsupported protocol version: {}, expected {}'')
      else rbind (from_u8 (buf ! 3)) (\<lambda>mt.
        let sq = from_be (take 8 (drop 4 buf)); pl = from_be (take 4 (drop 12 buf))
        in if MAX_PAYLOAD_SIZE < pl
           then Inl (Protocol ''payload length {} exceeds maximum {}'')
           else Inr \<lparr>msg_type = mt, seq_id = sq, payload_len = pl\<rparr>))"

subsection \<open>Frames\<close>

definition encode_frame :: "(byte list \<Rightarrow> u32) \<Rightarrow> frame_header \<Rightarrow> byte list \<Rightarrow> byte list" where
  "encode_frame crc h payload =
     (let buf = encode_header h @ payload in buf @ be_bytes 4 (crc buf))"

definition verify_crc :: "(byte list \<Rightarrow> u32) \<Rightarrow> byte list \<Rightarrow> u32 \<Rightarrow> unit result" where
  "verify_crc crc header_and_payload expected_crc =
     ensure (crc header_and_payload = expected_crc)
       (Protocol ''CRC32C mismatch: expected 0x{expected_crc:08X}, got 0x{actual:08X}'')"

definition decode_frame_from_bytes ::
    "(byte list \<Rightarrow> u32) \<Rightarrow> byte list \<Rightarrow> (frame_header \<times> byte list) result" where
  "decode_frame_from_bytes crc bytes =
     (if length bytes < HEADER_SIZE
      then Inl (Protocol ''frame truncated: need {} header bytes, got {}'')
      else rbind (decode_header (take HEADER_SIZE bytes)) (\<lambda>header.
        let payload_len = unat (payload_len header) in
        rbind (ok_or (Option.bind (checked_add_usize HEADER_SIZE payload_len)
                        (\<lambda>n. checked_add_usize n CRC_SIZE))
                 (Protocol ''frame size arithmetic overflow'')) (\<lambda>frame_end.
        if length bytes < frame_end
        then Inl (Protocol ''frame truncated: need {} bytes (header + {} payload + crc), got {}'')
        else
          let payload_end = HEADER_SIZE + payload_len;
              payload = take payload_len (drop HEADER_SIZE bytes);
              expected_crc = from_be (take CRC_SIZE (drop payload_end bytes))
          in rbind (verify_crc crc (take payload_end bytes) expected_crc) (\<lambda>_.
             Inr (header, payload)))))"

lemmas frame_consts = HEADER_SIZE_def CRC_SIZE_def MAGIC_def VERSION_def MAX_PAYLOAD_SIZE_def

subsection \<open>Round trips\<close>

lemma from_u8_to_u8 [simp]: "from_u8 (to_u8 t) = Inr t"
  by (cases t) (simp_all add: from_u8_def)

lemma from_u8_Inr: "from_u8 v = Inr t \<longleftrightarrow> to_u8 t = v"
proof
  assume "from_u8 v = Inr t"
  then show "to_u8 t = v" by (auto simp: from_u8_def split: if_splits)
next
  assume "to_u8 t = v"
  then show "from_u8 v = Inr t" using from_u8_to_u8 [of t] by simp
qed

text \<open>The headers a peer accepts: the payload length is within the cap.\<close>

definition header_ok :: "frame_header \<Rightarrow> bool" where
  "header_ok h \<longleftrightarrow> payload_len h \<le> MAX_PAYLOAD_SIZE"

lemma length_encode_header [simp]: "length (encode_header h) = HEADER_SIZE"
  by (simp add: encode_header_def HEADER_SIZE_def)

lemma encode_header_nth:
  "encode_header h ! 0 = MAGIC ! 0" "encode_header h ! Suc 0 = MAGIC ! 1"
  "encode_header h ! 2 = VERSION" "encode_header h ! 3 = to_u8 (msg_type h)"
  by (simp_all add: encode_header_def)

lemma encode_header_parts:
  "take 8 (drop 4 (encode_header h)) = be_bytes 8 (seq_id h)"
  "take 4 (drop 12 (encode_header h)) = be_bytes 4 (payload_len h)"
  by (simp_all add: encode_header_def)

lemma decode_encode_header: "header_ok h \<Longrightarrow> decode_header (encode_header h) = Inr h"
  by (simp add: decode_header_def encode_header_nth encode_header_parts header_ok_def
      from_be_be_bytes Let_def not_less [symmetric])

lemma list16_split:
  assumes "length bs = 16"
  shows "bs = [bs ! 0, bs ! 1, bs ! 2, bs ! 3] @ take 8 (drop 4 bs) @ take 4 (drop 12 bs)"
proof -
  have "bs = take 4 bs @ take 8 (drop 4 bs) @ drop 12 bs"
    using append_take_drop_id [of 4 bs] append_take_drop_id [of 8 "drop 4 bs"] by simp
  moreover have "take 4 bs = [bs ! 0, bs ! 1, bs ! 2, bs ! 3]"
    using assms by (intro nth_equalityI) (auto simp: less_Suc_eq numeral_eq_Suc)
  ultimately show ?thesis using assms by simp
qed

lemma encode_decode_header:
  assumes len: "length bs = HEADER_SIZE" and dec: "decode_header bs = Inr h"
  shows "header_ok h \<and> encode_header h = bs"
proof -
  have n: "length bs = 16" using len by (simp add: HEADER_SIZE_def)
  from dec have m: "bs ! 0 = MAGIC ! 0" "bs ! 1 = MAGIC ! 1" "bs ! 2 = VERSION"
    and t: "from_u8 (bs ! 3) = Inr (msg_type h)"
    and s: "seq_id h = from_be (take 8 (drop 4 bs))"
    and p: "payload_len h = from_be (take 4 (drop 12 bs))"
    and ok: "\<not> MAX_PAYLOAD_SIZE < payload_len h"
    by (auto simp: decode_header_def result_simps Let_def split: if_splits)
  have "encode_header h = [bs ! 0, bs ! 1, bs ! 2, bs ! 3] @ take 8 (drop 4 bs) @ take 4 (drop 12 bs)"
    using n t by (simp only: encode_header_def m s p from_u8_Inr) (simp add: be_bytes_from_be)
  with list16_split [OF n] ok show ?thesis
    by (simp add: header_ok_def not_less)
qed

text \<open>A frame: the header announces the length of the payload it carries.\<close>

definition frame_ok :: "frame_header \<times> byte list \<Rightarrow> bool" where
  "frame_ok f \<longleftrightarrow> header_ok (fst f) \<and> unat (payload_len (fst f)) = length (snd f)"

definition write_frame :: "(byte list \<Rightarrow> u32) \<Rightarrow> frame_header \<times> byte list \<Rightarrow> byte list" where
  "write_frame crc f = encode_frame crc (fst f) (snd f)"

text \<open>\<open>decode_frame_from_bytes\<close> leaves the bytes after the frame alone; as a reader it returns
  them.\<close>

definition read_frame ::
    "(byte list \<Rightarrow> u32) \<Rightarrow> byte list \<Rightarrow> fracture_error + (frame_header \<times> byte list) \<times> byte list"
where
  "read_frame crc bs = rbind (decode_frame_from_bytes crc bs)
     (\<lambda>f. Inr (f, drop (HEADER_SIZE + length (snd f) + CRC_SIZE) bs))"

lemma unat_payload_bound: "unat (p :: u32) < 2 ^ 32"
  using unat_bound [of p] by simp

lemma frame_end_no_overflow:
  "Option.bind (checked_add_usize HEADER_SIZE (unat (p :: u32))) (\<lambda>n. checked_add_usize n CRC_SIZE)
     = Some (HEADER_SIZE + unat p + CRC_SIZE)"
  using unat_payload_bound [of p] by (simp add: checked_add_usize_def frame_consts)

lemma decode_frame_encode:
  assumes "frame_ok (h, p)"
  shows "decode_frame_from_bytes crc (encode_frame crc h p @ rest) = Inr (h, p)"
proof -
  have len: "unat (payload_len h) = length p" and hok: "header_ok h"
    using assms by (simp_all add: frame_ok_def)
  show ?thesis
    by (simp add: decode_frame_from_bytes_def encode_frame_def Let_def len decode_encode_header [OF hok]
        frame_end_no_overflow verify_crc_def from_be_be_bytes, simp add: CRC_SIZE_def from_be_be_bytes)
qed

lemma decode_frame_sound:
  assumes "decode_frame_from_bytes crc bs = Inr (h, p)"
  shows "frame_ok (h, p) \<and> (\<exists>rest. bs = encode_frame crc h p @ rest)"
proof -
  let ?n = "unat (payload_len h)"
  from assms have hd: "decode_header (take HEADER_SIZE bs) = Inr h"
    and len: "\<not> length bs < HEADER_SIZE" "\<not> length bs < HEADER_SIZE + ?n + CRC_SIZE"
    and p: "p = take ?n (drop HEADER_SIZE bs)"
    and crc: "crc (take (HEADER_SIZE + ?n) bs) = from_be (take CRC_SIZE (drop (HEADER_SIZE + ?n) bs))"
    by (auto simp: decode_frame_from_bytes_def result_simps Let_def frame_end_no_overflow
        verify_crc_def split: if_splits)
  have h: "header_ok h" "encode_header h = take HEADER_SIZE bs"
    using encode_decode_header [OF _ hd] len(1) by simp_all
  have hp: "encode_header h @ p = take (HEADER_SIZE + ?n) bs"
    by (simp add: h(2) p take_add)
  have tr: "be_bytes 4 (crc (take (HEADER_SIZE + ?n) bs)) = take CRC_SIZE (drop (HEADER_SIZE + ?n) bs)"
    using len(2) by (simp add: crc CRC_SIZE_def be_bytes_from_be)
  have "encode_frame crc h p = take (HEADER_SIZE + ?n + CRC_SIZE) bs"
    unfolding encode_frame_def Let_def hp tr by (simp only: take_add [symmetric])
  then have "bs = encode_frame crc h p @ drop (HEADER_SIZE + ?n + CRC_SIZE) bs"
    by simp
  moreover have "length p = ?n" using len(2) by (simp add: p)
  ultimately show ?thesis using h(1) by (auto simp: frame_ok_def)
qed

lemma length_encode_frame [simp]:
  "length (encode_frame crc h p) = HEADER_SIZE + length p + CRC_SIZE"
  by (simp add: encode_frame_def Let_def CRC_SIZE_def)

lemma read_frame_write:
  "frame_ok f \<Longrightarrow> read_frame crc (write_frame crc f @ rest) = Inr (f, rest)"
  by (cases f) (simp add: read_frame_def write_frame_def decode_frame_encode)

lemma read_frame_sound:
  "read_frame crc bs = Inr (f, rest) \<Longrightarrow> frame_ok f \<and> bs = write_frame crc f @ rest"
  by (cases f) (auto simp: read_frame_def write_frame_def result_simps dest!: decode_frame_sound)

interpretation frames: strict_codec "write_frame crc" "read_frame crc" frame_ok
  by unfold_locales (simp_all add: read_frame_write read_frame_sound)

end
