(* ===== verification/Wire_Tensor.thy ===== *)
theory Wire_Tensor
  imports Stream_Codec
begin

text \<open>
  The compact tensor header of \<open>fracture-protocol/src/tensor.rs\<close>: element-type tags, building a
  header from a shape, its manual binary layout and the decoder with its checks.
\<close>

record tensor_wire_header =
  ndim :: u16
  wshape :: "u32 list"
  wdtype :: u8
  compression :: u8
  data_len :: u32

fun dtype_to_wire :: "dtype \<Rightarrow> u8" where
  "dtype_to_wire FP16 = 0"
| "dtype_to_wire FP32 = 1"
| "dtype_to_wire BF16 = 2"
| "dtype_to_wire INT8 = 3"
| "dtype_to_wire INT4 = 4"

definition wire_to_dtype :: "u8 \<Rightarrow> dtype result" where
  "wire_to_dtype tag =
     (if tag = 0 then Inr FP16
      else if tag = 1 then Inr FP32
      else if tag = 2 then Inr BF16
      else if tag = 3 then Inr INT8
      else if tag = 4 then Inr INT4
      else Inl (Protocol ''unknown dtype wire tag: {tag}''))"

text \<open>The \<open>as\<close> casts of \<open>make_header\<close> keep the low bits.\<close>

definition make_header :: "usize list \<Rightarrow> dtype \<Rightarrow> usize \<Rightarrow> tensor_wire_header" where
  "make_header shape d len =
     \<lparr>ndim = word_of_nat (length shape), wshape = map word_of_nat shape,
      wdtype = dtype_to_wire d, compression = 0, data_len = word_of_nat len\<rparr>"

definition encode_tensor_header :: "tensor_wire_header \<Rightarrow> byte list" where
  "encode_tensor_header h = be_bytes 2 (ndim h) @ concat (map (be_bytes 4) (wshape h))
     @ [wdtype h] @ [compression h] @ be_bytes 4 (data_len h)"

text \<open>The shape loop: \<open>n\<close> dimensions from \<open>offset\<close> on, and the offset after them.\<close>

fun read_dims :: "nat \<Rightarrow> nat \<Rightarrow> byte list \<Rightarrow> u32 list \<times> nat" where
  "read_dims 0 offset data = ([], offset)"
| "read_dims (Suc n) offset data =
     (let dim = from_be (take 4 (drop offset data));
          (dims, off') = read_dims n (offset + 4) data
      in (dim # dims, off'))"

definition decode_tensor_header :: "byte list \<Rightarrow> (tensor_wire_header \<times> usize) result" where
  "decode_tensor_header data =
     (if length data < 2 then Inl (Protocol ''tensor header too short for ndim'')
      else
        let nd = from_be [data ! 0, data ! 1] :: u16;
            shape_bytes = 4 * unat nd;
            header_size = 2 + shape_bytes + 1 + 1 + 4
        in if length data < header_size
           then Inl (Protocol ''tensor header too short: need {} bytes, have {}'')
           else
             let (shape, off) = read_dims (unat nd) 2 data;
                 dt = data ! off;
                 comp = data ! (off + 1);
                 dlen = from_be (take 4 (drop (off + 2) data));
                 off' = off + 6
             in rbind (wire_to_dtype dt) (\<lambda>_.
                if comp \<noteq> 0 then Inl (Protocol ''unsupported compression type: {compression}'')
                else Inr (\<lparr>ndim = nd, wshape = shape, wdtype = dt, compression = comp,
                           data_len = dlen\<rparr>, off')))"

subsection \<open>Round trips\<close>

lemma wire_to_dtype_to_wire [simp]: "wire_to_dtype (dtype_to_wire d) = Inr d"
  by (cases d) (simp_all add: wire_to_dtype_def)

lemma wire_to_dtype_Inr: "wire_to_dtype t = Inr d \<longleftrightarrow> dtype_to_wire d = t"
proof
  assume "wire_to_dtype t = Inr d"
  then show "dtype_to_wire d = t" by (auto simp: wire_to_dtype_def split: if_splits)
next
  assume "dtype_to_wire d = t"
  then show "wire_to_dtype t = Inr d" using wire_to_dtype_to_wire [of d] by simp
qed

text \<open>The headers the decoder produces.\<close>

definition tensor_header_ok :: "tensor_wire_header \<Rightarrow> bool" where
  "tensor_header_ok h \<longleftrightarrow> length (wshape h) = unat (ndim h) \<and> is_ok (wire_to_dtype (wdtype h))
     \<and> compression h = 0"

definition read_tensor_header ::
    "byte list \<Rightarrow> fracture_error + tensor_wire_header \<times> byte list" where
  "read_tensor_header bs = rbind (decode_tensor_header bs) (\<lambda>(h, n). Inr (h, drop n bs))"

lemma length_concat_dims [simp]: "length (concat (map (be_bytes 4) ds)) = 4 * length ds"
  by (induction ds) simp_all

lemma length_encode_tensor_header:
  "length (encode_tensor_header h) = 2 + 4 * length (wshape h) + 6"
  by (simp add: encode_tensor_header_def)

lemma read_dims_offset: "snd (read_dims n off data) = off + 4 * n"
  by (induction n off data rule: read_dims.induct) (auto simp: Let_def split_beta)

lemma length_read_dims: "length (fst (read_dims n off data)) = n"
  by (induction n off data rule: read_dims.induct) (auto simp: Let_def split_beta)

lemma read_dims_encoded:
  assumes "drop off data = concat (map (be_bytes 4) ds) @ rest"
  shows "read_dims (length ds) off data = (ds, off + 4 * length ds)"
  using assms
proof (induction ds arbitrary: off)
  case Nil
  then show ?case by simp
next
  case (Cons d ds)
  have "take 4 (drop off data) = be_bytes 4 d"
    using Cons.prems by simp
  moreover have "drop (off + 4) data = concat (map (be_bytes 4) ds) @ rest"
  proof -
    have "drop 4 (drop off data) = concat (map (be_bytes 4) ds) @ rest"
      using Cons.prems by simp
    then show ?thesis by (simp add: add.commute)
  qed
  ultimately show ?case
    using Cons.IH [of "off + 4"] by (simp add: Let_def from_be_be_bytes)
qed

lemma encode_read_dims:
  assumes "off + 4 * n \<le> length data"
  shows "concat (map (be_bytes 4) (fst (read_dims n off data))) = take (4 * n) (drop off data)"
  using assms
proof (induction n off data rule: read_dims.induct)
  case (1 offset data)
  show ?case by simp
next
  case (2 n offset data)
  obtain ds o' where r: "read_dims n (offset + 4) data = (ds, o')" by fastforce
  have ih: "concat (map (be_bytes 4) ds) = take (4 * n) (drop (offset + 4) data)"
    using "2.IH" "2.prems" r by fastforce
  have hd: "be_bytes 4 (from_be (take 4 (drop offset data)) :: u32) = take 4 (drop offset data)"
    using "2.prems" by (simp add: be_bytes_from_be)
  have "take (4 * Suc n) (drop offset data)
      = take 4 (drop offset data) @ take (4 * n) (drop (offset + 4) data)"
    by (simp add: take_add add.commute)
  with r ih hd show ?case by (simp add: Let_def)
qed

text \<open>The fixed fields at the end, read by offset.\<close>

lemma tail_fields:
  assumes "drop k data = [dt] @ [cm] @ be_bytes 4 (dl :: u32) @ rest"
  shows "data ! k = dt" and "data ! (k + 1) = cm" and "from_be (take 4 (drop (k + 2) data)) = dl"
    and "drop (k + 6) data = rest" and "k + 6 \<le> length data"
proof -
  have 0: "drop k data = dt # cm # be_bytes 4 dl @ rest" using assms by simp
  note 1 = drop_eq_ConsD [OF 0]
  note 2 = drop_eq_ConsD [OF 1(3)]
  show "data ! k = dt" by (rule 1(2))
  show "data ! (k + 1) = cm" using 2(2) by simp
  have 3: "drop (k + 2) data = be_bytes 4 dl @ rest" using 2(3) by simp
  then show "from_be (take 4 (drop (k + 2) data)) = dl" by (simp add: from_be_be_bytes)
  have "drop 4 (drop (k + 2) data) = rest" by (simp only: 3) simp
  then show "drop (k + 6) data = rest" by (simp add: add.commute)
  have "length (drop k data) = 6 + length rest" by (simp add: assms)
  then show "k + 6 \<le> length data" by simp
qed

lemma decode_encode_tensor_header:
  assumes "tensor_header_ok h"
  shows "decode_tensor_header (encode_tensor_header h @ rest)
    = Inr (h, length (encode_tensor_header h))"
proof -
  let ?ds = "wshape h" and ?data = "encode_tensor_header h @ rest"
  let ?tail = "[wdtype h] @ [compression h] @ be_bytes 4 (data_len h) @ rest"
  have n: "unat (ndim h) = length ?ds" and c: "compression h = 0"
    using assms by (simp_all add: tensor_header_ok_def)
  obtain t where t: "wire_to_dtype (wdtype h) = Inr t"
    using assms by (auto simp: tensor_header_ok_def is_ok_iff)
  have split: "?data = be_bytes 2 (ndim h) @ concat (map (be_bytes 4) ?ds) @ ?tail"
    by (simp add: encode_tensor_header_def)
  have "[?data ! 0, ?data ! Suc 0] = be_bytes 2 (ndim h)"
    by (simp add: split be_bytes_def le_bytes_def numeral_2_eq_2)
  then have nd: "from_be [?data ! 0, ?data ! Suc 0] = ndim h"
    by (simp only:) (simp add: from_be_be_bytes)
  have dims: "read_dims (length ?ds) 2 ?data = (?ds, 2 + 4 * length ?ds)"
    by (rule read_dims_encoded [where rest = ?tail]) (simp add: split)
  have "drop (2 + 4 * length ?ds) ?data = ?tail"
    by (simp add: split)
  note tl = tail_fields [OF this]
  from tl(5) have ge: "\<not> length ?data < 2" "\<not> length ?data < 2 + 4 * length ?ds + 1 + 1 + 4"
    by simp_all
  show ?thesis
    unfolding decode_tensor_header_def One_nat_def nd Let_def n dims prod.case
    using ge tl t c by (simp add: length_encode_tensor_header del: append_assoc)
qed

lemma decode_tensor_header_inv:
  assumes "decode_tensor_header data = Inr (h, k)"
  obtains nd ds off where "nd = from_be [data ! 0, data ! 1]"
    and "read_dims (unat nd) 2 data = (ds, off)" and "2 + 4 * unat nd + 6 \<le> length data"
    and "is_ok (wire_to_dtype (data ! off))" and "data ! (off + 1) = 0" and "k = off + 6"
    and "h = \<lparr>ndim = nd, wshape = ds, wdtype = data ! off, compression = data ! (off + 1),
           data_len = from_be (take 4 (drop (off + 2) data))\<rparr>"
proof -
  let ?nd = "from_be [data ! 0, data ! 1] :: u16"
  obtain ds off where r: "read_dims (unat ?nd) 2 data = (ds, off)" by fastforce
  from assms show thesis
    by (intro that [OF refl r])
      (use r in \<open>auto simp: decode_tensor_header_def Let_def result_simps is_ok_iff split: if_splits\<close>)
qed

lemma decode_tensor_header_sound:
  assumes "decode_tensor_header data = Inr (h, k)"
  shows "tensor_header_ok h \<and> data = encode_tensor_header h @ drop k data"
  using assms
proof (rule decode_tensor_header_inv)
  fix nd :: u16 and ds off
  let ?n = "unat nd"
  assume nd: "nd = from_be [data ! 0, data ! 1]" and r: "read_dims ?n 2 data = (ds, off)"
    and len: "2 + 4 * ?n + 6 \<le> length data" and k: "k = off + 6"
    and ok: "is_ok (wire_to_dtype (data ! off))" "data ! (off + 1) = 0"
    and h: "h = \<lparr>ndim = nd, wshape = ds, wdtype = data ! off, compression = data ! (off + 1),
           data_len = from_be (take 4 (drop (off + 2) data))\<rparr>"
  have off: "off = 2 + 4 * ?n" and lds: "length ds = ?n"
    using read_dims_offset [of ?n 2 data] length_read_dims [of ?n 2 data] r by simp_all
  have p1: "take 2 data = be_bytes 2 nd"
  proof -
    have "take 2 data = [data ! 0, data ! 1]"
      using len by (intro nth_equalityI) (auto simp: less_Suc_eq numeral_2_eq_2)
    then show ?thesis by (simp add: nd be_bytes_from_be)
  qed
  have p2: "take (4 * ?n) (drop 2 data) = concat (map (be_bytes 4) ds)"
    using encode_read_dims [of 2 ?n data] len r by simp
  have p3: "drop off data = [data ! off] @ [data ! (off + 1)]
      @ be_bytes 4 (from_be (take 4 (drop (off + 2) data)) :: u32) @ drop (off + 6) data"
  proof -
    have "be_bytes 4 (from_be (take 4 (drop (off + 2) data)) :: u32) = take 4 (drop (off + 2) data)"
      using len off by (simp add: be_bytes_from_be)
    moreover have "drop off data = data ! off # data ! Suc off # drop (off + 2) data"
      using len off by (simp add: Cons_nth_drop_Suc)
    moreover have "drop (off + 2) data = take 4 (drop (off + 2) data) @ drop (off + 6) data"
      using append_take_drop_id [of 4 "drop (off + 2) data"] by (simp add: add.commute)
    ultimately show ?thesis by simp
  qed
  have "data = take 2 data @ take (4 * ?n) (drop 2 data) @ drop off data"
    using append_take_drop_id [of 2 data] append_take_drop_id [of "4 * ?n" "drop 2 data"]
    by (simp add: off add.commute)
  then have "data = encode_tensor_header h @ drop k data"
    using p1 p2 p3 by (simp add: h k encode_tensor_header_def)
  then show ?thesis using lds ok by (simp add: h tensor_header_ok_def)
qed

interpretation tensor_headers: strict_codec encode_tensor_header read_tensor_header tensor_header_ok
proof unfold_locales
  fix h rest
  assume "tensor_header_ok h"
  then show "read_tensor_header (encode_tensor_header h @ rest) = Inr (h, rest)"
    by (simp add: read_tensor_header_def decode_encode_tensor_header)
next
  fix bs h rest
  assume "read_tensor_header bs = Inr (h, rest)"
  then show "tensor_header_ok h \<and> bs = encode_tensor_header h @ rest"
    by (auto simp: read_tensor_header_def result_simps dest: decode_tensor_header_sound)
qed

text \<open>A header built for a tensor that fits the wire fields says what it was built from.\<close>

definition wire_fits :: "usize list \<Rightarrow> usize \<Rightarrow> bool" where
  "wire_fits shape len \<longleftrightarrow> length shape < 2 ^ 16 \<and> (\<forall>d \<in> set shape. d < 2 ^ 32) \<and> len < 2 ^ 32"

lemma make_header_ok: "wire_fits shape len \<Longrightarrow> tensor_header_ok (make_header shape d len)"
  by (simp add: wire_fits_def tensor_header_ok_def make_header_def is_ok_iff unat_of_nat)

lemma make_header_faithful:
  assumes "wire_fits shape len"
  shows "map unat (wshape (make_header shape d len)) = shape
    \<and> unat (data_len (make_header shape d len)) = len
    \<and> wire_to_dtype (wdtype (make_header shape d len)) = Inr d"
proof -
  have "map unat (map (word_of_nat :: nat \<Rightarrow> u32) shape) = shape"
    using assms by (intro map_idI [THEN trans [OF map_map]]) (simp add: wire_fits_def unat_of_nat)
  with assms show ?thesis
    by (simp add: wire_fits_def make_header_def unat_of_nat)
qed

end
