(* ===== verification/Messages.thy ===== *)
theory Messages
  imports Wire_Tensor
begin

text \<open>
  The payload structs of \<open>fracture-protocol/src/messages.rs\<close>, field by field. They are carried in
  a frame's payload by \<open>bincode\<close>, a library outside the repository; definitions that serialize
  take the serializer as an argument.
\<close>

record register_payload =
  rp_node_id :: string
  rp_gpu_model :: string
  rp_gpu_memory_total :: u64
  rp_gpu_memory_available :: u64
  rp_compute_capability :: "u32 \<times> u32"
  rp_decode_ms_per_layer :: f32
  rp_prefill_ms_per_layer_128 :: f32

record register_ack_payload =
  ack_layer_start :: u32
  ack_layer_end :: u32
  ack_total_layers :: u32
  ack_max_seq_len :: u32
  ack_model_config :: model_config

datatype forward_input_wire =
    TokenIds "u32 list"
  | InActivations tensor_wire_header "byte list"

record forward_payload =
  fp_is_prefill :: bool
  fp_positions :: "u32 list"
  fp_input :: forward_input_wire

record sequence_metadata_wire =
  sm_seq_id :: u64
  sm_num_tokens :: usize
  sm_positions :: "u32 list"
  sm_block_table :: "u32 list"
  sm_cache_seq_len :: usize
  sm_last_block_tokens :: usize

record batched_forward_payload =
  bf_is_prefill :: bool
  bf_sequences :: "sequence_metadata_wire list"
  bf_input :: forward_input_wire

datatype forward_output_wire =
    Logits "byte list"
  | OutActivations tensor_wire_header "byte list"

record batched_forward_result_payload =
  br_output :: forward_output_wire
  br_num_sequences :: usize
  br_logit_offsets :: "usize list"

record forward_result_payload =
  fr_output :: forward_output_wire

record heartbeat_payload =
  hb_timestamp_ns :: u64
  hb_nonce :: u64

record heartbeat_ack_payload =
  timestamp_echo :: u64
  nonce_echo :: u64
  ha_gpu_memory_used :: u64
  active_sequences :: u32
  ha_free_blocks :: u32

record election_start_payload =
  es_candidate_id :: string
  es_priority :: u32
  es_term :: u64

record election_challenge_payload =
  ec_challenger_id :: string
  ec_priority :: u32
  ec_term :: u64

record victory_payload =
  v_leader_id :: string
  v_term :: u64
  v_coordinator_addr :: string

datatype cluster_role = Coordinator | Worker | Standby

record node_info =
  ni_node_id :: string
  ni_address :: string
  ni_election_priority :: u32
  ni_coordinator_capable :: bool
  ni_role :: cluster_role

record cluster_manifest_payload =
  cm_version :: u64
  cm_term :: u64
  cm_nodes :: "node_info list"

record re_register_payload =
  rr_node_id :: string
  rr_gpu_model :: string
  rr_gpu_memory_total :: u64
  rr_gpu_memory_available :: u64
  rr_compute_capability :: "u32 \<times> u32"
  rr_decode_ms_per_layer :: f32
  rr_prefill_ms_per_layer_128 :: f32
  rr_current_layer_start :: "u32 option"
  rr_current_layer_end :: "u32 option"
  rr_active_cache_seq_ids :: "u64 list"

record leave_intent_payload =
  li_reason :: string

record who_is_coordinator_payload =
  wic_node_id :: string

record who_is_coordinator_response_payload =
  wr_coordinator_addr :: "string option"
  wr_term :: u64
  wr_manifest :: "cluster_manifest_payload option"

datatype error_code = Internal | OutOfMemoryCode | InvalidSequence | ProtocolViolation

record error_payload =
  ep_error_code :: error_code
  ep_message :: string

end
