(* ===== verification/Connection.thy ===== *)
theory Connection
  imports Frame Messages
begin

text \<open>
  The framed connection of \<open>fracture-protocol/src/connection.rs\<close>. The read half is the list of
  bytes that have not been received yet: \<open>read_exact\<close> past its end is the \<open>UnexpectedEof\<close> of a
  closed connection. The write half records the bytes handed to the link and how many more the
  link takes before it breaks (\<open>None\<close>: it does not); \<open>write_all\<close> on a link that breaks hands
  over what still fits and fails. The writer is buffered; it is flushed at the end of every send,
  so a send is the same as writing through. Every operation returns its result and the half it leaves
  behind. \<open>FramedConnection\<close> owns one half of each kind and its methods are those of the halves.
\<close>

record framed_writer =
  w_sent :: "byte list"
  w_room :: "nat option"

type_synonym framed_reader = "byte list"

record framed_connection =
  c_reader :: framed_reader
  c_writer :: framed_writer

definition write_all :: "byte list \<Rightarrow> framed_writer \<Rightarrow> unit result \<times> framed_writer" where
  "write_all bs w = (case w_room w of
      None \<Rightarrow> (Inr (), w\<lparr>w_sent := w_sent w @ bs\<rparr>)
    | Some k \<Rightarrow> if length bs \<le> k
        then (Inr (), w\<lparr>w_sent := w_sent w @ bs, w_room := Some (k - length bs)\<rparr>)
        else (Inl (Io (OtherIo ''broken pipe'')), w\<lparr>w_sent := w_sent w @ take k bs, w_room := Some 0\<rparr>))"

text \<open>Sequencing of fallible steps that change the half they work on.\<close>

definition then_io ::
    "'a result \<times> 's \<Rightarrow> ('a \<Rightarrow> 's \<Rightarrow> 'b result \<times> 's) \<Rightarrow> 'b result \<times> 's" where
  "then_io m f = (case m of (Inl e, s) \<Rightarrow> (Inl e, s) | (Inr x, s) \<Rightarrow> f x s)"

definition send_raw ::
    "(byte list \<Rightarrow> u32) \<Rightarrow> message_type \<Rightarrow> u64 \<Rightarrow> byte list \<Rightarrow> framed_writer
     \<Rightarrow> unit result \<times> framed_writer" where
  "send_raw crc mt sq payload w =
     (let header = \<lparr>msg_type = mt, seq_id = sq, payload_len = word_of_nat (length payload)\<rparr>;
          hdr_buf = encode_header header;
          crc_input = hdr_buf @ payload;
          c = crc crc_input
      in then_io (write_all hdr_buf w) (\<lambda>_ w.
         then_io (write_all payload w) (\<lambda>_ w.
         write_all (be_bytes 4 c) w)))"

text \<open>\<open>ser\<close> is \<open>bincode::serialize\<close> at the payload's type.\<close>

definition send ::
    "(byte list \<Rightarrow> u32) \<Rightarrow> ('p \<Rightarrow> string + byte list) \<Rightarrow> message_type \<Rightarrow> u64 \<Rightarrow> 'p \<Rightarrow> framed_writer
     \<Rightarrow> unit result \<times> framed_writer" where
  "send crc ser mt sq payload w = (case map_err Protocol (ser payload) of
      Inl e \<Rightarrow> (Inl e, w)
    | Inr payload_bytes \<Rightarrow> send_raw crc mt sq payload_bytes w)"

definition send_empty ::
    "(byte list \<Rightarrow> u32) \<Rightarrow> message_type \<Rightarrow> u64 \<Rightarrow> framed_writer \<Rightarrow> unit result \<times> framed_writer"
where
  "send_empty crc mt sq w = send_raw crc mt sq [] w"

text \<open>\<open>read_exact\<close> at the end of the stream leaves nothing to read.\<close>

definition read_half :: "nat \<Rightarrow> framed_reader \<Rightarrow> byte list result \<times> framed_reader" where
  "read_half n r = (case read_exact n r of
      None \<Rightarrow> (Inl (Io UnexpectedEof), [])
    | Some (bs, r') \<Rightarrow> (Inr bs, r'))"

definition recv ::
    "(byte list \<Rightarrow> u32) \<Rightarrow> framed_reader \<Rightarrow> (frame_header \<times> byte list) result \<times> framed_reader"
where
  "recv crc r =
     then_io (read_half HEADER_SIZE r) (\<lambda>hdr_buf r.
     then_io (decode_header hdr_buf, r) (\<lambda>header r.
     then_io (if payload_len header = 0 then (Inr [], r)
              else read_half (unat (payload_len header)) r) (\<lambda>payload r.
     then_io (read_half CRC_SIZE r) (\<lambda>crc_buf r.
     then_io (verify_crc crc (hdr_buf @ payload) (from_be crc_buf), r) (\<lambda>_ r.
     (Inr (header, payload), r))))))"

text \<open>\<open>de\<close> is \<open>bincode::deserialize\<close> at the payload's type.\<close>

definition deserialize_payload :: "(byte list \<Rightarrow> string + 'p) \<Rightarrow> byte list \<Rightarrow> 'p result" where
  "deserialize_payload de payload = map_err Protocol (de payload)"

definition into_split :: "framed_connection \<Rightarrow> framed_writer \<times> framed_reader" where
  "into_split c = (c_writer c, c_reader c)"

text \<open>The methods of the unsplit connection.\<close>

definition conn_send_raw ::
    "(byte list \<Rightarrow> u32) \<Rightarrow> message_type \<Rightarrow> u64 \<Rightarrow> byte list \<Rightarrow> framed_connection
     \<Rightarrow> unit result \<times> framed_connection" where
  "conn_send_raw crc mt sq payload c =
     (let (r, w) = send_raw crc mt sq payload (c_writer c) in (r, c\<lparr>c_writer := w\<rparr>))"

definition conn_send ::
    "(byte list \<Rightarrow> u32) \<Rightarrow> ('p \<Rightarrow> string + byte list) \<Rightarrow> message_type \<Rightarrow> u64 \<Rightarrow> 'p
     \<Rightarrow> framed_connection \<Rightarrow> unit result \<times> framed_connection" where
  "conn_send crc ser mt sq payload c = (case map_err Protocol (ser payload) of
      Inl e \<Rightarrow> (Inl e, c)
    | Inr payload_bytes \<Rightarrow> conn_send_raw crc mt sq payload_bytes c)"

definition conn_send_empty ::
    "(byte list \<Rightarrow> u32) \<Rightarrow> message_type \<Rightarrow> u64 \<Rightarrow> framed_connection
     \<Rightarrow> unit result \<times> framed_connection" where
  "conn_send_empty crc mt sq c = conn_send_raw crc mt sq [] c"

definition conn_recv ::
    "(byte list \<Rightarrow> u32) \<Rightarrow> framed_connection \<Rightarrow> (frame_header \<times> byte list) result \<times> framed_connection"
where
  "conn_recv crc c = (let (x, r) = recv crc (c_reader c) in (x, c\<lparr>c_reader := r\<rparr>))"

subsection \<open>Sending\<close>

lemma then_io_simps [simp]:
  "then_io (Inl e, s) f = (Inl e, s)" "then_io (Inr x, s) f = f x s"
  by (simp_all add: then_io_def)

lemma then_io_eq_Inr:
  "then_io m f = (Inr y, t) \<longleftrightarrow> (\<exists>x s. m = (Inr x, s) \<and> f x s = (Inr y, t))"
  by (cases m; cases "fst m") auto

definition frame_for :: "message_type \<Rightarrow> u64 \<Rightarrow> byte list \<Rightarrow> frame_header \<times> byte list" where
  "frame_for mt sq payload =
     (\<lparr>msg_type = mt, seq_id = sq, payload_len = word_of_nat (length payload)\<rparr>, payload)"

lemma write_all_up: "w_room w = None \<Longrightarrow> write_all bs w = (Inr (), w\<lparr>w_sent := w_sent w @ bs\<rparr>)"
  by (simp add: write_all_def)

lemma send_raw_up:
  "w_room w = None \<Longrightarrow>
     send_raw crc mt sq p w = (Inr (), w\<lparr>w_sent := w_sent w @ write_frame crc (frame_for mt sq p)\<rparr>)"
  by (simp add: send_raw_def Let_def write_all_up write_frame_def frame_for_def encode_frame_def)

text \<open>Whatever happens to the link, the peer sees all of what was written and success is
  reported, or it sees a proper prefix and the failure is.\<close>

definition wrote :: "byte list \<Rightarrow> framed_writer \<Rightarrow> unit result \<times> framed_writer \<Rightarrow> bool" where
  "wrote bs w res \<longleftrightarrow> (fst res = Inr () \<and> w_sent (snd res) = w_sent w @ bs)
     \<or> (\<exists>e k. fst res = Inl e \<and> k < length bs \<and> w_sent (snd res) = w_sent w @ take k bs)"

lemma write_all_wrote: "wrote bs w (write_all bs w)"
proof (cases "w_room w")
  case None
  then show ?thesis by (simp add: write_all_def wrote_def)
next
  case (Some k)
  then show ?thesis
    by (cases "length bs \<le> k") (auto simp: write_all_def wrote_def not_le intro: exI [of _ k])
qed

lemma wrote_then:
  assumes "wrote xs w m" and "\<And>v. wrote ys v (f v)"
  shows "wrote (xs @ ys) w (then_io m (\<lambda>_. f))"
proof -
  obtain r v where m: "m = (r, v)" by fastforce
  from assms(1) consider "r = Inr ()" "w_sent v = w_sent w @ xs"
    | e k where "r = Inl e" "k < length xs" "w_sent v = w_sent w @ take k xs"
    by (auto simp: wrote_def m)
  then show ?thesis
  proof cases
    case 1
    from assms(2) [of v] consider "fst (f v) = Inr ()" "w_sent (snd (f v)) = w_sent w @ xs @ ys"
      | e k where "fst (f v) = Inl e" "k < length ys" "w_sent (snd (f v)) = w_sent w @ xs @ take k ys"
      using 1 by (auto simp: wrote_def)
    then show ?thesis
    proof cases
      case 2: 2
      then have "\<exists>k. k < length (xs @ ys) \<and> w_sent (snd (f v)) = w_sent w @ take k (xs @ ys)"
        by (intro exI [of _ "length xs + k"]) simp
      then show ?thesis using 1 2 by (auto simp: wrote_def m)
    qed (use 1 in \<open>simp add: wrote_def m\<close>)
  next
    case 2
    then have "take k (xs @ ys) = take k xs" by simp
    then show ?thesis using 2 unfolding wrote_def m by (auto intro!: exI [of _ k])
  qed
qed

lemma send_raw_wrote: "wrote (write_frame crc (frame_for mt sq p)) w (send_raw crc mt sq p w)"
proof -
  have "wrote (h @ p @ c) w (then_io (write_all h w) (\<lambda>_ w. then_io (write_all p w) (\<lambda>_ w. write_all c w)))"
    for h c by (intro wrote_then write_all_wrote)
  then show ?thesis
    by (simp add: send_raw_def Let_def write_frame_def frame_for_def encode_frame_def)
qed

subsection \<open>Receiving\<close>

lemma read_half_Inr: "read_half n r = (Inr xs, r') \<longleftrightarrow> length xs = n \<and> r = xs @ r'"
proof -
  have "read_half n r = (Inr xs, r') \<longleftrightarrow> read_exact n r = Some (xs, r')"
    by (cases "read_exact n r") (auto simp: read_half_def)
  then show ?thesis by (simp only: read_exact_Some)
qed

lemma recv_payload:
  "(if payload_len h = 0 then (Inr [], r) else read_half (unat (payload_len h)) r) = (Inr p, r')
     \<longleftrightarrow> length p = unat (payload_len h) \<and> r = p @ r'"
proof (cases "payload_len h = 0")
  case True
  then show ?thesis unfolding True by auto
next
  case False
  then show ?thesis by (simp only: read_half_Inr if_False)
qed

lemma recv_inv:
  assumes "recv crc r = (Inr f, r')"
  obtains hb h p c where "length hb = HEADER_SIZE" "decode_header hb = Inr h"
    "length p = unat (payload_len h)" "length c = CRC_SIZE" "r = hb @ p @ c @ r'"
    "verify_crc crc (hb @ p) (from_be c) = Inr ()" "f = (h, p)"
proof -
  note m = assms [unfolded recv_def]
  obtain hb r1 where 1: "read_half HEADER_SIZE r = (Inr hb, r1)"
    using m by (auto simp only: then_io_eq_Inr)
  note m = m [unfolded 1 then_io_simps]
  obtain h where 2: "decode_header hb = Inr h"
    using m by (cases "decode_header hb") (simp_all only: then_io_simps, simp)
  note m = m [unfolded 2 then_io_simps]
  obtain p r2 where 3: "length p = unat (payload_len h) \<and> r1 = p @ r2"
      and m: "then_io (read_half CRC_SIZE r2) (\<lambda>crc_buf r.
        then_io (verify_crc crc (hb @ p) (from_be crc_buf), r) (\<lambda>_ r. (Inr (h, p), r))) = (Inr f, r')"
    using m by (subst (asm) then_io_eq_Inr) (unfold recv_payload, blast)
  obtain c r3 where 4: "read_half CRC_SIZE r2 = (Inr c, r3)"
    using m by (auto simp only: then_io_eq_Inr)
  note m = m [unfolded 4 then_io_simps]
  have 5: "verify_crc crc (hb @ p) (from_be c) = Inr ()"
    using m by (cases "verify_crc crc (hb @ p) (from_be c)") (simp_all only: then_io_simps, simp_all)
  note m = m [unfolded 5 then_io_simps]
  have "r = hb @ p @ c @ r'" "f = (h, p)"
    using 1 3 4 m by (simp_all add: read_half_Inr)
  moreover have "length hb = HEADER_SIZE" "length c = CRC_SIZE" using 1 4 by (simp_all only: read_half_Inr)
  ultimately show thesis using that 2 3 5 by blast
qed

lemma recv_sound:
  assumes "recv crc r = (Inr f, r')"
  shows "frame_ok f \<and> r = write_frame crc f @ r'"
proof -
  from assms obtain hb h p c where hb: "length hb = HEADER_SIZE" and h: "decode_header hb = Inr h"
    and p: "length p = unat (payload_len h)" and c: "length c = CRC_SIZE" and r: "r = hb @ p @ c @ r'"
    and v: "verify_crc crc (hb @ p) (from_be c) = Inr ()" and f: "f = (h, p)"
    by (rule recv_inv)
  have hh: "header_ok h" "encode_header h = hb" using encode_decode_header [OF hb h] by simp_all
  have crc: "be_bytes 4 (crc (hb @ p)) = c"
    using c v by (simp add: verify_crc_def result_simps CRC_SIZE_def be_bytes_from_be)
  have "write_frame crc f = hb @ p @ be_bytes 4 (crc (hb @ p))"
    unfolding f write_frame_def encode_frame_def Let_def fst_conv snd_conv hh(2) by simp
  then have "r = write_frame crc f @ r'" unfolding crc r by simp
  then show ?thesis using hh(1) p unfolding f frame_ok_def by simp
qed

lemma verify_crc_be_bytes: "verify_crc crc d (from_be (be_bytes 4 (crc d))) = Inr ()"
  by (simp add: verify_crc_def from_be_be_bytes)

lemma recv_write:
  assumes "frame_ok f"
  shows "recv crc (write_frame crc f @ r) = (Inr f, r)"
proof -
  obtain h p where f: "f = (h, p)" by fastforce
  have hok: "header_ok h" and len: "length p = unat (payload_len h)"
    using assms by (simp_all add: f frame_ok_def)
  let ?c = "be_bytes 4 (crc (encode_header h @ p))"
  have 1: "read_half HEADER_SIZE (encode_header h @ p @ ?c @ r) = (Inr (encode_header h), p @ ?c @ r)"
    by (simp add: read_half_Inr)
  have 2: "(if payload_len h = 0 then (Inr [], p @ ?c @ r)
      else read_half (unat (payload_len h)) (p @ ?c @ r)) = (Inr p, ?c @ r)"
    by (simp add: recv_payload len)
  have 3: "read_half CRC_SIZE (?c @ r) = (Inr ?c, r)"
    by (simp add: read_half_Inr CRC_SIZE_def)
  have "write_frame crc f @ r = encode_header h @ p @ ?c @ r"
    by (simp add: f write_frame_def encode_frame_def Let_def)
  then show ?thesis
    unfolding recv_def
    by (simp only: 1 2 3 then_io_simps decode_encode_header [OF hok] verify_crc_be_bytes f)
qed

text \<open>The connection as a reader of frames.\<close>

definition recv_frame ::
    "(byte list \<Rightarrow> u32) \<Rightarrow> byte list \<Rightarrow> fracture_error + (frame_header \<times> byte list) \<times> byte list"
where
  "recv_frame crc bs = (case recv crc bs of (Inl e, _) \<Rightarrow> Inl e | (Inr f, rest) \<Rightarrow> Inr (f, rest))"

lemma recv_frame_Inr: "recv_frame crc bs = Inr (f, rest) \<longleftrightarrow> recv crc bs = (Inr f, rest)"
  by (simp add: recv_frame_def split: prod.splits sum.splits)

interpretation connection: strict_codec "write_frame crc" "recv_frame crc" frame_ok
  by unfold_locales (simp_all add: recv_frame_Inr recv_write recv_sound)

definition payload_fits :: "byte list \<Rightarrow> bool" where
  "payload_fits p \<longleftrightarrow> length p \<le> unat MAX_PAYLOAD_SIZE"

lemma frame_for_ok: "payload_fits p \<Longrightarrow> frame_ok (frame_for mt sq p)"
proof -
  assume p: "payload_fits p"
  have m: "unat MAX_PAYLOAD_SIZE = 268435456" by (simp add: MAX_PAYLOAD_SIZE_def)
  have "unat (word_of_nat (length p) :: u32) = length p"
    using p m by (simp add: payload_fits_def unat_of_nat)
  then show ?thesis using p
    by (simp add: frame_ok_def frame_for_def header_ok_def payload_fits_def word_le_nat_alt)
qed

fun send_all ::
    "(byte list \<Rightarrow> u32) \<Rightarrow> (message_type \<times> u64 \<times> byte list) list \<Rightarrow> framed_writer
     \<Rightarrow> unit result \<times> framed_writer" where
  "send_all crc [] w = (Inr (), w)"
| "send_all crc ((mt, sq, p) # ms) w = then_io (send_raw crc mt sq p w) (\<lambda>_ w. send_all crc ms w)"

lemma send_all_up:
  "w_room w = None \<Longrightarrow> send_all crc ms w = (Inr (), w\<lparr>w_sent := w_sent w
     @ concat (map (write_frame crc) (map (\<lambda>(mt, sq, p). frame_for mt sq p) ms))\<rparr>)"
  by (induction crc ms w rule: send_all.induct) (simp_all add: send_raw_up)

subsection \<open>Properties\<close>

text \<open>C1: Every message sent over a link that stays up arrives: whatever the checksum function,
  sending a list of messages succeeds, and a receiver that calls \<open>recv\<close> once per message gets
  exactly these messages, in order, with nothing left on the stream.\<close>

theorem conversation_delivered:
  assumes "\<forall>(mt, sq, p) \<in> set ms. payload_fits p" and "w_room w = None" and "w_sent w = []"
  shows "fst (send_all crc ms w) = Inr ()
    \<and> read_many (recv_frame crc) (length ms) (w_sent (snd (send_all crc ms w)))
        = Inr (map (\<lambda>(mt, sq, p). frame_for mt sq p) ms, [])"
proof -
  let ?fs = "map (\<lambda>(mt, sq, p). frame_for mt sq p) ms"
  have "\<forall>f \<in> set ?fs. frame_ok f" using assms(1) by (auto intro: frame_for_ok)
  then have "read_many (recv_frame crc) (length ?fs) (concat (map (write_frame crc) ?fs) @ []) = Inr (?fs, [])"
    by (rule connection.read_write_many)
  then show ?thesis using assms(2,3) by (simp add: send_all_up del: map_map)
qed

theorem conversation_delivered_witness:
  "fst (send_all (\<lambda>bs. word_of_nat (length bs)) [(Register, 7, [1, 2]), (Heartbeat, 8, [])]
      \<lparr>w_sent = [], w_room = None\<rparr>) = Inr ()"
  using conversation_delivered [of "[(Register, 7, [1, 2]), (Heartbeat, 8, [])]"
      "\<lparr>w_sent = [], w_room = None\<rparr>" "\<lambda>bs. word_of_nat (length bs)"]
  by (simp add: payload_fits_def MAX_PAYLOAD_SIZE_def)

text \<open>C2: \<open>recv\<close> and the synchronous \<open>decode_frame_from_bytes\<close> accept the same frames: one
  returns a header and payload exactly when the other does, and they return the same ones.\<close>

theorem recv_agrees_with_decoder:
  "fst (recv crc bs) = Inr f \<longleftrightarrow> decode_frame_from_bytes crc bs = Inr f"
proof
  assume "fst (recv crc bs) = Inr f"
  then have "recv crc bs = (Inr f, snd (recv crc bs))" by (cases "recv crc bs") simp
  then have "read_frame crc bs = Inr (f, snd (recv crc bs))"
    using recv_sound frames.read_write by metis
  then show "decode_frame_from_bytes crc bs = Inr f" by (auto simp: read_frame_def result_simps)
next
  assume "decode_frame_from_bytes crc bs = Inr f"
  then obtain rest where "frame_ok f" "bs = write_frame crc f @ rest"
    using decode_frame_sound [of crc bs "fst f" "snd f"] by (auto simp: write_frame_def)
  then show "fst (recv crc bs) = Inr f" by (simp add: recv_write)
qed



end
