(* ===== verification/Layer_Scheduler.thy ===== *)
theory Layer_Scheduler
  imports Core
begin

text \<open>
  The layer scheduler of \<open>fracture-coordinator/src/scheduler.rs\<close>: a pure function from worker
  capabilities and model configuration to an assignment of layer ranges to nodes. Speeds and
  latencies are \<open>f32\<close> values and keep their rounding; memory sizes are \<open>usize\<close> values whose
  products do not overflow for the configurations in use, and are natural numbers here. A
  \<open>Range<usize>\<close> is its two ends.
\<close>

subsection \<open>Inputs and outputs\<close>

record worker_capabilities =
  node_id :: string
  gpu_model :: string
  gpu_memory_available :: usize
  compute_capability :: "u32 \<times> u32"
  decode_ms_per_layer :: f32
  prefill_ms_per_layer_128 :: f32

record manual_assignment =
  ma_node_id :: string
  ma_start :: usize
  ma_end :: usize

datatype scheduling_mode = Auto | EqualSplit | Manual "manual_assignment list"

record scheduler_input =
  in_config :: model_config
  in_workers :: "worker_capabilities list"
  coordinator_compute :: "worker_capabilities option"
  in_mode :: scheduling_mode
  in_max_seq_len :: usize
  hop_latency_ms :: f32

datatype node_role = Head | Middle | Tail

record layer_assignment =
  la_node_id :: string
  la_start :: usize
  la_end :: usize
  la_role :: node_role
  expected_decode_ms :: f32
  weight_memory_gb :: f32
  cache_memory_gb :: f32

datatype exclusion_reason = SlowsDownPipeline f32 f32

record excluded_node =
  ex_node_id :: string
  ex_reason :: exclusion_reason

record scheduler_result =
  assignments :: "layer_assignment list"
  excluded_nodes :: "excluded_node list"
  pipeline_decode_ms :: f32
  imbalance_ratio :: f32
  bottleneck_node :: string

definition MAX_PLAUSIBLE_MS_PER_LAYER :: f32 where
  "MAX_PLAUSIBLE_MS_PER_LAYER = f32_500"

definition validate_calibration :: "worker_capabilities \<Rightarrow> unit result" where
  "validate_calibration w =
     (if f32_is_nan (decode_ms_per_layer w) \<or> f32_le (decode_ms_per_layer w) f32_zero
      then Inl (Pipeline ''worker '{}': implausible decode_ms_per_layer={} (must be > 0)'')
      else if f32_is_nan (prefill_ms_per_layer_128 w) \<or> f32_le (prefill_ms_per_layer_128 w) f32_zero
      then Inl (Pipeline ''worker '{}': implausible prefill_ms_per_layer_128={} (must be > 0)'')
      else if f32_lt MAX_PLAUSIBLE_MS_PER_LAYER (decode_ms_per_layer w)
      then Inl (Pipeline ''worker '{}': decode_ms_per_layer={:.1} exceeds maximum plausible value ({:.0}ms)'')
      else if f32_lt MAX_PLAUSIBLE_MS_PER_LAYER (prefill_ms_per_layer_128 w)
      then Inl (Pipeline ''worker '{}': prefill_ms_per_layer_128={:.1} exceeds maximum plausible value ({:.0}ms)'')
      else Inr ())"

subsection \<open>Memory estimation\<close>

definition weight_memory_per_layer :: "model_config \<Rightarrow> usize" where
  "weight_memory_per_layer config =
     (let h = hidden_size config;
          kv_dim = num_kv_heads config * head_dim config;
          inter = intermediate_size config;
          proj_bytes = (h * h + h * kv_dim + h * kv_dim + h * h + h * inter + h * inter + inter * h) * 2;
          norm_bytes = h * 2 * 2
      in proj_bytes + norm_bytes)"

definition cache_memory_per_layer :: "model_config \<Rightarrow> usize \<Rightarrow> usize" where
  "cache_memory_per_layer config msl =
     (let kv_dim = num_kv_heads config * head_dim config in msl * kv_dim * 2 * 2)"

definition head_overhead :: "model_config \<Rightarrow> usize" where
  "head_overhead config = vocab_size config * hidden_size config * 2"

definition tail_overhead :: "model_config \<Rightarrow> usize" where
  "tail_overhead config = hidden_size config * 2 + vocab_size config * hidden_size config * 2"

definition max_layers_for_node :: "usize \<Rightarrow> usize \<Rightarrow> usize \<Rightarrow> usize" where
  "max_layers_for_node available_memory per_layer_total overhead =
     (case checked_div_usize (available_memory - overhead) per_layer_total of None \<Rightarrow> 0 | Some q \<Rightarrow> q)"

definition role_overhead :: "usize \<Rightarrow> usize \<Rightarrow> model_config \<Rightarrow> usize" where
  "role_overhead i n config =
     (if i = 0 then (if i = n - 1 then head_overhead config + tail_overhead config else head_overhead config)
      else if i = n - 1 then tail_overhead config else 0)"

text \<open>The ceiling of the \<open>i\<close>-th of \<open>n\<close> nodes, as every loop below computes it.\<close>

definition node_max :: "model_config \<Rightarrow> usize \<Rightarrow> usize \<Rightarrow> usize \<Rightarrow> worker_capabilities \<Rightarrow> usize" where
  "node_max config per_layer_total n i w =
     (let overhead = role_overhead i n config
      in max_layers_for_node (gpu_memory_available w) per_layer_total overhead)"

definition per_layer_bytes :: "scheduler_input \<Rightarrow> usize" where
  "per_layer_bytes inp = weight_memory_per_layer (in_config inp)
     + cache_memory_per_layer (in_config inp) (in_max_seq_len inp)"

subsection \<open>Latency estimate and pruning\<close>

definition speed :: "worker_capabilities \<Rightarrow> f32" where
  "speed w = f32_div f32_one (decode_ms_per_layer w)"

definition total_speed :: "worker_capabilities list \<Rightarrow> f32" where
  "total_speed cs = foldl (\<lambda>acc w. f32_add acc (speed w)) f32_zero cs"

definition ideal_layers :: "f32 \<Rightarrow> usize \<Rightarrow> worker_capabilities \<Rightarrow> usize" where
  "ideal_layers tot num w =
     f32_to_usize (f32_round (f32_mul (f32_div (speed w) tot) (f32_of_usize num)))"

definition hops_ms :: "nat \<Rightarrow> f32 \<Rightarrow> f32" where
  "hops_ms n hop = f32_mul (if 1 < n then f32_of_usize (n - 1) else f32_zero) hop"

definition estimate_pipeline_latency ::
    "worker_capabilities list \<Rightarrow> usize \<Rightarrow> usize \<Rightarrow> model_config \<Rightarrow> f32 \<Rightarrow> f32" where
  "estimate_pipeline_latency cs num per_layer_total config hop =
     (let tot = total_speed cs;
          max_node_time = foldl (\<lambda>acc (i, w).
            let ideal = ideal_layers tot num w;
                mx = node_max config per_layer_total (length cs) i w;
                layers = min (min ideal mx) num;
                node_time = f32_mul (f32_of_usize layers) (decode_ms_per_layer w)
            in f32_max acc node_time) f32_zero (enum cs)
      in f32_add max_node_time (hops_ms (length cs) hop))"

definition model_fits :: "worker_capabilities list \<Rightarrow> usize \<Rightarrow> usize \<Rightarrow> model_config \<Rightarrow> bool" where
  "model_fits cs num per_layer_total config =
     (let total_available = (\<Sum>(i, w) \<leftarrow> enum cs.
            gpu_memory_available w - role_overhead i (length cs) config)
      in total_available \<ge> num * per_layer_total)"

definition slowest_idx :: "worker_capabilities list \<Rightarrow> nat option" where
  "slowest_idx cs = map_option fst (max_by (\<lambda>a b.
     case f32_partial_cmp (decode_ms_per_layer (snd a)) (decode_ms_per_layer (snd b)) of
       None \<Rightarrow> Equal | Some c \<Rightarrow> c) (enum cs))"

lemma slowest_idx_less: "slowest_idx cs = Some i \<Longrightarrow> i < length cs"
  by (auto simp: slowest_idx_def in_set_enum dest!: max_by_in)

function prune_slow ::
    "usize \<Rightarrow> usize \<Rightarrow> model_config \<Rightarrow> f32 \<Rightarrow> worker_capabilities list \<Rightarrow> excluded_node list
     \<Rightarrow> worker_capabilities list \<times> excluded_node list" where
  "prune_slow num per_layer_total config hop cs excluded =
     (if length cs \<le> 1 then (cs, excluded)
      else case slowest_idx cs of None \<Rightarrow> (cs, excluded) | Some i \<Rightarrow>
        let latency_with = estimate_pipeline_latency cs num per_layer_total config hop;
            removed = cs ! i;
            without = remove_at i cs
        in if \<not> model_fits without num per_layer_total config then (cs, excluded)
           else
             let latency_without = estimate_pipeline_latency without num per_layer_total config hop
             in if f32_lt latency_without latency_with
                then prune_slow num per_layer_total config hop without
                       (excluded @ [\<lparr>ex_node_id = node_id removed,
                                     ex_reason = SlowsDownPipeline latency_with latency_without\<rparr>])
                else (cs, excluded))"
  by pat_completeness auto
termination
  by (relation "measure (\<lambda>(num, plt, config, hop, cs, ex). length cs)") (auto dest!: slowest_idx_less)

declare prune_slow.simps [simp del]

subsection \<open>Redistribution\<close>

definition best_to_grow ::
    "worker_capabilities list \<Rightarrow> usize list \<Rightarrow> usize \<Rightarrow> model_config \<Rightarrow> nat option" where
  "best_to_grow cs counts per_layer_total config = fst (foldl (\<lambda>(best, best_speed) (i, w).
      if counts ! i < node_max config per_layer_total (length cs) i w \<and> f32_lt best_speed (speed w)
      then (Some i, speed w) else (best, best_speed)) (None, f32_MIN) (enum cs))"

definition worst_to_shrink :: "worker_capabilities list \<Rightarrow> usize list \<Rightarrow> nat option" where
  "worst_to_shrink cs counts = fst (foldl (\<lambda>(worst, worst_speed) (i, w).
      if 0 < counts ! i \<and> f32_lt (speed w) worst_speed
      then (Some i, speed w) else (worst, worst_speed)) (None, f32_MAX) (enum cs))"

function add_layers ::
    "worker_capabilities list \<Rightarrow> usize \<Rightarrow> usize \<Rightarrow> model_config \<Rightarrow> usize list \<Rightarrow> usize
     \<Rightarrow> (usize list \<times> usize) result" where
  "add_layers cs num per_layer_total config counts tot =
     (if tot < num then
        (case best_to_grow cs counts per_layer_total config of
           Some i \<Rightarrow> add_layers cs num per_layer_total config (counts[i := counts ! i + 1]) (tot + 1)
         | None \<Rightarrow> Inl (Pipeline ''insufficient total capacity: need {num_layers} layers, can fit {total}''))
      else Inr (counts, tot))"
  by pat_completeness auto
termination
  by (relation "measure (\<lambda>(cs, num, plt, config, counts, tot). num - tot)") auto

declare add_layers.simps [simp del]

function remove_layers ::
    "worker_capabilities list \<Rightarrow> usize \<Rightarrow> usize list \<Rightarrow> usize \<Rightarrow> usize list \<times> usize" where
  "remove_layers cs num counts tot =
     (if num < tot then
        (case worst_to_shrink cs counts of
           Some i \<Rightarrow> remove_layers cs num (counts[i := counts ! i - 1]) (tot - 1)
         | None \<Rightarrow> (counts, tot))
      else (counts, tot))"
  by pat_completeness auto
termination
  by (relation "measure (\<lambda>(cs, num, counts, tot). tot)") auto

declare remove_layers.simps [simp del]

definition redistribute_layers ::
    "usize list \<Rightarrow> worker_capabilities list \<Rightarrow> usize \<Rightarrow> usize \<Rightarrow> model_config \<Rightarrow> usize list result" where
  "redistribute_layers counts cs num per_layer_total config =
     rbind (add_layers cs num per_layer_total config counts (sum_list counts)) (\<lambda>(counts, tot).
     let (counts, tot) = remove_layers cs num counts tot
     in if tot \<noteq> num
        then Inl (Pipeline ''failed to assign all layers: assigned {total}, need {num_layers}'')
        else Inr counts)"

subsection \<open>The result\<close>

fun build_assignments ::
    "scheduler_input \<Rightarrow> nat \<Rightarrow> nat \<Rightarrow> usize \<Rightarrow> (worker_capabilities \<times> usize) list \<Rightarrow> layer_assignment list"
where
  "build_assignments inp n i start [] = []"
| "build_assignments inp n i start ((w, count) # rest) =
     (let per_layer_weight = weight_memory_per_layer (in_config inp);
          per_layer_cache = cache_memory_per_layer (in_config inp) (in_max_seq_len inp);
          end' = start + count;
          role = (if i = 0 then Head else if i = n - 1 then Tail else Middle);
          decode_ms = f32_mul (f32_of_usize count) (decode_ms_per_layer w)
      in \<lparr>la_node_id = node_id w, la_start = start, la_end = end', la_role = role,
          expected_decode_ms = decode_ms,
          weight_memory_gb = f32_div (f32_of_usize (count * per_layer_weight)) f32_1e9,
          cache_memory_gb = f32_div (f32_of_usize (count * per_layer_cache)) f32_1e9\<rparr>
         # build_assignments inp n (i + 1) end' rest)"

text \<open>Indexing the candidates with the bottleneck's position panics when there are none: \<open>None\<close>.\<close>

definition build_result ::
    "scheduler_input \<Rightarrow> worker_capabilities list \<Rightarrow> usize list \<Rightarrow> excluded_node list
     \<Rightarrow> scheduler_result result option" where
  "build_result inp cs counts excluded =
     (let n = length cs;
          asg = build_assignments inp n 0 0 (zip cs counts);
          per_node_times = map expected_decode_ms asg;
          max_time = foldl f32_max f32_MIN per_node_times;
          min_time = foldl f32_min f32_MAX (filter (\<lambda>t. f32_lt f32_zero t) per_node_times);
          ratio = (if f32_lt f32_zero min_time then f32_div max_time min_time else f32_one);
          bottleneck_idx = (case max_by (\<lambda>a b.
              case f32_partial_cmp (snd a) (snd b) of None \<Rightarrow> Equal | Some c \<Rightarrow> c) (enum per_node_times)
            of None \<Rightarrow> 0 | Some (i, _) \<Rightarrow> i);
          decode_ms = f32_add max_time (hops_ms n (hop_latency_ms inp))
      in if bottleneck_idx < length cs
         then Some (Inr \<lparr>assignments = asg, excluded_nodes = excluded, pipeline_decode_ms = decode_ms,
                imbalance_ratio = ratio, bottleneck_node = node_id (cs ! bottleneck_idx)\<rparr>)
         else None)"

subsection \<open>The three modes\<close>

definition schedule_auto ::
    "scheduler_input \<Rightarrow> worker_capabilities list \<Rightarrow> scheduler_result result option" where
  "schedule_auto inp cs0 =
     (let num = num_layers (in_config inp);
          per_layer_total = per_layer_bytes inp;
          (cs, excluded) = prune_slow num per_layer_total (in_config inp) (hop_latency_ms inp) cs0 [];
          tot = total_speed cs;
          counts = map (ideal_layers tot num) cs;
          clamped = map (\<lambda>(i, w). min (counts ! i) (node_max (in_config inp) per_layer_total (length cs) i w))
                      (enum cs)
      in case redistribute_layers clamped cs num per_layer_total (in_config inp) of
           Inl e \<Rightarrow> Some (Inl e)
         | Inr layer_counts \<Rightarrow> build_result inp cs layer_counts excluded)"

definition equal_counts :: "usize \<Rightarrow> worker_capabilities list \<Rightarrow> usize list" where
  "equal_counts num cs =
     (let n = length cs;
          base = num div n;
          remainder = num mod n;
          memory_order = sort_key (\<lambda>i. - int (gpu_memory_available (cs ! i))) [0..<n]
      in foldl (\<lambda>counts idx. counts[idx := counts ! idx + 1]) (replicate n base) (take remainder memory_order))"

definition schedule_equal ::
    "scheduler_input \<Rightarrow> worker_capabilities list \<Rightarrow> scheduler_result result option" where
  "schedule_equal inp cs =
     (let num = num_layers (in_config inp);
          n = length cs;
          per_layer_total = per_layer_bytes inp;
          layer_counts = equal_counts num cs
      in case rforeach (\<lambda>(i, w) _.
              ensure (\<not> layer_counts ! i > node_max (in_config inp) per_layer_total n i w)
                (Pipeline ''node '{}' cannot hold {} layers (max {}): {:.1} GB available, needs {:.1} GB''))
              (enum cs) () of
           Inl e \<Rightarrow> Some (Inl e)
         | Inr _ \<Rightarrow> build_result inp cs layer_counts [])"

definition check_unique_ids :: "manual_assignment list \<Rightarrow> string list result" where
  "check_unique_ids as = rforeach (\<lambda>a seen.
     if ma_node_id a \<in> set seen
     then Inl (Pipeline ''manual assignment has duplicate node_id {}'')
     else Inr (ma_node_id a # seen)) as []"

definition cover_layers :: "usize \<Rightarrow> manual_assignment list \<Rightarrow> bool list result" where
  "cover_layers num as = rforeach (\<lambda>a covered.
     if ma_end a > num
     then Inl (Pipeline ''manual assignment for '{}' exceeds model layers: {:?} > {}'')
     else rforeach (\<lambda>l covered.
       if covered ! l then Inl (Pipeline ''manual assignment overlap at layer {l}'')
       else Inr (covered[l := True])) [ma_start a..<ma_end a] covered) as (replicate num False)"

definition place_manual ::
    "scheduler_input \<Rightarrow> worker_capabilities list \<Rightarrow> manual_assignment list
     \<Rightarrow> (worker_capabilities list \<times> usize list) result" where
  "place_manual inp cs as = rforeach (\<lambda>a (ordered, layer_counts).
     rbind (ok_or (find (\<lambda>w. node_id w = ma_node_id a) cs)
              (Pipeline ''manual assignment references unknown node {}'')) (\<lambda>worker.
     let mx = node_max (in_config inp) (per_layer_bytes inp) (length as) (length ordered) worker;
         count = ma_end a - ma_start a
     in if count > mx then Inl (Pipeline ''node '{}' cannot hold {} layers (max {})'')
        else Inr (ordered @ [worker], layer_counts @ [count]))) as ([], [])"

definition schedule_manual ::
    "scheduler_input \<Rightarrow> worker_capabilities list \<Rightarrow> manual_assignment list
     \<Rightarrow> scheduler_result result option" where
  "schedule_manual inp cs as =
     (let num = num_layers (in_config inp) in
      case rbind (check_unique_ids as) (\<lambda>_.
           rbind (cover_layers num as) (\<lambda>covered.
           rbind (ensure (\<not> (\<exists>c \<in> set covered. \<not> c))
                   (Pipeline ''manual assignments have gaps at layers: {missing:?}'')) (\<lambda>_.
           place_manual inp cs as))) of
        Inl e \<Rightarrow> Some (Inl e)
      | Inr (ordered, layer_counts) \<Rightarrow> build_result inp ordered layer_counts [])"

definition candidates :: "scheduler_input \<Rightarrow> worker_capabilities list" where
  "candidates inp = (case coordinator_compute inp of None \<Rightarrow> [] | Some c \<Rightarrow> [c]) @ in_workers inp"

definition schedule :: "scheduler_input \<Rightarrow> scheduler_result result option" where
  "schedule inp =
     (let cs = candidates inp
      in if cs = [] then Some (Inl (Pipeline ''no workers available for scheduling''))
         else case rforeach (\<lambda>c _. validate_calibration c) cs () of
           Inl e \<Rightarrow> Some (Inl e)
         | Inr _ \<Rightarrow> (case in_mode inp of
             Auto \<Rightarrow> schedule_auto inp cs
           | EqualSplit \<Rightarrow> schedule_equal inp cs
           | Manual as \<Rightarrow> schedule_manual inp cs as))"

end
