(* ===== verification/Registry.thy ===== *)
theory Registry
  imports Connection Layer_Scheduler "HOL-Library.Multiset"
begin

text \<open>
  The peer registry of \<open>fracture-coordinator/src/registry.rs\<close>. The \<open>HashMap\<close> is a map from node ids;
  an operation that iterates over it takes the order in which it happens to yield the keys, and
  \<open>lists_keys\<close> says that such an order lists every key once. \<open>Instant::now()\<close> is an argument.
\<close>

datatype worker_status = Connected | Ready | Draining | Pending | Dead

record worker_entry =
  we_capabilities :: worker_capabilities
  we_writer :: framed_writer
  we_reader :: framed_reader
  we_assignment :: "layer_assignment option"
  we_last_heartbeat :: nat
  we_status :: worker_status
  we_free_blocks :: u32
  we_gpu_memory_used :: u64

type_synonym peer_registry = "string \<rightharpoonup> worker_entry"

definition new_registry :: peer_registry where
  "new_registry = Map.empty"

definition register ::
    "worker_capabilities \<Rightarrow> framed_connection \<Rightarrow> nat \<Rightarrow> peer_registry \<Rightarrow> unit result \<times> peer_registry" where
  "register caps conn now reg =
     (let nid = node_id caps
      in if (case reg nid of Some existing \<Rightarrow> we_status existing \<noteq> Dead | None \<Rightarrow> False)
         then (Inl (Protocol ''worker {node_id} is already registered''), reg)
         else
           let (w, r) = into_split conn
           in (Inr (), reg(nid \<mapsto> \<lparr>we_capabilities = caps, we_writer = w, we_reader = r, we_assignment = None,
                 we_last_heartbeat = now, we_status = Connected, we_free_blocks = 0, we_gpu_memory_used = 0\<rparr>)))"

definition assign :: "string \<Rightarrow> layer_assignment \<Rightarrow> peer_registry \<Rightarrow> unit result \<times> peer_registry" where
  "assign nid a reg = (case reg nid of
      None \<Rightarrow> (Inl (Protocol ''worker {node_id} not found''), reg)
    | Some entry \<Rightarrow>
        if we_status entry = Dead then (Inl (Protocol ''cannot assign layers to dead worker {node_id}''), reg)
        else (Inr (), reg(nid \<mapsto> entry\<lparr>we_assignment := Some a, we_status := Ready\<rparr>)))"

definition lookup_worker :: "string \<Rightarrow> peer_registry \<Rightarrow> worker_entry result" where
  "lookup_worker nid reg = ok_or (reg nid) (Protocol ''worker {node_id} not found'')"

definition mark_dead :: "string \<Rightarrow> peer_registry \<Rightarrow> peer_registry" where
  "mark_dead nid reg = (case reg nid of None \<Rightarrow> reg | Some e \<Rightarrow> reg(nid \<mapsto> e\<lparr>we_status := Dead\<rparr>))"

definition mark_draining :: "string \<Rightarrow> peer_registry \<Rightarrow> peer_registry" where
  "mark_draining nid reg = (case reg nid of None \<Rightarrow> reg
     | Some e \<Rightarrow> if we_status e = Ready then reg(nid \<mapsto> e\<lparr>we_status := Draining\<rparr>) else reg)"

definition mark_pending :: "string \<Rightarrow> peer_registry \<Rightarrow> peer_registry" where
  "mark_pending nid reg = (case reg nid of None \<Rightarrow> reg | Some e \<Rightarrow> reg(nid \<mapsto> e\<lparr>we_status := Pending\<rparr>))"

definition record_heartbeat :: "string \<Rightarrow> u32 \<Rightarrow> u64 \<Rightarrow> nat \<Rightarrow> peer_registry \<Rightarrow> peer_registry" where
  "record_heartbeat nid fb mem now reg = (case reg nid of None \<Rightarrow> reg
     | Some e \<Rightarrow> reg(nid \<mapsto> e\<lparr>we_last_heartbeat := now, we_free_blocks := fb, we_gpu_memory_used := mem\<rparr>))"

subsection \<open>Iterating\<close>

definition lists_keys :: "'k list \<Rightarrow> ('k \<rightharpoonup> 'v) \<Rightarrow> bool" where
  "lists_keys ks m \<longleftrightarrow> distinct ks \<and> set ks = dom m"

definition entries :: "string list \<Rightarrow> peer_registry \<Rightarrow> worker_entry list" where
  "entries ks reg = map (\<lambda>k. the (reg k)) ks"

definition in_pipeline :: "worker_entry \<Rightarrow> bool" where
  "in_pipeline e \<longleftrightarrow> we_status e = Ready \<and> we_assignment e \<noteq> None"

definition pending_workers :: "string list \<Rightarrow> peer_registry \<Rightarrow> string list" where
  "pending_workers ks reg = filter (\<lambda>k. we_status (the (reg k)) = Pending) ks"

definition min_free_blocks :: "string list \<Rightarrow> peer_registry \<Rightarrow> u32" where
  "min_free_blocks ks reg =
     (case map we_free_blocks (filter in_pipeline (entries ks reg)) of [] \<Rightarrow> 0 | x # xs \<Rightarrow> foldl min x xs)"

definition all_capabilities :: "string list \<Rightarrow> peer_registry \<Rightarrow> worker_capabilities list" where
  "all_capabilities ks reg = map we_capabilities (filter (\<lambda>e. we_status e \<noteq> Dead) (entries ks reg))"

text \<open>\<open>sort_by_key\<close> is stable.\<close>

definition pipeline_order :: "string list \<Rightarrow> peer_registry \<Rightarrow> string list" where
  "pipeline_order ks reg = map (\<lambda>e. node_id (we_capabilities e))
     (sort_key (\<lambda>e. la_start (the (we_assignment e))) (filter in_pipeline (entries ks reg)))"

definition active_workers :: "string list \<Rightarrow> peer_registry \<Rightarrow> usize" where
  "active_workers ks reg = length (filter (\<lambda>e. we_status e \<noteq> Dead) (entries ks reg))"

definition reader_handles :: "string list \<Rightarrow> peer_registry \<Rightarrow> (string \<times> framed_reader) list" where
  "reader_handles ks reg = map (\<lambda>e. (node_id (we_capabilities e), we_reader e)) (filter in_pipeline (entries ks reg))"

subsection \<open>Entries are filed under their own id\<close>

definition reg_ok :: "peer_registry \<Rightarrow> bool" where
  "reg_ok reg \<longleftrightarrow> (\<forall>nid e. reg nid = Some e \<longrightarrow> node_id (we_capabilities e) = nid)"

lemma reg_okD: "reg_ok reg \<Longrightarrow> reg nid = Some e \<Longrightarrow> node_id (we_capabilities e) = nid"
  by (simp add: reg_ok_def)

lemma reg_ok_upd: "reg_ok reg \<Longrightarrow> node_id (we_capabilities e) = nid \<Longrightarrow> reg_ok (reg(nid \<mapsto> e))"
  by (simp add: reg_ok_def)

lemma reg_ok_ops:
  assumes "reg_ok reg"
  shows "register caps conn now reg = (r, reg') \<Longrightarrow> reg_ok reg'"
    and "assign nid a reg = (r, reg') \<Longrightarrow> reg_ok reg'"
    and "reg_ok (mark_dead nid reg)" "reg_ok (mark_draining nid reg)" "reg_ok (mark_pending nid reg)"
    and "reg_ok (record_heartbeat nid fb mem now reg)"
  using assms
  by (auto simp: register_def assign_def mark_dead_def mark_draining_def mark_pending_def record_heartbeat_def Let_def
      into_split_def split: option.splits if_splits intro!: reg_ok_upd dest: reg_okD)

lemma lists_keys_upd: "lists_keys ks m \<Longrightarrow> k \<in> dom m \<Longrightarrow> lists_keys ks (m(k \<mapsto> v))"
  by (auto simp: lists_keys_def)

subsection \<open>What the iterating operations return\<close>

lemma entries_mset:
  assumes "lists_keys ks reg" "lists_keys ks' reg"
  shows "mset (entries ks reg) = mset (entries ks' reg)"
proof -
  have "mset ks = mset ks'" using assms by (metis lists_keys_def set_eq_iff_mset_eq_distinct)
  then show ?thesis by (simp add: entries_def)
qed

lemma in_entries: "lists_keys ks reg \<Longrightarrow> e \<in> set (entries ks reg) \<longleftrightarrow> (\<exists>nid. reg nid = Some e)"
  by (force simp: lists_keys_def entries_def)

lemma set_pipeline_order:
  assumes "reg_ok reg" "lists_keys ks reg"
  shows "set (pipeline_order ks reg) = {nid. \<exists>e. reg nid = Some e \<and> in_pipeline e}"
  using in_entries [OF assms(2)] reg_okD [OF assms(1)] by (fastforce simp: pipeline_order_def)

lemma entries_nth_id:
  assumes "reg_ok reg" "lists_keys ks reg"
  shows "map (\<lambda>e. node_id (we_capabilities e)) (entries ks reg) = ks"
  unfolding entries_def map_map
  by (rule map_idI) (use assms in \<open>auto simp: lists_keys_def dest!: equalityD1 [THEN subsetD] reg_okD\<close>)

lemma distinct_pipeline_order:
  assumes "reg_ok reg" "lists_keys ks reg"
  shows "distinct (pipeline_order ks reg)"
proof -
  let ?id = "\<lambda>e. node_id (we_capabilities e)" and ?es = "entries ks reg"
  have "distinct (map ?id ?es)" using assms by (simp add: entries_nth_id lists_keys_def)
  then have "distinct (map ?id (filter in_pipeline ?es))" by (rule distinct_map_filter)
  then show ?thesis by (simp add: pipeline_order_def distinct_map)
qed

text \<open>Layers are handed out without overlap when no two workers of the pipeline start at the same one.\<close>

definition starts_differ :: "peer_registry \<Rightarrow> bool" where
  "starts_differ reg \<longleftrightarrow> (\<forall>n m e f. reg n = Some e \<and> reg m = Some f \<and> in_pipeline e \<and> in_pipeline f
     \<and> la_start (the (we_assignment e)) = la_start (the (we_assignment f)) \<longrightarrow> n = m)"

lemma pipeline_order_unique:
  assumes "lists_keys ks reg" "lists_keys ks' reg" "starts_differ reg"
  shows "pipeline_order ks reg = pipeline_order ks' reg"
proof -
  let ?k = "\<lambda>e. la_start (the (we_assignment e))" and ?f = "filter in_pipeline"
  have "inj_on ?k (set (?f (entries ks reg)))"
    using in_entries [OF assms(1)] assms(3) by (auto simp: inj_on_def starts_differ_def) (metis option.inject)
  moreover have "mset (sort_key ?k (?f (entries ks' reg))) = mset (?f (entries ks reg))"
    using entries_mset [OF assms(1,2)] by simp
  ultimately have "sort_key ?k (?f (entries ks reg)) = sort_key ?k (?f (entries ks' reg))"
    by (intro sort_key_inj_key_eq) simp_all
  then show ?thesis by (simp add: pipeline_order_def)
qed

lemma foldl_min:
  fixes x :: "'a::linorder"
  shows "foldl min x xs \<in> insert x (set xs) \<and> foldl min x xs \<le> x \<and> (\<forall>y \<in> set xs. foldl min x xs \<le> y)"
proof (induction xs arbitrary: x)
  case (Cons y ys)
  show ?case using Cons [of "min x y"] by (auto simp: min_def split: if_splits)
qed simp

lemma min_free_blocks_spec:
  assumes "lists_keys ks reg"
  shows "reg nid = Some e \<Longrightarrow> in_pipeline e \<Longrightarrow> min_free_blocks ks reg \<le> we_free_blocks e"
    and "(\<exists>nid e. reg nid = Some e \<and> in_pipeline e \<and> min_free_blocks ks reg = we_free_blocks e)
      \<or> (\<nexists>nid e. reg nid = Some e \<and> in_pipeline e) \<and> min_free_blocks ks reg = 0"
proof -
  let ?xs = "map we_free_blocks (filter in_pipeline (entries ks reg))"
  have mem: "x \<in> set ?xs \<longleftrightarrow> (\<exists>nid e. reg nid = Some e \<and> in_pipeline e \<and> x = we_free_blocks e)" for x
    using in_entries [OF assms] by auto
  show "min_free_blocks ks reg \<le> we_free_blocks e" if "reg nid = Some e" "in_pipeline e"
  proof -
    have "we_free_blocks e \<in> set ?xs" using that mem by blast
    then show ?thesis unfolding min_free_blocks_def using foldl_min by (cases ?xs) auto
  qed
  show "(\<exists>nid e. reg nid = Some e \<and> in_pipeline e \<and> min_free_blocks ks reg = we_free_blocks e)
      \<or> (\<nexists>nid e. reg nid = Some e \<and> in_pipeline e) \<and> min_free_blocks ks reg = 0"
  proof (cases ?xs)
    case Nil
    then show ?thesis using mem by (simp add: min_free_blocks_def) blast
  next
    case (Cons x xs)
    have "foldl min x xs \<in> set ?xs" unfolding Cons using foldl_min [of x xs] by simp
    then show ?thesis using mem by (simp add: min_free_blocks_def Cons)
  qed
qed

subsection \<open>Property\<close>

text \<open>The pipeline order read off a registry is the one its layer assignments give: it lists the ready
  workers with layers, each once, by first layer, and it does not depend on the order in which the hash
  map yields its entries, as long as no two of them start at the same layer.\<close>

theorem pipeline_order_deterministic:
  assumes "reg_ok reg" and "lists_keys ks reg" and "lists_keys ks' reg" and "starts_differ reg"
  shows "pipeline_order ks reg = pipeline_order ks' reg
    \<and> distinct (pipeline_order ks reg)
    \<and> set (pipeline_order ks reg) = {nid. \<exists>e. reg nid = Some e \<and> in_pipeline e}
    \<and> sorted (map (\<lambda>nid. la_start (the (we_assignment (the (reg nid))))) (pipeline_order ks reg))"
proof -
  let ?es = "sort_key (\<lambda>e. la_start (the (we_assignment e))) (filter in_pipeline (entries ks reg))"
  have "map (\<lambda>nid. la_start (the (we_assignment (the (reg nid))))) (pipeline_order ks reg)
      = map (\<lambda>e. la_start (the (we_assignment e))) ?es"
    using in_entries [OF assms(2)] reg_okD [OF assms(1)] by (auto simp: pipeline_order_def)
  then have "sorted (map (\<lambda>nid. la_start (the (we_assignment (the (reg nid))))) (pipeline_order ks reg))"
    by (simp only: sorted_sort_key)
  then show ?thesis
    using pipeline_order_unique [OF assms(2-4)] distinct_pipeline_order [OF assms(1,2)] set_pipeline_order [OF assms(1,2)] by blast
qed

definition two_workers :: peer_registry where
  "two_workers = (let w = (\<lambda>i s. \<lparr>we_capabilities = \<lparr>node_id = i, gpu_model = [], gpu_memory_available = 0, compute_capability = (0, 0),
       decode_ms_per_layer = 0, prefill_ms_per_layer_128 = 0\<rparr>,
     we_writer = \<lparr>w_sent = [], w_room = None\<rparr>, we_reader = [],
     we_assignment = Some \<lparr>la_node_id = i, la_start = s, la_end = s + 4, la_role = Head, expected_decode_ms = 0,
       weight_memory_gb = 0, cache_memory_gb = 0\<rparr>,
     we_last_heartbeat = 0, we_status = Ready, we_free_blocks = 0, we_gpu_memory_used = 0\<rparr>)
   in [''a'' \<mapsto> w ''a'' 4, ''b'' \<mapsto> w ''b'' 0])"

theorem pipeline_order_deterministic_witness:
  "pipeline_order [''a'', ''b''] two_workers = pipeline_order [''b'', ''a''] two_workers
   \<and> pipeline_order [''a'', ''b''] two_workers = [''b'', ''a'']"
proof
  have "reg_ok two_workers" "starts_differ two_workers" "lists_keys [''a'', ''b''] two_workers" "lists_keys [''b'', ''a''] two_workers"
    by (auto simp: two_workers_def reg_ok_def starts_differ_def lists_keys_def split: if_splits)
  then show "pipeline_order [''a'', ''b''] two_workers = pipeline_order [''b'', ''a''] two_workers"
    using pipeline_order_deterministic by blast
  show "pipeline_order [''a'', ''b''] two_workers = [''b'', ''a'']"
    by (simp add: pipeline_order_def entries_def in_pipeline_def two_workers_def)
qed

end
