(* ===== verification/Dist_Pipeline.thy ===== *)
theory Dist_Pipeline
  imports Registry
begin

text \<open>
  The distributed pipeline of \<open>fracture-coordinator/src/pipeline.rs\<close>. An operation changes the registry,
  which holds the two halves of every worker's connection: what a worker will have answered is the
  byte stream of its read half. The codecs of the payloads (\<open>bincode\<close>) and the checksum are
  parameters, in the record \<open>wire_codec\<close>.
\<close>

record wire_codec =
  wc_crc :: "byte list \<Rightarrow> u32"
  ser_forward :: "forward_payload \<Rightarrow> string + byte list"
  ser_batched :: "batched_forward_payload \<Rightarrow> string + byte list"
  ser_ack :: "register_ack_payload \<Rightarrow> string + byte list"
  ser_heartbeat :: "heartbeat_payload \<Rightarrow> string + byte list"
  de_error :: "byte list \<Rightarrow> string + error_payload"
  de_forward_result :: "byte list \<Rightarrow> string + forward_result_payload"
  de_batched_result :: "byte list \<Rightarrow> string + batched_forward_result_payload"
  de_heartbeat_ack :: "byte list \<Rightarrow> string + heartbeat_ack_payload"

subsection \<open>Receiving and splitting\<close>

lemma write_frame_nonempty: "0 < length (write_frame crc f)"
  by (simp add: write_frame_def encode_frame_def Let_def)

lemma recv_shorter: "recv crc r = (Inr f, r') \<Longrightarrow> length r' < length r"
  using recv_sound [of crc r f r'] write_frame_nonempty [of crc f] by auto

function recv_skipping_heartbeat_acks ::
    "(byte list \<Rightarrow> u32) \<Rightarrow> framed_reader \<Rightarrow> (frame_header \<times> byte list) result \<times> framed_reader" where
  "recv_skipping_heartbeat_acks crc r = (case recv crc r of
      (Inl e, r') \<Rightarrow> (Inl e, r')
    | (Inr (header, payload), r') \<Rightarrow>
        if msg_type header = HeartbeatAck then recv_skipping_heartbeat_acks crc r'
        else (Inr (header, payload), r'))"
  by pat_completeness auto
termination
  by (relation "measure (\<lambda>(crc, r). length r)") (auto dest: recv_shorter [OF sym])

declare recv_skipping_heartbeat_acks.simps [simp del]

text \<open>\<open>chunks_exact(4)\<close> with \<open>from_le_bytes\<close>.\<close>

fun f32s_of_bytes :: "byte list \<Rightarrow> f32 list" where
  "f32s_of_bytes (a # b # c # d # rest) = from_le [a, b, c, d] # f32s_of_bytes rest"
| "f32s_of_bytes _ = []"

definition split_logits_per_sequence :: "byte list \<Rightarrow> usize \<Rightarrow> f32 list list" where
  "split_logits_per_sequence bs num_sequences =
     (let all_logits = f32s_of_bytes bs;
          vsize = (if num_sequences > 0 then length all_logits div num_sequences else 0)
      in map (\<lambda>si. take vsize (drop (si * vsize) all_logits)) [0..<num_sequences])"

subsection \<open>The pipeline\<close>

record dist_pipeline =
  dp_order :: "string list"
  dp_hidden_size :: usize
  dp_total_layers :: usize
  dp_allocated :: "u64 set"

definition empty_pipeline :: "usize \<Rightarrow> dist_pipeline" where
  "empty_pipeline hsize = \<lparr>dp_order = [], dp_hidden_size = hsize, dp_total_layers = 0, dp_allocated = {}\<rparr>"

definition new_pipeline :: "layer_assignment list \<Rightarrow> usize \<Rightarrow> dist_pipeline result" where
  "new_pipeline asgs hsize =
     (if asgs = [] then Inl (Pipeline ''no assignments for distributed pipeline'')
      else rbind (rforeach (\<lambda>a expected_start.
          if la_start a \<noteq> expected_start
            then Inl (Pipeline ''non-contiguous layer ranges: expected start {expected_start}, got {}'')
          else if la_end a \<le> la_start a then Inl (Pipeline ''empty layer range for {}: {:?}'')
          else Inr (la_end a)) asgs 0) (\<lambda>total_layers.
        Inr \<lparr>dp_order = map la_node_id asgs, dp_hidden_size = hsize, dp_total_layers = total_layers, dp_allocated = {}\<rparr>))"

text \<open>\<open>send_empty\<close> on the write half of a worker.\<close>

definition send_empty_to :: "wire_codec \<Rightarrow> message_type \<Rightarrow> u64 \<Rightarrow> worker_entry \<Rightarrow> unit result \<times> worker_entry" where
  "send_empty_to wc mt sid e = (case send_empty (wc_crc wc) mt sid (we_writer e) of (r, w) \<Rightarrow> (r, e\<lparr>we_writer := w\<rparr>))"

text \<open>The loop \<open>for node_id in &self.pipeline_order\<close> that sends and stops at an error.\<close>

fun send_each :: "wire_codec \<Rightarrow> message_type \<Rightarrow> u64 \<Rightarrow> string list \<Rightarrow> peer_registry \<Rightarrow> unit result \<times> peer_registry" where
  "send_each wc mt sid [] reg = (Inr (), reg)"
| "send_each wc mt sid (nid # ids) reg = (case reg nid of
      None \<Rightarrow> (Inl (Pipeline ''worker {node_id} not found in registry''), reg)
    | Some e \<Rightarrow> (case send_empty_to wc mt sid e of
          (Inl err, e') \<Rightarrow> (Inl err, reg(nid \<mapsto> e'))
        | (Inr _, e') \<Rightarrow> send_each wc mt sid ids (reg(nid \<mapsto> e'))))"

text \<open>The loops that ignore a failed send, to the workers that satisfy a condition.\<close>

fun send_where ::
    "(worker_entry \<Rightarrow> bool) \<Rightarrow> wire_codec \<Rightarrow> message_type \<Rightarrow> u64 \<Rightarrow> string list \<Rightarrow> peer_registry \<Rightarrow> peer_registry" where
  "send_where P wc mt sid [] reg = reg"
| "send_where P wc mt sid (nid # ids) reg = send_where P wc mt sid ids (case reg nid of
      None \<Rightarrow> reg
    | Some e \<Rightarrow> if P e then reg(nid \<mapsto> snd (send_empty_to wc mt sid e)) else reg)"

text \<open>Collecting the acknowledgements. The receives run concurrently; \<open>order\<close> is the order in which they
  complete. When one fails the others are aborted, and \<open>aborted\<close> gives the state in which an aborted
  receive leaves a worker's stream.\<close>

definition abort_rest :: "(string \<Rightarrow> framed_reader \<Rightarrow> framed_reader) \<Rightarrow> string list \<Rightarrow> peer_registry \<Rightarrow> peer_registry" where
  "abort_rest aborted ids reg = (\<lambda>nid. if nid \<in> set ids
     then map_option (\<lambda>e. e\<lparr>we_reader := aborted nid (we_reader e)\<rparr>) (reg nid) else reg nid)"

fun collect_acks ::
    "wire_codec \<Rightarrow> (string \<Rightarrow> framed_reader \<Rightarrow> framed_reader) \<Rightarrow> string list \<Rightarrow> string list \<Rightarrow> peer_registry
     \<Rightarrow> unit result \<times> string list \<times> peer_registry" where
  "collect_acks wc aborted [] succeeded reg = (Inr (), succeeded, reg)"
| "collect_acks wc aborted (nid # ids) succeeded reg = (case reg nid of
      None \<Rightarrow> collect_acks wc aborted ids succeeded reg
    | Some e \<Rightarrow>
        (case recv_skipping_heartbeat_acks (wc_crc wc) (we_reader e) of (res, r) \<Rightarrow>
           (let reg' = reg(nid \<mapsto> e\<lparr>we_reader := r\<rparr>)
            in case res of
                 Inl err \<Rightarrow> (Inl err, succeeded, abort_rest aborted ids reg')
               | Inr (header, payload) \<Rightarrow>
                   if msg_type header = ErrorMsg
                   then (case deserialize_payload (de_error wc) payload of
                           Inl err \<Rightarrow> (Inl err, succeeded, abort_rest aborted ids reg')
                         | Inr _ \<Rightarrow> (Inl (Pipeline ''worker {} failed CacheAlloc: {} (code {:?})''), succeeded,
                                    abort_rest aborted ids reg'))
                   else if msg_type header \<noteq> CacheAllocAck
                   then (Inl (Protocol ''expected CacheAllocAck from {}, got {:?}''), succeeded, abort_rest aborted ids reg')
                   else collect_acks wc aborted ids (succeeded @ [nid]) reg')))"

definition try_alloc_all ::
    "wire_codec \<Rightarrow> (string \<Rightarrow> framed_reader \<Rightarrow> framed_reader) \<Rightarrow> string list \<Rightarrow> dist_pipeline \<Rightarrow> u64 \<Rightarrow> peer_registry
     \<Rightarrow> unit result \<times> string list \<times> peer_registry" where
  "try_alloc_all wc aborted order p sid reg = (case send_each wc CacheAlloc sid (dp_order p) reg of
      (Inl e, reg') \<Rightarrow> (Inl e, [], reg')
    | (Inr _, reg') \<Rightarrow> collect_acks wc aborted order [] reg')"

definition alloc_cache ::
    "wire_codec \<Rightarrow> (string \<Rightarrow> framed_reader \<Rightarrow> framed_reader) \<Rightarrow> string list \<Rightarrow> u64 \<Rightarrow> dist_pipeline \<Rightarrow> peer_registry
     \<Rightarrow> unit result \<times> dist_pipeline \<times> peer_registry" where
  "alloc_cache wc aborted order sid p reg =
     (if sid \<in> dp_allocated p
      then (Inl (Pipeline ''duplicate alloc_cache for seq {seq_id}: cache already allocated''), p, reg)
      else (case try_alloc_all wc aborted order p sid reg of
              (Inl e, succeeded, reg') \<Rightarrow> (Inl e, p, send_where (\<lambda>_. True) wc CacheFree sid succeeded reg')
            | (Inr _, _, reg') \<Rightarrow> (Inr (), p\<lparr>dp_allocated := insert sid (dp_allocated p)\<rparr>, reg')))"

definition free_cache :: "wire_codec \<Rightarrow> u64 \<Rightarrow> dist_pipeline \<Rightarrow> peer_registry \<Rightarrow> unit result \<times> dist_pipeline \<times> peer_registry" where
  "free_cache wc sid p reg =
     (if sid \<notin> dp_allocated p
      then (Inl (Pipeline ''free_cache for seq {seq_id}: not allocated or already freed''), p, reg)
      else (case send_each wc CacheFree sid (dp_order p) reg of
              (r, reg') \<Rightarrow> (r, p\<lparr>dp_allocated := dp_allocated p - {sid}\<rparr>, reg')))"

definition free_cache_best_effort :: "wire_codec \<Rightarrow> u64 \<Rightarrow> dist_pipeline \<Rightarrow> peer_registry \<Rightarrow> dist_pipeline \<times> peer_registry" where
  "free_cache_best_effort wc sid p reg =
     (p\<lparr>dp_allocated := dp_allocated p - {sid}\<rparr>,
      send_where (\<lambda>e. we_status e = Ready) wc CacheFree sid (dp_order p) reg)"

text \<open>\<open>drain()\<close> yields the sequences in the order \<open>sids\<close>.\<close>

definition abort_all_sequences ::
    "wire_codec \<Rightarrow> u64 list \<Rightarrow> dist_pipeline \<Rightarrow> peer_registry \<Rightarrow> u64 list \<times> dist_pipeline \<times> peer_registry" where
  "abort_all_sequences wc sids p reg =
     (sids, p\<lparr>dp_allocated := {}\<rparr>,
      fold (\<lambda>sid. send_where (\<lambda>e. we_status e = Ready) wc CacheFree sid (dp_order p)) sids reg)"

subsection \<open>Forward passes\<close>

text \<open>One request and its answer.\<close>

definition exchange ::
    "wire_codec \<Rightarrow> ('p \<Rightarrow> string + byte list) \<Rightarrow> message_type \<Rightarrow> u64 \<Rightarrow> 'p \<Rightarrow> worker_entry
     \<Rightarrow> (frame_header \<times> byte list) result \<times> worker_entry" where
  "exchange wc ser mt sid payload e = (case send (wc_crc wc) ser mt sid payload (we_writer e) of
      (Inl err, w) \<Rightarrow> (Inl err, e\<lparr>we_writer := w\<rparr>)
    | (Inr _, w) \<Rightarrow> (case recv_skipping_heartbeat_acks (wc_crc wc) (we_reader e) of
          (res, r) \<Rightarrow> (res, e\<lparr>we_writer := w, we_reader := r\<rparr>)))"

definition forward_output :: "wire_codec \<Rightarrow> frame_header \<Rightarrow> byte list \<Rightarrow> forward_output_wire result" where
  "forward_output wc header payload =
     (if msg_type header = ErrorMsg
      then rbind (deserialize_payload (de_error wc) payload) (\<lambda>_.
             Inl (Pipeline ''worker {} returned error: {} (code {:?})''))
      else if msg_type header \<noteq> ForwardResult
      then Inl (Protocol ''expected ForwardResult from {}, got {:?}'')
      else rbind (deserialize_payload (de_forward_result wc) payload) (\<lambda>res. Inr (fr_output res)))"

text \<open>What a stage's output is turned into: the result of the tail, or the input of the next stage.\<close>

definition next_input :: "dist_pipeline \<Rightarrow> bool \<Rightarrow> forward_output_wire \<Rightarrow> (f32 list + forward_input_wire) result" where
  "next_input p is_last out = (case out of
      Logits bs \<Rightarrow>
        if \<not> is_last then Inl (Pipeline ''non-tail worker {} returned logits (expected activations)'')
        else Inr (Inl (f32s_of_bytes bs))
    | OutActivations th td \<Rightarrow>
        if is_last then Inl (Pipeline ''tail worker {} returned activations (expected logits)'')
        else if wshape th \<noteq> [] \<and> unat (last (wshape th)) \<noteq> dp_hidden_size p
        then Inl (Pipeline ''worker {} returned activation with last dim {}, expected hidden_size {}'')
        else Inr (Inr (InActivations th td)))"

fun forward_stages ::
    "wire_codec \<Rightarrow> dist_pipeline \<Rightarrow> u64 \<Rightarrow> u32 list \<Rightarrow> bool \<Rightarrow> forward_input_wire \<Rightarrow> string list \<Rightarrow> peer_registry
     \<Rightarrow> f32 list result \<times> peer_registry" where
  "forward_stages wc p sid positions is_prefill input [] reg =
     (Inl (Pipeline ''pipeline completed without producing logits''), reg)"
| "forward_stages wc p sid positions is_prefill input (nid # ids) reg = (case reg nid of
      None \<Rightarrow> (Inl (Pipeline ''worker {node_id} not found in registry''), reg)
    | Some e \<Rightarrow>
        (case exchange wc (ser_forward wc) Forward sid
                \<lparr>fp_is_prefill = is_prefill, fp_positions = positions, fp_input = input\<rparr> e of (res, e') \<Rightarrow>
           (let reg' = reg(nid \<mapsto> e')
            in case rbind res (\<lambda>(header, payload).
                      rbind (forward_output wc header payload) (next_input p (ids = []))) of
                 Inl err \<Rightarrow> (Inl err, reg')
               | Inr (Inl logits) \<Rightarrow> (Inr logits, reg')
               | Inr (Inr input') \<Rightarrow> forward_stages wc p sid positions is_prefill input' ids reg')))"

definition forward ::
    "wire_codec \<Rightarrow> u64 \<Rightarrow> u32 list \<Rightarrow> u32 list \<Rightarrow> bool \<Rightarrow> dist_pipeline \<Rightarrow> peer_registry \<Rightarrow> f32 list result \<times> peer_registry" where
  "forward wc sid token_ids positions is_prefill p reg =
     (if sid \<notin> dp_allocated p
      then (Inl (Pipeline ''forward for seq {seq_id}: cache not allocated (call alloc_cache first)''), reg)
      else forward_stages wc p sid positions is_prefill (TokenIds token_ids) (dp_order p) reg)"

definition batched_output :: "wire_codec \<Rightarrow> frame_header \<Rightarrow> byte list \<Rightarrow> forward_output_wire result" where
  "batched_output wc header payload =
     (if msg_type header = ErrorMsg
      then rbind (deserialize_payload (de_error wc) payload) (\<lambda>_.
             Inl (Pipeline ''worker {} returned error during batched forward: {} (code {:?})''))
      else if msg_type header = BatchedForwardResult
      then rbind (deserialize_payload (de_batched_result wc) payload) (\<lambda>res. Inr (br_output res))
      else if msg_type header = ForwardResult
      then rbind (deserialize_payload (de_forward_result wc) payload) (\<lambda>res. Inr (fr_output res))
      else Inl (Protocol ''expected BatchedForwardResult from {}, got {:?}''))"

definition next_batched_input :: "usize \<Rightarrow> bool \<Rightarrow> forward_output_wire \<Rightarrow> (f32 list list + forward_input_wire) result" where
  "next_batched_input n is_last out = (case out of
      Logits bs \<Rightarrow>
        if \<not> is_last then Inl (Pipeline ''non-tail worker {} returned logits in batched forward'')
        else Inr (Inl (split_logits_per_sequence bs n))
    | OutActivations th td \<Rightarrow>
        if is_last then Inl (Pipeline ''tail worker {} returned activations in batched forward'')
        else Inr (Inr (InActivations th td)))"

fun batched_stages ::
    "wire_codec \<Rightarrow> sequence_metadata_wire list \<Rightarrow> bool \<Rightarrow> forward_input_wire \<Rightarrow> string list \<Rightarrow> peer_registry
     \<Rightarrow> f32 list list result \<times> peer_registry" where
  "batched_stages wc seqs is_prefill input [] reg =
     (Inl (Pipeline ''batched pipeline completed without producing logits''), reg)"
| "batched_stages wc seqs is_prefill input (nid # ids) reg = (case reg nid of
      None \<Rightarrow> (Inl (Pipeline ''worker {node_id} not found in registry''), reg)
    | Some e \<Rightarrow>
        (case exchange wc (ser_batched wc) BatchedForward (case seqs of [] \<Rightarrow> 0 | s # _ \<Rightarrow> sm_seq_id s)
                \<lparr>bf_is_prefill = is_prefill, bf_sequences = seqs, bf_input = input\<rparr> e of (res, e') \<Rightarrow>
           (let reg' = reg(nid \<mapsto> e')
            in case rbind res (\<lambda>(header, payload).
                      rbind (batched_output wc header payload) (next_batched_input (length seqs) (ids = []))) of
                 Inl err \<Rightarrow> (Inl err, reg')
               | Inr (Inl logits) \<Rightarrow> (Inr logits, reg')
               | Inr (Inr input') \<Rightarrow> batched_stages wc seqs is_prefill input' ids reg')))"

definition batched_forward ::
    "wire_codec \<Rightarrow> sequence_metadata_wire list \<Rightarrow> u32 list \<Rightarrow> bool \<Rightarrow> dist_pipeline \<Rightarrow> peer_registry
     \<Rightarrow> f32 list list result \<times> peer_registry" where
  "batched_forward wc seqs all_token_ids is_prefill p reg =
     (case rforeach (\<lambda>s _. ensure (sm_seq_id s \<in> dp_allocated p)
              (Pipeline ''batched_forward: seq {} cache not allocated'')) seqs () of
        Inl e \<Rightarrow> (Inl e, reg)
      | Inr _ \<Rightarrow> batched_stages wc seqs is_prefill (TokenIds all_token_ids) (dp_order p) reg)"

end
