(* ===== verification/Layer_Plan.thy ===== *)
theory Layer_Plan
  imports Layer_Scheduler
begin

text \<open>
  Correctness of the layer scheduler. A mode first plans which nodes take part and how many layers
  each of them gets, and \<open>build_result\<close> turns the plan into ranges. The locale \<open>layer_plan\<close> is the
  contract of a plan: all layers are handed out, to candidates only, and nobody gets more than its
  memory holds. What the scheduler promises follows from the contract once, and the three modes
  are interpretations of it.
\<close>

subsection \<open>Ranges that tile an interval\<close>

fun tiles :: "nat \<Rightarrow> layer_assignment list \<Rightarrow> nat \<Rightarrow> bool" where
  "tiles s [] e \<longleftrightarrow> s = e"
| "tiles s (a # as) e \<longleftrightarrow> la_start a = s \<and> s \<le> la_end a \<and> tiles (la_end a) as e"

definition holds_layer :: "layer_assignment \<Rightarrow> nat \<Rightarrow> bool" where
  "holds_layer a l \<longleftrightarrow> la_start a \<le> l \<and> l < la_end a"

lemma tiles_le: "tiles s as e \<Longrightarrow> s \<le> e"
  by (induction s as e rule: tiles.induct) auto

lemma tiles_ge: "tiles s as e \<Longrightarrow> k < length as \<Longrightarrow> s \<le> la_start (as ! k)"
proof (induction s as e arbitrary: k rule: tiles.induct)
  case (2 s a as e)
  then show ?case by (cases k) fastforce+
qed simp

lemma tiles_unique:
  assumes "tiles s as e" and "s \<le> l" and "l < e"
  shows "\<exists>!k. k < length as \<and> holds_layer (as ! k) l"
  using assms
proof (induction s as e rule: tiles.induct)
  case (2 s a as e)
  show ?case
  proof (cases "l < la_end a")
    case True
    have "\<not> holds_layer (as ! k) l" if "k < length as" for k
      using tiles_ge [of "la_end a" as e k] 2(2) that True by (simp add: holds_layer_def)
    then have "k = 0" if "k < length (a # as)" "holds_layer ((a # as) ! k) l" for k
      using that by (cases k) auto
    moreover have "holds_layer ((a # as) ! 0) l" using 2 True by (simp add: holds_layer_def)
    ultimately show ?thesis by blast
  next
    case False
    then have ex: "\<exists>!k. k < length as \<and> holds_layer (as ! k) l" using 2 by simp
    have no: "\<not> holds_layer a l" using False by (simp add: holds_layer_def)
    from ex obtain k where k: "k < length as" "holds_layer (as ! k) l" by blast
    show ?thesis
    proof (rule ex1I [of _ "Suc k"])
      fix j assume j: "j < length (a # as) \<and> holds_layer ((a # as) ! j) l"
      then show "j = Suc k" using no ex k by (cases j) auto
    qed (use k in simp)
  qed
qed simp

lemma length_build [simp]: "length (build_assignments inp n i s wcs) = length wcs"
  by (induction inp n i s wcs rule: build_assignments.induct) (simp_all add: Let_def)

lemma tiles_build: "tiles s (build_assignments inp n i s wcs) (s + sum_list (map snd wcs))"
  by (induction inp n i s wcs rule: build_assignments.induct) (simp_all add: Let_def add.assoc)

lemma build_nth:
  assumes "k < length wcs"
  shows "la_node_id (build_assignments inp n i s wcs ! k) = node_id (fst (wcs ! k))
    \<and> la_end (build_assignments inp n i s wcs ! k)
        = la_start (build_assignments inp n i s wcs ! k) + snd (wcs ! k)
    \<and> la_role (build_assignments inp n i s wcs ! k)
        = (if i + k = 0 then Head else if i + k = n - 1 then Tail else Middle)"
  using assms
proof (induction inp n i s wcs arbitrary: k rule: build_assignments.induct)
  case (2 inp n i start w count rest)
  then show ?case by (cases k) (simp_all add: Let_def)
qed simp

lemma enum_eq_Nil [simp]: "enum xs = [] \<longleftrightarrow> xs = []"
  by (metis length_0_conv length_enum)

lemma build_result_Some:
  assumes "build_result inp cs counts ex = Some r"
  shows "\<exists>res. r = Inr res \<and> assignments res = build_assignments inp (length cs) 0 0 (zip cs counts)
    \<and> excluded_nodes res = ex"
  using assms by (auto simp: build_result_def Let_def split: if_splits)

lemma build_result_no_panic:
  assumes "length counts = length cs" and "cs \<noteq> []"
  shows "build_result inp cs counts ex \<noteq> None"
proof -
  let ?ts = "map expected_decode_ms (build_assignments inp (length cs) 0 0 (zip cs counts))"
  have "i < length cs" if "max_by cmp (enum ?ts) = Some (i, t)" for cmp i t
    using max_by_in [OF that] assms(1) by (simp add: in_set_enum)
  then show ?thesis
    using assms(2) by (auto simp: build_result_def Let_def split: option.splits)
qed

subsection \<open>The contract of a plan\<close>

type_synonym plan = "worker_capabilities list \<times> usize list \<times> excluded_node list"

definition finish_plan :: "scheduler_input \<Rightarrow> plan result \<Rightarrow> scheduler_result result option" where
  "finish_plan inp p = (case p of Inl e \<Rightarrow> Some (Inl e)
     | Inr (ws, counts, ex) \<Rightarrow> build_result inp ws counts ex)"

text \<open>What a node with \<open>count\<close> layers needs, in bytes: its layers' weights and caches and the
  tables of its role.\<close>

definition bytes_needed :: "scheduler_input \<Rightarrow> nat \<Rightarrow> nat \<Rightarrow> usize \<Rightarrow> usize" where
  "bytes_needed inp n i count = count * per_layer_bytes inp + role_overhead i n (in_config inp)"

lemma node_max_fits:
  assumes "count \<le> node_max (in_config inp) (per_layer_bytes inp) n i w"
  shows "count = 0 \<or> bytes_needed inp n i count \<le> gpu_memory_available w"
proof (cases "count = 0")
  case False
  let ?b = "per_layer_bytes inp" and ?o = "role_overhead i n (in_config inp)" and ?m = "gpu_memory_available w"
  have b: "?b \<noteq> 0" and le: "count \<le> (?m - ?o) div ?b"
    using assms False
    by (auto simp: node_max_def max_layers_for_node_def checked_div_usize_def Let_def split: if_splits)
  then have "count * ?b \<le> ?m - ?o" using less_eq_div_iff_mult_less_eq [of ?b count "?m - ?o"] by simp
  moreover have "0 < count * ?b" using False b by simp
  ultimately show ?thesis unfolding bytes_needed_def by linarith
qed simp

locale layer_plan =
  fixes plan :: "scheduler_input \<Rightarrow> worker_capabilities list \<Rightarrow> plan result"
  assumes plan_length: "plan inp cs = Inr (ws, counts, ex) \<Longrightarrow> length counts = length ws"
    and plan_members: "plan inp cs = Inr (ws, counts, ex) \<Longrightarrow> set ws \<subseteq> set cs"
    and plan_total: "\<lbrakk>cs \<noteq> []; plan inp cs = Inr (ws, counts, ex)\<rbrakk>
          \<Longrightarrow> sum_list counts = num_layers (in_config inp)"
    and plan_ceiling: "\<lbrakk>plan inp cs = Inr (ws, counts, ex); i < length ws\<rbrakk>
          \<Longrightarrow> counts ! i \<le> node_max (in_config inp) (per_layer_bytes inp) (length ws) i (ws ! i)"
    and plan_distinct: "\<lbrakk>plan inp cs = Inr (ws, counts, ex); distinct (map node_id cs)\<rbrakk> \<Longrightarrow> distinct (map node_id ws)"
begin

lemma finished:
  assumes "finish_plan inp (plan inp cs) = Some (Inr res)"
  obtains ws counts ex where "plan inp cs = Inr (ws, counts, ex)"
    and "assignments res = build_assignments inp (length ws) 0 0 (zip ws counts)"
    and "length counts = length ws"
proof -
  from assms obtain ws counts ex where p: "plan inp cs = Inr (ws, counts, ex)"
      and b: "build_result inp ws counts ex = Some (Inr res)"
    by (auto simp: finish_plan_def split: sum.splits)
  with build_result_Some [OF b] plan_length [OF p] show thesis by (auto intro: that)
qed

lemma covers:
  assumes "cs \<noteq> []" and "finish_plan inp (plan inp cs) = Some (Inr res)"
  shows "tiles 0 (assignments res) (num_layers (in_config inp))"
  using assms(2)
proof (rule finished)
  fix ws counts ex
  assume p: "plan inp cs = Inr (ws, counts, ex)" and l: "length counts = length ws"
    and a: "assignments res = build_assignments inp (length ws) 0 0 (zip ws counts)"
  have "sum_list (map snd (zip ws counts)) = num_layers (in_config inp)"
    using plan_total [OF assms(1) p] l by simp
  then show ?thesis using tiles_build [of 0 inp "length ws" 0 "zip ws counts"] by (simp add: a)
qed

lemma nodes:
  assumes "finish_plan inp (plan inp cs) = Some (Inr res)"
  shows "la_node_id ` set (assignments res) \<subseteq> node_id ` set cs
    \<and> (distinct (map node_id cs) \<longrightarrow> distinct (map la_node_id (assignments res)))"
  using assms
proof (rule finished)
  fix ws counts ex
  assume p: "plan inp cs = Inr (ws, counts, ex)" and l: "length counts = length ws"
    and a: "assignments res = build_assignments inp (length ws) 0 0 (zip ws counts)"
  have "map la_node_id (assignments res) = map node_id ws"
    using build_nth [of _ "zip ws counts" inp "length ws" 0 0] l by (intro nth_equalityI) (simp_all add: a)
  then show ?thesis
    using plan_members [OF p] plan_distinct [OF p] by (metis image_mono image_set)
qed

lemma fits_memory:
  assumes "finish_plan inp (plan inp cs) = Some (Inr res)" and "k < length (assignments res)"
    and "la_start (assignments res ! k) < la_end (assignments res ! k)"
  shows "\<exists>w \<in> set cs. node_id w = la_node_id (assignments res ! k)
    \<and> bytes_needed inp (length (assignments res)) k
        (la_end (assignments res ! k) - la_start (assignments res ! k)) \<le> gpu_memory_available w"
  using assms(1)
proof (rule finished)
  fix ws counts ex
  assume p: "plan inp cs = Inr (ws, counts, ex)" and l: "length counts = length ws"
    and a: "assignments res = build_assignments inp (length ws) 0 0 (zip ws counts)"
  have k: "k < length ws" using assms(2) l by (simp add: a)
  note bn = build_nth [of k "zip ws counts" inp "length ws" 0 0]
  have ids: "la_node_id (assignments res ! k) = node_id (ws ! k)"
    and cnt: "la_end (assignments res ! k) - la_start (assignments res ! k) = counts ! k"
    using bn k l by (simp_all add: a)
  have "counts ! k \<noteq> 0" using cnt assms(3) by simp
  then have "bytes_needed inp (length ws) k (counts ! k) \<le> gpu_memory_available (ws ! k)"
    using node_max_fits [OF plan_ceiling [OF p k]] by simp
  moreover have "ws ! k \<in> set cs" using plan_members [OF p] k by auto
  moreover have "length (assignments res) = length ws" using l by (simp add: a)
  ultimately show ?thesis using ids cnt by auto
qed

lemma no_panic:
  assumes "cs \<noteq> []" and "0 < num_layers (in_config inp)"
  shows "finish_plan inp (plan inp cs) \<noteq> None"
proof (cases "plan inp cs")
  case (Inr p)
  obtain ws counts ex where p: "p = (ws, counts, ex)" by (cases p)
  have "ws \<noteq> []"
    using plan_total [OF assms(1) Inr [unfolded p]] plan_length [OF Inr [unfolded p]] assms(2) by auto
  then show ?thesis
    using build_result_no_panic plan_length [OF Inr [unfolded p]] by (simp add: finish_plan_def Inr p)
qed (simp add: finish_plan_def)

end

end
