(* ===== verification/Layer_Modes.thy ===== *)
theory Layer_Modes
  imports Layer_Plan
begin

text \<open>
  The three scheduling modes as instances of the contract of a plan, and what is particular to
  each: pruning only ever lowers the latency estimate, redistribution succeeds when there is room,
  an equal split is equal, and manual ranges in layer order are kept.
\<close>

subsection \<open>Choosing a node in a scan\<close>

text \<open>The scans of \<open>redistribute_layers\<close>: the last node that satisfies \<open>P\<close> and improves on the best
  key so far.\<close>

lemma scan_in:
  assumes "fst (foldl (\<lambda>(b, k) (i, w). if P i w \<and> better k (key w) then (Some i, key w) else (b, k))
      (b0, k0) xs) = Some i"
  shows "b0 = Some i \<or> (\<exists>w. (i, w) \<in> set xs \<and> P i w)"
  using assms
proof (induction xs arbitrary: b0 k0)
  case (Cons x xs)
  obtain j w where x: "x = (j, w)" by (cases x)
  show ?case
  proof (cases "P j w \<and> better k0 (key w)")
    case True
    then show ?thesis using Cons.IH [of "Some j" "key w"] Cons.prems by (auto simp: x)
  next
    case False
    then show ?thesis using Cons.IH [of b0 k0] Cons.prems by (auto simp: x split: if_splits)
  qed
qed simp

lemma scan_found:
  assumes "(j, w) \<in> set xs" and "P j w" and "better k0 (key w)"
  shows "fst (foldl (\<lambda>(b, k) (i, w). if P i w \<and> better k (key w) then (Some i, key w) else (b, k))
      (b0, k0) xs) \<noteq> None"
proof -
  let ?f = "\<lambda>(b, k) (i, w). if P i w \<and> better k (key w) then (Some i, key w) else (b, k)"
  have keep: "fst (foldl ?f (Some i, k) ys) \<noteq> None" for i k ys
    by (induction ys arbitrary: i k) (auto split: prod.splits)
  show ?thesis
    using assms
  proof (induction xs arbitrary: b0)
    case (Cons x xs)
    obtain i v where x: "x = (i, v)" by (cases x)
    show ?case
    proof (cases "P i v \<and> better k0 (key v)")
      case True
      then show ?thesis using keep [of i "key v" xs] by (simp add: x)
    next
      case False
      then have "(j, w) \<in> set xs" using Cons.prems x by auto
      then show ?thesis using Cons.IH Cons.prems(2,3) False by (auto simp: x)
    qed
  qed simp
qed

lemma best_to_grow_Some:
  "best_to_grow cs counts plt config = Some i \<Longrightarrow>
     i < length cs \<and> counts ! i < node_max config plt (length cs) i (cs ! i)"
  unfolding best_to_grow_def
  by (drule scan_in [where P = "\<lambda>i w. counts ! i < node_max config plt (length cs) i w"]) (auto simp: in_set_enum)

lemma worst_to_shrink_Some:
  "worst_to_shrink cs counts = Some i \<Longrightarrow> i < length cs \<and> 0 < counts ! i"
  unfolding worst_to_shrink_def
  by (drule scan_in [where P = "\<lambda>i w. 0 < counts ! i" and better = "\<lambda>k s. f32_lt s k"]) (auto simp: in_set_enum)

subsection \<open>Redistribution\<close>

definition within :: "model_config \<Rightarrow> usize \<Rightarrow> worker_capabilities list \<Rightarrow> usize list \<Rightarrow> bool" where
  "within config plt cs counts \<longleftrightarrow> length counts = length cs
     \<and> (\<forall>i < length cs. counts ! i \<le> node_max config plt (length cs) i (cs ! i))"

lemma within_update:
  assumes "within config plt cs counts" and "v \<le> node_max config plt (length cs) i (cs ! i)"
  shows "within config plt cs (counts[i := v])"
proof -
  have "counts[i := v] ! j \<le> node_max config plt (length cs) j (cs ! j)" if "j < length cs" for j
    using assms that by (cases "j = i") (auto simp: within_def)
  then show ?thesis using assms(1) by (simp add: within_def)
qed

lemma sum_list_increment: "i < length xs \<Longrightarrow> sum_list (xs[i := xs ! i + 1]) = sum_list xs + (1 :: nat)"
  using sum_list_map_update [of i xs "xs ! i + 1"] by simp

lemma sum_list_decrement:
  "i < length xs \<Longrightarrow> 0 < xs ! i \<Longrightarrow> sum_list (xs[i := xs ! i - 1]) = sum_list xs - (1 :: nat)"
  using sum_list_map_update [of i xs "xs ! i - 1"] by simp

lemma add_layers_ok:
  assumes "add_layers cs num plt config counts tot = Inr (counts', tot')"
    and "within config plt cs counts" and "tot = sum_list counts"
  shows "within config plt cs counts' \<and> tot' = sum_list counts' \<and> num \<le> tot'"
  using assms
proof (induction cs num plt config counts tot rule: add_layers.induct)
  case (1 cs num plt config counts tot)
  show ?case
  proof (cases "tot < num")
    case True
    then obtain i where i: "best_to_grow cs counts plt config = Some i"
      using "1.prems"(1) by (subst (asm) add_layers.simps) (auto split: option.splits)
    note bi = best_to_grow_Some [OF i]
    have "add_layers cs num plt config (counts[i := counts ! i + 1]) (tot + 1) = Inr (counts', tot')"
      using "1.prems"(1) True i by (subst (asm) add_layers.simps) simp
    then show ?thesis
      using "1.IH" [OF True i] within_update [OF "1.prems"(2), of "counts ! i + 1" i] bi "1.prems"(2,3)
        sum_list_increment [of i counts] by (simp add: within_def)
  next
    case False
    then show ?thesis using "1.prems" by (subst (asm) add_layers.simps) auto
  qed
qed

lemma remove_layers_ok:
  assumes "remove_layers cs num counts tot = (counts', tot')"
    and "within config plt cs counts" and "tot = sum_list counts" and "num \<le> tot"
  shows "within config plt cs counts' \<and> tot' = sum_list counts' \<and> num \<le> tot'"
  using assms
proof (induction cs num counts tot rule: remove_layers.induct)
  case (1 cs num counts tot)
  show ?case
  proof (cases "num < tot \<and> worst_to_shrink cs counts \<noteq> None")
    case True
    then obtain i where i: "worst_to_shrink cs counts = Some i" by auto
    note wi = worst_to_shrink_Some [OF i]
    have "remove_layers cs num (counts[i := counts ! i - 1]) (tot - 1) = (counts', tot')"
      using "1.prems"(1) True i by (subst (asm) remove_layers.simps) simp
    moreover have "counts ! i - 1 \<le> node_max config plt (length cs) i (cs ! i)"
      using "1.prems"(2) wi by (auto simp: within_def intro: order.trans [of _ "counts ! i"])
    moreover have "i < length counts" using "1.prems"(2) wi by (simp add: within_def)
    ultimately show ?thesis
      using True i within_update [OF "1.prems"(2)] wi "1.prems"(3,4) sum_list_decrement [of i counts]
      by (intro "1.IH" [of i]) auto
  next
    case False
    then show ?thesis using "1.prems"
      by (subst (asm) remove_layers.simps) (auto split: if_splits option.splits)
  qed
qed

lemma redistribute_ok:
  assumes "redistribute_layers counts cs num plt config = Inr counts'" and "within config plt cs counts"
  shows "within config plt cs counts' \<and> sum_list counts' = num"
proof -
  obtain c1 t1 where 1: "add_layers cs num plt config counts (sum_list counts) = Inr (c1, t1)"
    using assms(1) by (cases "add_layers cs num plt config counts (sum_list counts)")
      (auto simp: redistribute_layers_def)
  obtain c2 t2 where 2: "remove_layers cs num c1 t1 = (c2, t2)" by fastforce
  have "t2 = num" "counts' = c2"
    using assms(1) by (auto simp: redistribute_layers_def 1 2 split: if_splits)
  with add_layers_ok [OF 1 assms(2) refl] remove_layers_ok [OF 2] show ?thesis by blast
qed

subsection \<open>Auto\<close>

text \<open>One round of pruning.\<close>

definition prunes ::
    "usize \<Rightarrow> usize \<Rightarrow> model_config \<Rightarrow> f32 \<Rightarrow> worker_capabilities list \<Rightarrow> nat \<Rightarrow> bool" where
  "prunes num plt config hop cs i \<longleftrightarrow> 1 < length cs \<and> slowest_idx cs = Some i
     \<and> model_fits (remove_at i cs) num plt config
     \<and> f32_lt (estimate_pipeline_latency (remove_at i cs) num plt config hop)
          (estimate_pipeline_latency cs num plt config hop)"

lemma prune_slow_invariant:
  assumes "P cs ex"
    and step: "\<And>cs ex i. P cs ex \<Longrightarrow> prunes num plt config hop cs i \<Longrightarrow>
      P (remove_at i cs) (ex @ [\<lparr>ex_node_id = node_id (cs ! i), ex_reason = SlowsDownPipeline
        (estimate_pipeline_latency cs num plt config hop)
        (estimate_pipeline_latency (remove_at i cs) num plt config hop)\<rparr>])"
  shows "P (fst (prune_slow num plt config hop cs ex)) (snd (prune_slow num plt config hop cs ex))"
  using assms
proof (induction num plt config hop cs ex rule: prune_slow.induct)
  case (1 num plt config hop cs ex)
  show ?case
  proof (cases "\<exists>i. prunes num plt config hop cs i")
    case True
    then obtain i where i: "prunes num plt config hop cs i" ..
    show ?thesis
      using i "1.IH" [of i, OF _ _ refl refl refl _ refl] "1.prems"
      by (subst (1 2) prune_slow.simps) (simp add: prunes_def Let_def)
  next
    case False
    then show ?thesis using "1.prems"(1)
      by (subst (1 2) prune_slow.simps) (auto simp: prunes_def Let_def split: option.splits)
  qed
qed

lemma prune_slow_members:
  assumes "prune_slow num plt config hop cs ex = (ws, ex')"
  shows "set ws \<subseteq> set cs"
  using prune_slow_invariant [of "\<lambda>ws ex. set ws \<subseteq> set cs" cs ex num plt config hop] set_remove_at assms
  by fastforce

lemma distinct_map_remove_at: "distinct (map f xs) \<Longrightarrow> distinct (map f (remove_at i xs))"
proof -
  assume d: "distinct (map f xs)"
  have "map f (remove_at i xs) = take i (map f xs) @ drop (Suc i) (map f xs)" by (simp add: remove_at_def take_map drop_map)
  then show ?thesis using d set_take_disj_set_drop_if_distinct [OF d, of i "Suc i"] by simp
qed

lemma prune_slow_distinct:
  assumes "prune_slow num plt config hop cs ex = (ws, ex')" and "distinct (map node_id cs)"
  shows "distinct (map node_id ws)"
  using prune_slow_invariant [of "\<lambda>ws ex. distinct (map node_id ws)" cs ex num plt config hop] distinct_map_remove_at assms
  by fastforce

definition clamped_counts :: "scheduler_input \<Rightarrow> worker_capabilities list \<Rightarrow> usize list" where
  "clamped_counts inp cs = map (\<lambda>(i, w).
     min (map (ideal_layers (total_speed cs) (num_layers (in_config inp))) cs ! i)
         (node_max (in_config inp) (per_layer_bytes inp) (length cs) i w)) (enum cs)"

lemma clamped_within: "within (in_config inp) (per_layer_bytes inp) cs (clamped_counts inp cs)"
  by (simp add: within_def clamped_counts_def)

definition plan_auto :: "scheduler_input \<Rightarrow> worker_capabilities list \<Rightarrow> plan result" where
  "plan_auto inp cs0 =
     (let num = num_layers (in_config inp);
          (cs, ex) = prune_slow num (per_layer_bytes inp) (in_config inp) (hop_latency_ms inp) cs0 []
      in rbind (redistribute_layers (clamped_counts inp cs) cs num (per_layer_bytes inp) (in_config inp))
           (\<lambda>counts. Inr (cs, counts, ex)))"

lemma schedule_auto_plan: "schedule_auto inp cs = finish_plan inp (plan_auto inp cs)"
  by (simp add: schedule_auto_def plan_auto_def finish_plan_def clamped_counts_def Let_def split_beta rbind_def
      split: sum.splits)

interpretation auto_mode: layer_plan plan_auto
proof -
  have *: "within (in_config inp) (per_layer_bytes inp) ws counts
      \<and> sum_list counts = num_layers (in_config inp) \<and> set ws \<subseteq> set cs
      \<and> (distinct (map node_id cs) \<longrightarrow> distinct (map node_id ws))"
    if "plan_auto inp cs = Inr (ws, counts, ex)" for inp cs ws counts ex
  proof -
    from that obtain ex' where p: "prune_slow (num_layers (in_config inp)) (per_layer_bytes inp) (in_config inp)
          (hop_latency_ms inp) cs [] = (ws, ex')"
      and r: "redistribute_layers (clamped_counts inp ws) ws (num_layers (in_config inp))
          (per_layer_bytes inp) (in_config inp) = Inr counts"
      by (auto simp: plan_auto_def rbind_eq_Inr Let_def split: prod.splits)
    show ?thesis using redistribute_ok [OF r clamped_within] prune_slow_members [OF p] prune_slow_distinct [OF p] by blast
  qed
  show "layer_plan plan_auto"
    by unfold_locales (use * in \<open>auto simp: within_def\<close>)
qed

subsection \<open>Equal split\<close>

lemma sum_list_bumps:
  "\<forall>i \<in> set is. i < length xs \<Longrightarrow>
     sum_list (foldl (\<lambda>c i. c[i := c ! i + 1]) xs is) = sum_list xs + (length is :: nat)"
  by (induction "is" arbitrary: xs) (simp_all add: sum_list_increment del: One_nat_def)

lemma length_bumps [simp]: "length (foldl (\<lambda>c i. c[i := f c i]) xs is) = length xs"
  by (induction "is" arbitrary: xs) simp_all

lemma nth_bumps:
  assumes "distinct is" and "j < length xs"
  shows "foldl (\<lambda>c i. c[i := c ! i + 1]) xs is ! j = xs ! j + (if j \<in> set is then 1 else (0 :: nat))"
  using assms
proof (induction "is" arbitrary: xs)
  case (Cons i "is")
  then show ?case using Cons.IH [of "xs[i := xs ! i + 1]"] by (cases "j = i") auto
qed simp

lemma equal_counts_length [simp]: "length (equal_counts num cs) = length cs"
  by (simp add: equal_counts_def Let_def)

lemma equal_counts_sum:
  assumes "cs \<noteq> []"
  shows "sum_list (equal_counts num cs) = num"
proof -
  let ?n = "length cs"
  let ?order = "sort_key (\<lambda>i. - int (gpu_memory_available (cs ! i))) [0..<?n]"
  have lt: "num mod ?n < ?n" using assms by simp
  have "sum_list (equal_counts num cs) = sum_list (replicate ?n (num div ?n)) + length (take (num mod ?n) ?order)"
    unfolding equal_counts_def Let_def by (rule sum_list_bumps) (auto dest: in_set_takeD)
  also have "\<dots> = ?n * (num div ?n) + num mod ?n" using lt by (simp add: sum_list_replicate)
  also have "\<dots> = num" by simp
  finally show ?thesis .
qed

lemma equal_counts_nth:
  assumes "j < length cs"
  shows "equal_counts num cs ! j = num div length cs + (if j \<in> set (take (num mod length cs)
     (sort_key (\<lambda>i. - int (gpu_memory_available (cs ! i))) [0..<length cs])) then 1 else 0)"
  unfolding equal_counts_def Let_def using assms by (subst nth_bumps) (simp_all add: distinct_take)

definition plan_equal :: "scheduler_input \<Rightarrow> worker_capabilities list \<Rightarrow> plan result" where
  "plan_equal inp cs =
     (let counts = equal_counts (num_layers (in_config inp)) cs
      in rbind (rforeach (\<lambda>(i, w) _.
           ensure (\<not> counts ! i > node_max (in_config inp) (per_layer_bytes inp) (length cs) i w)
             (Pipeline ''node '{}' cannot hold {} layers (max {}): {:.1} GB available, needs {:.1} GB''))
           (enum cs) ()) (\<lambda>_. Inr (cs, counts, [])))"

lemma schedule_equal_plan: "schedule_equal inp cs = finish_plan inp (plan_equal inp cs)"
  by (simp add: schedule_equal_def plan_equal_def finish_plan_def Let_def rbind_def split: sum.splits)

lemma rforeach_ensure_enum:
  "rforeach (\<lambda>(i, w) _. ensure (P i w) (e i w)) (enum cs) () = Inr u \<longleftrightarrow> (\<forall>i < length cs. P i (cs ! i))"
proof -
  have "rforeach (\<lambda>(i, w) _. ensure (P i w) (e i w)) xs () = Inr u \<longleftrightarrow> (\<forall>(i, w) \<in> set xs. P i w)" for xs
    by (induction xs) (auto simp: result_simps)
  then show ?thesis by (simp add: all_set_conv_all_nth)
qed

interpretation equal_mode: layer_plan plan_equal
proof -
  have *: "ws = cs \<and> counts = equal_counts (num_layers (in_config inp)) cs
      \<and> (\<forall>i < length cs. counts ! i \<le> node_max (in_config inp) (per_layer_bytes inp) (length cs) i (cs ! i))"
    if "plan_equal inp cs = Inr (ws, counts, ex)" for inp cs ws counts ex
    using that by (auto simp: plan_equal_def Let_def rbind_eq_Inr rforeach_ensure_enum not_less)
  show "layer_plan plan_equal"
    by unfold_locales (auto dest!: * simp: equal_counts_sum)
qed

subsection \<open>Manual\<close>

definition covered_count :: "bool list \<Rightarrow> nat" where
  "covered_count covered = length (filter id covered)"

lemma covered_count_set:
  "l < length covered \<Longrightarrow> \<not> covered ! l \<Longrightarrow> covered_count (covered[l := True]) = covered_count covered + 1"
proof (induction covered arbitrary: l)
  case (Cons c cs)
  then show ?case by (cases l) (auto simp: covered_count_def)
qed simp

definition range_len :: "manual_assignment \<Rightarrow> nat" where
  "range_len a = ma_end a - ma_start a"

lemma cover_range:
  assumes "rforeach (\<lambda>l covered. if covered ! l then Inl e else Inr (covered[l := True])) ls covered = Inr covered'"
    and "\<forall>l \<in> set ls. l < length covered"
  shows "length covered' = length covered \<and> covered_count covered' = covered_count covered + length ls"
  using assms
proof (induction ls arbitrary: covered)
  case (Cons l ls)
  then show ?case by (auto simp: covered_count_set split: if_splits)
qed simp

lemma cover_layers_count:
  assumes "cover_layers num as = Inr covered"
  shows "length covered = num \<and> covered_count covered = sum_list (map range_len as)"
proof -
  let ?body = "\<lambda>a covered. if ma_end a > num
     then Inl (Pipeline ''manual assignment for '{}' exceeds model layers: {:?} > {}'')
     else rforeach (\<lambda>l covered.
       if covered ! l then Inl (Pipeline ''manual assignment overlap at layer {l}'')
       else Inr (covered[l := True])) [ma_start a..<ma_end a] covered"
  have "length covered' = num \<and> covered_count covered' = covered_count covered + sum_list (map range_len as)"
    if "rforeach ?body as covered = Inr covered'" and "length covered = num" for covered covered'
    using that
  proof (induction as arbitrary: covered)
    case (Cons a as)
    then obtain c1 where e: "\<not> ma_end a > num" and c1: "rforeach (\<lambda>l covered.
          if covered ! l then Inl (Pipeline ''manual assignment overlap at layer {l}'')
          else Inr (covered[l := True])) [ma_start a..<ma_end a] covered = Inr c1"
      and r: "rforeach ?body as c1 = Inr covered'"
      by (auto simp: rbind_eq_Inr split: if_splits)
    have "length c1 = length covered \<and> covered_count c1 = covered_count covered + length [ma_start a..<ma_end a]"
      by (rule cover_range [OF c1]) (use Cons.prems(2) e in auto)
    then show ?case using Cons.IH [OF r] Cons.prems(2) by (simp add: range_len_def)
  qed simp
  from this [of "replicate num False" covered] show ?thesis
    using assms by (simp add: cover_layers_def covered_count_def)
qed

lemma all_covered: "\<forall>c \<in> set covered. c \<Longrightarrow> covered_count covered = length covered"
  by (induction covered) (auto simp: covered_count_def)

lemma place_manual_ok:
  assumes "place_manual inp cs as = Inr (ws, counts)"
  shows "length ws = length as \<and> counts = map range_len as \<and> set ws \<subseteq> set cs
    \<and> map node_id ws = map ma_node_id as
    \<and> (\<forall>i < length as. counts ! i \<le> node_max (in_config inp) (per_layer_bytes inp) (length as) i (ws ! i))"
proof -
  let ?n = "length as"
  let ?body = "\<lambda>a (ordered, layer_counts).
     rbind (ok_or (find (\<lambda>w. node_id w = ma_node_id a) cs)
              (Pipeline ''manual assignment references unknown node {}'')) (\<lambda>worker.
     let mx = node_max (in_config inp) (per_layer_bytes inp) ?n (length ordered) worker;
         count = ma_end a - ma_start a
     in if count > mx then Inl (Pipeline ''node '{}' cannot hold {} layers (max {})'')
        else Inr (ordered @ [worker], layer_counts @ [count]))"
  have "length ws = length os + length bs \<and> counts = lc @ map range_len bs \<and> set ws \<subseteq> set cs
      \<and> map node_id ws = map node_id os @ map ma_node_id bs
      \<and> (\<forall>i < length ws. counts ! i \<le> node_max (in_config inp) (per_layer_bytes inp) ?n i (ws ! i))"
    if "rforeach ?body bs (os, lc) = Inr (ws, counts)" and "length lc = length os" and "set os \<subseteq> set cs"
      and "\<forall>i < length os. lc ! i \<le> node_max (in_config inp) (per_layer_bytes inp) ?n i (os ! i)"
    for bs os lc
    using that
  proof (induction bs arbitrary: os lc)
    case (Cons b bs)
    let ?mx = "node_max (in_config inp) (per_layer_bytes inp) ?n (length os)"
    from Cons.prems(1) obtain w where w: "find (\<lambda>w. node_id w = ma_node_id b) cs = Some w"
      and c: "range_len b \<le> ?mx w"
      and r: "rforeach ?body bs (os @ [w], lc @ [range_len b]) = Inr (ws, counts)"
      by (auto simp: rbind_eq_Inr ok_or_eq_Inr Let_def range_len_def split: if_splits)
    from w have w': "w \<in> set cs" "node_id w = ma_node_id b" by (auto simp: find_Some_iff)
    have "\<forall>i < length (os @ [w]). (lc @ [range_len b]) ! i
        \<le> node_max (in_config inp) (per_layer_bytes inp) ?n i ((os @ [w]) ! i)"
      using Cons.prems(2,4) c by (auto simp: nth_append less_Suc_eq)
    then show ?case using Cons.IH [OF r] Cons.prems(2,3) w' by auto
  qed simp
  from this [of as "[]" "[]"] assms show ?thesis by (auto simp: place_manual_def)
qed

definition plan_manual ::
    "manual_assignment list \<Rightarrow> scheduler_input \<Rightarrow> worker_capabilities list \<Rightarrow> plan result" where
  "plan_manual as inp cs =
     rbind (check_unique_ids as) (\<lambda>_.
     rbind (cover_layers (num_layers (in_config inp)) as) (\<lambda>covered.
     rbind (ensure (\<not> (\<exists>c \<in> set covered. \<not> c))
             (Pipeline ''manual assignments have gaps at layers: {missing:?}'')) (\<lambda>_.
     rbind (place_manual inp cs as) (\<lambda>(ws, counts). Inr (ws, counts, [])))))"

lemma schedule_manual_plan: "schedule_manual inp cs as = finish_plan inp (plan_manual as inp cs)"
  by (auto simp: schedule_manual_def plan_manual_def finish_plan_def Let_def rbind_def split: sum.splits)

lemma plan_manual_ok:
  assumes "plan_manual as inp cs = Inr (ws, counts, ex)"
  shows "place_manual inp cs as = Inr (ws, counts) \<and> sum_list (map range_len as) = num_layers (in_config inp)"
proof -
  from assms obtain covered where c: "cover_layers (num_layers (in_config inp)) as = Inr covered"
      and all: "\<forall>c \<in> set covered. c" and p: "place_manual inp cs as = Inr (ws, counts)"
    by (auto simp: plan_manual_def rbind_eq_Inr ensure_eq_Inr)
  then show ?thesis using cover_layers_count [OF c] all_covered [OF all] by simp
qed

lemma check_unique_ids_ok:
  assumes "check_unique_ids as = Inr seen"
  shows "distinct (map ma_node_id as)"
proof -
  let ?f = "\<lambda>a seen. if ma_node_id a \<in> set seen then Inl (Pipeline ''manual assignment has duplicate node_id {}'')
     else Inr (ma_node_id a # seen)"
  have "distinct (map ma_node_id as) \<and> set (map ma_node_id as) \<inter> set s = {}" if "rforeach ?f as s = Inr s'" for as s s'
    using that
  proof (induction as arbitrary: s)
    case (Cons a as)
    then have n: "ma_node_id a \<notin> set s" and r: "rforeach ?f as (ma_node_id a # s) = Inr s'"
      by (auto simp: rbind_eq_Inr split: if_splits)
    show ?case using Cons.IH [OF r] n by auto
  qed simp
  then show ?thesis using assms unfolding check_unique_ids_def by blast
qed

interpretation manual_mode: layer_plan "plan_manual as"
proof -
  have d: "distinct (map node_id ws)" if "plan_manual as inp cs = Inr (ws, counts, ex)" for inp cs ws counts ex
  proof -
    from that obtain seen where "check_unique_ids as = Inr seen" by (auto simp: plan_manual_def rbind_eq_Inr)
    then show ?thesis using check_unique_ids_ok place_manual_ok plan_manual_ok [OF that] by metis
  qed
  show "layer_plan (plan_manual as)"
    by (unfold_locales; (erule d)?) (auto dest!: plan_manual_ok place_manual_ok)
qed

subsection \<open>The scheduler\<close>

text \<open>A successful run is a successful plan of the mode asked for.\<close>

definition plan_mode :: "scheduling_mode \<Rightarrow> scheduler_input \<Rightarrow> worker_capabilities list \<Rightarrow> plan result" where
  "plan_mode mode = (case mode of Auto \<Rightarrow> plan_auto | EqualSplit \<Rightarrow> plan_equal | Manual as \<Rightarrow> plan_manual as)"

interpretation modes: layer_plan "plan_mode mode"
  by (cases mode)
    (simp_all add: plan_mode_def auto_mode.layer_plan_axioms equal_mode.layer_plan_axioms
      manual_mode.layer_plan_axioms)

definition calibrated :: "scheduler_input \<Rightarrow> bool" where
  "calibrated inp \<longleftrightarrow> candidates inp \<noteq> [] \<and> (\<forall>c \<in> set (candidates inp). validate_calibration c = Inr ())"

lemma rforeach_unit: "rforeach (\<lambda>c _. f c) cs () = Inr u \<longleftrightarrow> (\<forall>c \<in> set cs. f c = Inr ())"
  by (induction cs) (auto simp: rbind_eq_Inr)

lemma schedule_plan:
  assumes "calibrated inp"
  shows "schedule inp = finish_plan inp (plan_mode (in_mode inp) inp (candidates inp))"
proof -
  have "rforeach (\<lambda>c _. validate_calibration c) (candidates inp) () = Inr ()"
    using assms by (simp add: rforeach_unit calibrated_def)
  then show ?thesis
    using assms
    by (simp add: schedule_def calibrated_def plan_mode_def schedule_auto_plan schedule_equal_plan
        schedule_manual_plan split: scheduling_mode.splits)
qed

lemma schedule_calibrated: "schedule inp = Some (Inr res) \<Longrightarrow> calibrated inp"
  by (auto simp: schedule_def calibrated_def rforeach_unit Let_def split: if_splits sum.splits)

end
