(* ===== verification/Layer_Schedule.thy ===== *)
theory Layer_Schedule
  imports Layer_Modes
begin

text \<open>
  What the layer scheduler promises, for every input and in every mode, and two inputs on which it
  does not do what its comments say.
\<close>

subsection \<open>Calibrated nodes\<close>

lemma validate_calibration_Inr:
  assumes "validate_calibration w = Inr ()"
  shows "f32_pos (decode_ms_per_layer w) \<and> \<not> f32_is_infinite (decode_ms_per_layer w)"
proof -
  let ?d = "decode_ms_per_layer w"
  have n: "\<not> f32_is_nan ?d" and z: "\<not> f32_le ?d f32_zero" and m: "\<not> f32_lt f32_500 ?d"
    using assms by (auto simp: validate_calibration_def MAX_PLAUSIBLE_MS_PER_LAYER_def split: if_splits)
  have p: "f32_pos ?d" using n z by (auto simp: f32_pos_def f32_lt_def f32_le_def f32_is_nan_def)
  have "unpack ?d \<noteq> FInf False"
  proof
    assume "unpack ?d = FInf False"
    then have "f32_lt f32_500 ?d" by (simp add: f32_lt_def f32_is_nan_def unpack_def [of f32_500])
    with m show False ..
  qed
  then show ?thesis using p f32_pos_unpack [OF p] by (auto simp: f32_is_infinite_def)
qed

lemma speed_nonneg: "validate_calibration w = Inr () \<Longrightarrow> f32_nonneg (speed w)"
  unfolding speed_def by (intro f32_div_nonneg f32_one_pos) (simp_all add: validate_calibration_Inr)

lemma decode_time_nonneg:
  "validate_calibration w = Inr () \<Longrightarrow> f32_nonneg (f32_mul (f32_of_usize n) (decode_ms_per_layer w))"
  by (intro f32_mul_nonneg f32_of_usize_nonneg) (simp_all add: validate_calibration_Inr)

subsection \<open>Redistribution succeeds when there is room\<close>

definition capacity :: "model_config \<Rightarrow> usize \<Rightarrow> worker_capabilities list \<Rightarrow> nat" where
  "capacity config plt cs = (\<Sum>(i, w) \<leftarrow> enum cs. node_max config plt (length cs) i w)"

lemma capacity_room:
  assumes "within config plt cs counts" and "sum_list counts < capacity config plt cs"
  shows "\<exists>i < length cs. counts ! i < node_max config plt (length cs) i (cs ! i)"
proof (rule ccontr)
  assume "\<not> ?thesis"
  then have ge: "\<forall>i < length cs. node_max config plt (length cs) i (cs ! i) \<le> counts ! i" by auto
  have "capacity config plt cs = (\<Sum>i < length cs. node_max config plt (length cs) i (cs ! i))"
    by (simp add: capacity_def sum_list_sum_nth lessThan_atLeast0 split_beta)
  also have "\<dots> \<le> (\<Sum>i < length cs. counts ! i)" using ge by (intro sum_mono) simp
  also have "\<dots> = sum_list counts"
    using assms(1) by (simp add: within_def sum_list_sum_nth lessThan_atLeast0)
  finally show False using assms(2) by simp
qed

lemma add_layers_succeeds:
  assumes "within config plt cs counts" and "tot = sum_list counts" and "num \<le> capacity config plt cs"
    and "\<forall>w \<in> set cs. f32_lt f32_MIN (speed w)"
  shows "\<exists>r. add_layers cs num plt config counts tot = Inr r"
  using assms
proof (induction cs num plt config counts tot rule: add_layers.induct)
  case (1 cs num plt config counts tot)
  show ?case
  proof (cases "tot < num")
    case True
    then obtain j where j: "j < length cs" "counts ! j < node_max config plt (length cs) j (cs ! j)"
      using capacity_room [OF "1.prems"(1)] "1.prems"(2,3) by auto
    have "best_to_grow cs counts plt config \<noteq> None"
      unfolding best_to_grow_def
      by (rule scan_found [where j = j and w = "cs ! j" and P = "\<lambda>i w. counts ! i < node_max config plt (length cs) i w"])
        (use j "1.prems"(4) in \<open>auto simp: in_set_enum\<close>)
    then obtain i where i: "best_to_grow cs counts plt config = Some i" by auto
    note bi = best_to_grow_Some [OF i]
    have "within config plt cs (counts[i := counts ! i + 1])"
      by (rule within_update [OF "1.prems"(1)]) (use bi in simp)
    moreover have "tot + 1 = sum_list (counts[i := counts ! i + 1])"
      using bi "1.prems"(1,2) sum_list_increment [of i counts] by (simp add: within_def)
    ultimately show ?thesis
      using "1.IH" [OF True i] "1.prems"(3,4) True i by (subst add_layers.simps) simp
  qed (subst add_layers.simps, simp)
qed

lemma remove_layers_succeeds:
  assumes "length counts = length cs" and "tot = sum_list counts" and "num \<le> tot"
    and "\<forall>w \<in> set cs. f32_lt (speed w) f32_MAX"
  shows "snd (remove_layers cs num counts tot) = num"
  using assms
proof (induction cs num counts tot rule: remove_layers.induct)
  case (1 cs num counts tot)
  show ?case
  proof (cases "num < tot")
    case True
    then have "sum_list counts \<noteq> 0" using "1.prems"(2) by linarith
    then have "\<not> (\<forall>x \<in> set counts. x = 0)" by simp
    then obtain j where j: "j < length cs" "0 < counts ! j"
      using "1.prems"(1) by (auto simp: in_set_conv_nth)
    have "worst_to_shrink cs counts \<noteq> None"
      unfolding worst_to_shrink_def
      by (rule scan_found [where j = j and w = "cs ! j" and P = "\<lambda>i w. 0 < counts ! i" and better = "\<lambda>k s. f32_lt s k"])
        (use j "1.prems"(4) in \<open>auto simp: in_set_enum\<close>)
    then obtain i where i: "worst_to_shrink cs counts = Some i" by auto
    note wi = worst_to_shrink_Some [OF i]
    have "tot - 1 = sum_list (counts[i := counts ! i - 1])"
      using wi "1.prems"(1,2) sum_list_decrement [of i counts] by simp
    then show ?thesis
      using "1.IH" [OF True i] "1.prems" True i by (subst remove_layers.simps) simp
  next
    case False
    then show ?thesis using "1.prems"(3) by (subst remove_layers.simps) simp
  qed
qed

lemma redistribute_succeeds:
  assumes "within config plt cs counts" and "num \<le> capacity config plt cs"
    and "\<forall>w \<in> set cs. f32_lt f32_MIN (speed w) \<and> f32_lt (speed w) f32_MAX"
  shows "\<exists>counts'. redistribute_layers counts cs num plt config = Inr counts'"
proof -
  obtain c1 t1 where 1: "add_layers cs num plt config counts (sum_list counts) = Inr (c1, t1)"
    using add_layers_succeeds [OF assms(1) refl assms(2)] assms(3) by fastforce
  have "snd (remove_layers cs num c1 t1) = num"
    using remove_layers_succeeds [of c1 cs t1 num] add_layers_ok [OF 1 assms(1) refl] assms(3)
    by (simp add: within_def)
  then show ?thesis by (simp add: redistribute_layers_def 1 split_beta Let_def)
qed

subsection \<open>Pruning and the estimate\<close>

text \<open>Every excluded node carries the two estimates that excluded it, and the second is the
  smaller one.\<close>

definition justified :: "excluded_node \<Rightarrow> bool" where
  "justified x \<longleftrightarrow> (case ex_reason x of SlowsDownPipeline lw lwo \<Rightarrow> f32_lt lwo lw)"

lemma prune_slow_justified:
  "list_all justified ex \<Longrightarrow> list_all justified (snd (prune_slow num plt config hop cs ex))"
  by (rule prune_slow_invariant [of "\<lambda>_. list_all justified"]) (auto simp: justified_def prunes_def)

lemma prune_slow_estimate:
  "\<not> f32_lt (estimate_pipeline_latency cs num plt config hop)
      (estimate_pipeline_latency (fst (prune_slow num plt config hop cs ex)) num plt config hop)"
proof (rule prune_slow_invariant [of "\<lambda>ws _. \<not> f32_lt (estimate_pipeline_latency cs num plt config hop)
      (estimate_pipeline_latency ws num plt config hop)"])
  fix ws ex i
  assume "\<not> f32_lt (estimate_pipeline_latency cs num plt config hop) (estimate_pipeline_latency ws num plt config hop)"
    and "prunes num plt config hop ws i"
  then show "\<not> f32_lt (estimate_pipeline_latency cs num plt config hop)
      (estimate_pipeline_latency (remove_at i ws) num plt config hop)"
    by (auto simp: prunes_def dest: f32_lt_trans)
qed simp

subsection \<open>The slowest of a list\<close>

lemma max_by_greatest:
  assumes "max_by cmp xs = Some m" and "y \<in> set xs"
    and trans: "\<And>a b c. \<lbrakk>a \<in> set xs; b \<in> set xs; c \<in> set xs; lt a b; lt b c\<rbrakk> \<Longrightarrow> lt a c"
    and irrefl: "\<And>a. \<not> lt a a"
    and total: "\<And>a b c. \<lbrakk>a \<in> set xs; b \<in> set xs; c \<in> set xs; \<not> lt a b; \<not> lt b c\<rbrakk> \<Longrightarrow> \<not> lt a c"
    and cmp: "\<And>a b. \<lbrakk>a \<in> set xs; b \<in> set xs\<rbrakk> \<Longrightarrow> cmp a b = Greater \<longleftrightarrow> lt b a"
  shows "\<not> lt m y"
proof -
  let ?f = "\<lambda>acc y. if cmp acc y = Greater then acc else y"
  have "\<forall>z \<in> insert x (set ys). \<not> lt (foldl ?f x ys) z" if "insert x (set ys) \<subseteq> set xs" for x ys
    using that
  proof (induction ys arbitrary: x)
    case (Cons z ys)
    let ?x = "?f x z"
    have x: "x \<in> set xs" "z \<in> set xs" and sub: "insert ?x (set ys) \<subseteq> set xs" using Cons.prems by auto
    have r: "foldl ?f ?x ys \<in> set xs"
      using foldl_choice_in [of "\<lambda>a b. cmp a b = Greater" ?x ys] sub by blast
    have ih: "\<forall>v \<in> insert ?x (set ys). \<not> lt (foldl ?f ?x ys) v" using Cons.IH [OF sub] .
    have "\<not> lt ?x x \<and> \<not> lt ?x z"
    proof (cases "cmp x z = Greater")
      case True
      then have "lt z x" using cmp [OF x] by simp
      then have "\<not> lt x z" using trans [of z x z] irrefl x by blast
      then show ?thesis using True irrefl by simp
    next
      case False
      then show ?thesis using cmp [OF x] irrefl by simp
    qed
    then have "\<not> lt (foldl ?f ?x ys) x" "\<not> lt (foldl ?f ?x ys) z"
      using total [OF r _ x(1), of ?x] total [OF r _ x(2), of ?x] ih sub by auto
    then show ?case using ih by simp
  qed (simp add: irrefl)
  moreover obtain x ys where "xs = x # ys" using assms(2) by (cases xs) auto
  ultimately show ?thesis using assms(1,2) by (auto simp: max_by_def)
qed

lemma bottleneck_is_slowest:
  assumes "build_result inp cs counts ex = Some (Inr res)" and "length counts = length cs"
    and "\<forall>w \<in> set cs. validate_calibration w = Inr ()" and "a \<in> set (assignments res)"
  shows "\<exists>b \<in> set (assignments res). la_node_id b = bottleneck_node res
    \<and> \<not> f32_lt (expected_decode_ms b) (expected_decode_ms a)"
proof -
  let ?asg = "build_assignments inp (length cs) 0 0 (zip cs counts)"
  let ?ts = "map expected_decode_ms ?asg"
  let ?cmp = "\<lambda>a b :: nat \<times> f32. case f32_partial_cmp (snd a) (snd b) of None \<Rightarrow> Equal | Some c \<Rightarrow> c"
  have asg: "assignments res = ?asg" using assms(1) by (auto simp: build_result_def Let_def split: if_splits)
  have nn: "f32_nonneg (expected_decode_ms (build_assignments inp n i s wcs ! k))"
    if "\<forall>(w, c) \<in> set wcs. validate_calibration w = Inr ()" "k < length wcs" for n i s wcs k
    using that
  proof (induction inp n i s wcs arbitrary: k rule: build_assignments.induct)
    case (2 inp n i start w count rest)
    then show ?case by (cases k) (auto simp: Let_def decode_time_nonneg)
  qed simp
  have times: "f32_nonneg t" if "t \<in> set ?ts" for t
  proof -
    from that obtain k where "k < length ?asg" "t = expected_decode_ms (?asg ! k)"
      by (auto simp: in_set_conv_nth)
    moreover have "\<forall>(w, c) \<in> set (zip cs counts). validate_calibration w = Inr ()"
      using assms(3) by (auto dest: set_zip_leftD)
    ultimately show ?thesis using nn [of "zip cs counts" k] by simp
  qed
  have ne: "?ts \<noteq> []" using assms(4) by (auto simp: asg)
  then have "max_by ?cmp (enum ?ts) \<noteq> None" by simp
  then obtain p where p: "max_by ?cmp (enum ?ts) = Some p" unfolding not_None_eq by blast
  obtain m t where m: "max_by ?cmp (enum ?ts) = Some (m, t)" using p by (cases p) blast
  have mt: "m < length ?asg" "t = expected_decode_ms (?asg ! m)"
    using max_by_in [OF m] by (simp_all add: in_set_enum)
  have node: "bottleneck_node res = la_node_id (?asg ! m)"
    using assms(1,2) m mt(1) build_nth [of m "zip cs counts" inp "length cs" 0 0]
    by (auto simp: build_result_def Let_def split: if_splits)
  obtain k where k: "k < length ?asg" "a = ?asg ! k" using assms(4) by (auto simp: asg in_set_conv_nth)
  have nan: "\<not> f32_is_nan (snd p)" if "p \<in> set (enum ?ts)" for p
  proof -
    from that obtain i where "i < length ?ts" "p = (i, ?ts ! i)" unfolding in_set_conv_nth by auto
    then have "snd p \<in> set ?ts" by (simp only: snd_conv nth_mem)
    then show ?thesis by (rule times [THEN f32_nonneg_not_nan])
  qed
  have "\<not> f32_lt (snd (m, t)) (snd (k, ?ts ! k))"
  proof (rule max_by_greatest [OF m, where lt = "\<lambda>a b. f32_lt (snd a) (snd b)"])
    show "(k, ?ts ! k) \<in> set (enum ?ts)" using k by (simp add: in_set_enum)
    fix a b c
    assume "a \<in> set (enum ?ts)" "b \<in> set (enum ?ts)" "c \<in> set (enum ?ts)"
      "\<not> f32_lt (snd a) (snd b)" "\<not> f32_lt (snd b) (snd c)"
    then show "\<not> f32_lt (snd a) (snd c)" using f32_not_lt_trans nan by blast
  qed (use nan in \<open>auto simp: f32_partial_cmp_def dest: f32_lt_trans f32_not_lt_trans f32_lt_asym\<close>)
  then have "\<not> f32_lt (expected_decode_ms (?asg ! m)) (expected_decode_ms a)" using mt k by simp
  then show ?thesis using node mt(1) by (auto simp: asg)
qed

subsection \<open>A small cluster\<close>

definition tiny_config :: model_config where
  "tiny_config = \<lparr>hidden_size = 2, num_layers = 3, num_q_heads = 2, num_kv_heads = 1, head_dim = 1,
     intermediate_size = 1, vocab_size = 1, rope_theta = 1, rms_norm_eps = 1, max_seq_len = 1\<rparr>"

definition tiny_node :: "string \<Rightarrow> usize \<Rightarrow> worker_capabilities" where
  "tiny_node n mem = \<lparr>node_id = n, gpu_model = ''gpu'', gpu_memory_available = mem,
     compute_capability = (8, 6), decode_ms_per_layer = f32_one, prefill_ms_per_layer_128 = f32_two\<rparr>"

definition tiny_input :: "usize \<Rightarrow> scheduling_mode \<Rightarrow> scheduler_input" where
  "tiny_input mem mode = \<lparr>in_config = tiny_config,
     in_workers = [tiny_node ''a'' mem, tiny_node ''b'' mem, tiny_node ''c'' mem],
     coordinator_compute = None, in_mode = mode, in_max_seq_len = 1, hop_latency_ms = f32_two\<rparr>"

lemma tiny_calibrated: "calibrated (tiny_input mem mode)"
  by (simp add: calibrated_def candidates_def tiny_input_def tiny_node_def validate_calibration_def
      MAX_PLAUSIBLE_MS_PER_LAYER_def f32_eval)

lemmas tiny_defs = tiny_input_def tiny_config_def tiny_node_def candidates_def per_layer_bytes_def
  weight_memory_per_layer_def cache_memory_per_layer_def node_max_def max_layers_for_node_def
  checked_div_usize_def role_overhead_def head_overhead_def tail_overhead_def Let_def enum_def

lemma tiny_plan_equal:
  "plan_equal (tiny_input 90 EqualSplit) [tiny_node ''a'' 90, tiny_node ''b'' 90, tiny_node ''c'' 90]
     = Inr ([tiny_node ''a'' 90, tiny_node ''b'' 90, tiny_node ''c'' 90], [1, 1, 1], [])"
  by code_simp

lemma tiny_equal: "\<exists>res. schedule (tiny_input 90 EqualSplit) = Some (Inr res)"
proof -
  let ?inp = "tiny_input 90 EqualSplit"
  let ?ws = "[tiny_node ''a'' 90, tiny_node ''b'' 90, tiny_node ''c'' 90]"
  have cs: "candidates ?inp = ?ws" "in_mode ?inp = EqualSplit" by (simp_all add: candidates_def tiny_input_def)
  have s: "schedule ?inp = build_result ?inp ?ws [1, 1, 1] []"
    unfolding schedule_plan [OF tiny_calibrated] cs plan_mode_def scheduling_mode.case tiny_plan_equal
      finish_plan_def by simp
  have "build_result ?inp ?ws [1, 1, 1] [] \<noteq> None"
    by (rule build_result_no_panic) simp_all
  then obtain r where r: "build_result ?inp ?ws [1, 1, 1] [] = Some r" unfolding not_None_eq by blast
  from build_result_Some [OF r] obtain res where "r = Inr res" by blast
  then have "schedule ?inp = Some (Inr res)" unfolding s r by (rule arg_cong)
  then show ?thesis ..
qed

lemma tiny_floats:
  "f32_div f32_one f32_one = f32_one" "f32_add f32_zero f32_one = f32_one" "f32_add f32_one f32_one = f32_two"
  "f32_add f32_two f32_one = 0x40400000" "f32_div f32_one 0x40400000 = 0x3EAAAAAB"
  "f32_div f32_one f32_two = 0x3F000000" "f32_of_usize 1 = f32_one" "f32_of_usize 2 = f32_two"
  "f32_of_usize 3 = 0x40400000" "f32_mul 0x3EAAAAAB 0x40400000 = f32_one" "f32_mul 0x3F000000 0x40400000 = 0x3FC00000"
  "f32_round f32_one = f32_one" "f32_round 0x3FC00000 = f32_two" "f32_to_usize f32_one = 1"
  "f32_to_usize f32_two = 2" "f32_mul f32_one f32_one = f32_one" "f32_max f32_zero f32_one = f32_one"
  "f32_max f32_one f32_one = f32_one" "f32_mul f32_two f32_two = 0x40800000" "f32_mul f32_one f32_two = f32_two"
  "f32_add f32_one 0x40800000 = 0x40A00000" "f32_add f32_one f32_two = 0x40400000"
  "f32_lt 0x40400000 0x40A00000" "f32_partial_cmp f32_one f32_one = Some Equal" "f32_lt f32_MIN f32_one"
  by (simp_all add: f32_eval)

lemma tiny_latency:
  "estimate_pipeline_latency [tiny_node ''a'' 90, tiny_node ''b'' 90, tiny_node ''c'' 90] 3 48 tiny_config f32_two
     = 0x40A00000"
  "estimate_pipeline_latency [tiny_node ''a'' 90, tiny_node ''b'' 90] 3 48 tiny_config f32_two = 0x40400000"
  by (simp_all add: estimate_pipeline_latency_def total_speed_def
      speed_def ideal_layers_def hops_ms_def tiny_defs tiny_floats tiny_floats(7) [unfolded One_nat_def]
      tiny_floats(8) [unfolded numeral_2_eq_2])

lemma tiny_prune:
  "prune_slow 3 48 tiny_config f32_two [tiny_node ''a'' 90, tiny_node ''b'' 90, tiny_node ''c'' 90] []
     = ([tiny_node ''a'' 90, tiny_node ''b'' 90],
        [\<lparr>ex_node_id = ''c'', ex_reason = SlowsDownPipeline 0x40A00000 0x40400000\<rparr>])"
proof -
  let ?ws = "[tiny_node ''a'' 90, tiny_node ''b'' 90]" and ?c = "tiny_node ''c'' 90"
  let ?cmp = "\<lambda>a b. case f32_partial_cmp (decode_ms_per_layer (snd a)) (decode_ms_per_layer (snd b)) of
       None \<Rightarrow> Equal | Some c \<Rightarrow> c"
  have 1: "slowest_idx (?ws @ [?c]) = Some 2" "slowest_idx ?ws = Some 1"
    by (simp_all add: slowest_idx_def max_by_def enum_def tiny_node_def tiny_floats)
  have 2: "remove_at 2 (?ws @ [?c]) = ?ws" "remove_at 1 ?ws = [tiny_node ''a'' 90]"
    by (simp_all add: remove_at_def)
  have 3: "model_fits ?ws 3 48 tiny_config" "\<not> model_fits [tiny_node ''a'' 90] 3 48 tiny_config"
    by (simp_all add: model_fits_def tiny_defs)
  have stop: "prune_slow 3 48 tiny_config f32_two ?ws ex = (?ws, ex)" for ex
    by (subst prune_slow.simps) (simp add: 1 2 3 Let_def del: One_nat_def)
  have "prune_slow 3 48 tiny_config f32_two (?ws @ [?c]) [] = prune_slow 3 48 tiny_config f32_two ?ws
        [\<lparr>ex_node_id = ''c'', ex_reason = SlowsDownPipeline 0x40A00000 0x40400000\<rparr>]"
    using 1(1) 2(1) 3(1) tiny_latency tiny_floats(23)
    by (subst prune_slow.simps) (simp add: Let_def, simp add: tiny_node_def)
  then show ?thesis by (simp add: stop)
qed

lemma tiny_auto:
  "schedule (tiny_input 90 Auto)
     = Some (Inl (Pipeline ''insufficient total capacity: need {num_layers} layers, can fit {total}''))"
proof -
  let ?inp = "tiny_input 90 Auto"
  let ?ws = "[tiny_node ''a'' 90, tiny_node ''b'' 90]"
  have cs: "candidates ?inp = ?ws @ [tiny_node ''c'' 90]" "in_mode ?inp = Auto"
    by (simp_all add: candidates_def tiny_input_def)
  have b: "per_layer_bytes ?inp = 48" "num_layers tiny_config = 3" "in_config ?inp = tiny_config"
    "hop_latency_ms ?inp = f32_two" by (simp_all add: tiny_defs)
  have c: "clamped_counts ?inp ?ws = [1, 1]"
    by (simp add: clamped_counts_def total_speed_def speed_def ideal_layers_def tiny_defs tiny_floats)
  have "best_to_grow ?ws [1, 1] 48 tiny_config = None"
    by (simp add: best_to_grow_def tiny_defs)
  then have "redistribute_layers [1, 1] ?ws 3 48 tiny_config
      = Inl (Pipeline ''insufficient total capacity: need {num_layers} layers, can fit {total}'')"
    by (simp add: redistribute_layers_def add_layers.simps [of ?ws])
  then have "plan_auto ?inp (?ws @ [tiny_node ''c'' 90])
      = Inl (Pipeline ''insufficient total capacity: need {num_layers} layers, can fit {total}'')"
    unfolding plan_auto_def b Let_def using tiny_prune c by simp
  then show ?thesis
    unfolding schedule_plan [OF tiny_calibrated] cs plan_mode_def scheduling_mode.case by (simp add: finish_plan_def)
qed

lemma tiny_manual:
  "map (\<lambda>a. (la_node_id a, la_start a, la_end a)) (build_assignments (tiny_input 500 mode) 2 0 0
     [(tiny_node ''b'' 500, 1), (tiny_node ''a'' 500, 2)]) = [(''b'', 0, 1), (''a'', 1, 3)]"
  by (simp add: Let_def tiny_node_def)

definition swapped :: "manual_assignment list" where
  "swapped = [\<lparr>ma_node_id = ''b'', ma_start = 2, ma_end = 3\<rparr>, \<lparr>ma_node_id = ''a'', ma_start = 0, ma_end = 2\<rparr>]"

lemma tiny_plan_manual:
  "plan_manual swapped (tiny_input 500 (Manual swapped))
     [tiny_node ''a'' 500, tiny_node ''b'' 500, tiny_node ''c'' 500]
     = Inr ([tiny_node ''b'' 500, tiny_node ''a'' 500], [1, 2], [])"
  by code_simp

subsection \<open>Properties\<close>

lemma schedule_tiles:
  assumes "schedule inp = Some (Inr res)"
  shows "tiles 0 (assignments res) (num_layers (in_config inp))"
proof -
  have c: "calibrated inp" by (rule schedule_calibrated [OF assms])
  have f: "finish_plan inp (plan_mode (in_mode inp) inp (candidates inp)) = Some (Inr res)"
    using assms schedule_plan [OF c] by simp
  show ?thesis by (rule modes.covers [OF _ f]) (use c in \<open>simp add: calibrated_def\<close>)
qed

lemma schedule_nodes:
  assumes "schedule inp = Some (Inr res)"
  shows "la_node_id ` set (assignments res) \<subseteq> node_id ` set (candidates inp)
    \<and> (distinct (map node_id (candidates inp)) \<longrightarrow> distinct (map la_node_id (assignments res)))"
proof -
  have f: "finish_plan inp (plan_mode (in_mode inp) inp (candidates inp)) = Some (Inr res)"
    using assms schedule_plan [OF schedule_calibrated [OF assms]] by simp
  show ?thesis by (rule modes.nodes [OF f])
qed

text \<open>C7: Whatever the mode, a schedule hands out every layer exactly once: the ranges follow each
  other from layer 0 to the last, and each layer lies in exactly one of them.\<close>

theorem schedule_covers_each_layer_once:
  assumes "schedule inp = Some (Inr res)" and "l < num_layers (in_config inp)"
  shows "tiles 0 (assignments res) (num_layers (in_config inp))
    \<and> (\<exists>!k. k < length (assignments res) \<and> holds_layer (assignments res ! k) l)"
  using schedule_tiles [OF assms(1)] tiles_unique [of 0 "assignments res" _ l] assms(2) by simp

theorem schedule_covers_each_layer_once_witness:
  "\<exists>res. schedule (tiny_input 90 EqualSplit) = Some (Inr res) \<and> tiles 0 (assignments res) 3"
proof -
  obtain res where r: "schedule (tiny_input 90 EqualSplit) = Some (Inr res)" using tiny_equal ..
  have "num_layers (in_config (tiny_input 90 EqualSplit)) = 3" by (simp add: tiny_input_def tiny_config_def)
  then show ?thesis using schedule_covers_each_layer_once [OF r, of 0] r by simp
qed





text \<open>C20: Auto mode finds a schedule whenever the nodes that are left after pruning have room for
  all layers, where room is counted in whole layers per node: redistribution neither gives up
  early nor loses layers. Speeds must be below the largest \<open>f32\<close>, where the scan for the slowest
  node starts.\<close>

theorem auto_succeeds_with_room:
  assumes "calibrated inp" and "in_mode inp = Auto" and "0 < num_layers (in_config inp)"
    and "prune_slow (num_layers (in_config inp)) (per_layer_bytes inp) (in_config inp)
          (hop_latency_ms inp) (candidates inp) [] = (ws, ex)"
    and "num_layers (in_config inp) \<le> capacity (in_config inp) (per_layer_bytes inp) ws"
    and "\<forall>w \<in> set ws. f32_lt (speed w) f32_MAX"
  shows "\<exists>res. schedule inp = Some (Inr res)"
proof -
  have "\<forall>w \<in> set ws. f32_lt f32_MIN (speed w)"
    using prune_slow_members [OF assms(4)] assms(1)
    by (auto simp: calibrated_def intro: f32_nonneg_above_MIN speed_nonneg)
  then obtain counts where c: "redistribute_layers (clamped_counts inp ws) ws (num_layers (in_config inp))
      (per_layer_bytes inp) (in_config inp) = Inr counts"
    using redistribute_succeeds [OF clamped_within assms(5)] assms(6) by blast
  then have p: "plan_mode (in_mode inp) inp (candidates inp) = Inr (ws, counts, ex)"
    using assms(2,4) by (simp add: plan_mode_def plan_auto_def)
  have "schedule inp = build_result inp ws counts ex"
    using schedule_plan [OF assms(1)] p by (simp add: finish_plan_def)
  moreover have "schedule inp \<noteq> None"
    using schedule_plan [OF assms(1)] modes.no_panic [OF _ assms(3), of "candidates inp"] assms(1)
    by (simp add: calibrated_def)
  ultimately obtain r where "build_result inp ws counts ex = Some r" "schedule inp = Some r" by auto
  then show ?thesis using build_result_Some [of inp ws counts ex r] by auto
qed

definition lone_input :: scheduler_input where
  "lone_input = (tiny_input 500 Auto)\<lparr>in_workers := [tiny_node ''a'' 500]\<rparr>"

theorem auto_succeeds_with_room_witness: "\<exists>res. schedule lone_input = Some (Inr res)"
proof (rule auto_succeeds_with_room)
  show "calibrated lone_input"
    by (simp add: lone_input_def calibrated_def candidates_def tiny_input_def tiny_node_def
        validate_calibration_def MAX_PLAUSIBLE_MS_PER_LAYER_def f32_eval)
  show "prune_slow (num_layers (in_config lone_input)) (per_layer_bytes lone_input) (in_config lone_input)
      (hop_latency_ms lone_input) (candidates lone_input) [] = ([tiny_node ''a'' 500], [])"
    by (subst prune_slow.simps) (simp add: lone_input_def candidates_def tiny_input_def)
  show "num_layers (in_config lone_input) \<le> capacity (in_config lone_input) (per_layer_bytes lone_input)
      [tiny_node ''a'' 500]"
    by (simp add: lone_input_def capacity_def tiny_defs)
  show "\<forall>w \<in> set [tiny_node ''a'' 500]. f32_lt (speed w) f32_MAX"
    by (simp add: speed_def tiny_node_def tiny_floats(1)) (simp add: f32_eval)
qed (simp_all add: lone_input_def tiny_input_def tiny_config_def)


text \<open>Pruning never makes the predicted latency worse, every exclusion is justified by the two
  estimates it reports, and only candidates are kept.\<close>

theorem pruning_never_slows_down:
  "\<not> f32_lt (estimate_pipeline_latency cs num plt config hop)
       (estimate_pipeline_latency (fst (prune_slow num plt config hop cs [])) num plt config hop)
   \<and> list_all justified (snd (prune_slow num plt config hop cs []))
   \<and> set (fst (prune_slow num plt config hop cs [])) \<subseteq> set cs"
proof (intro conjI)
  show "list_all justified (snd (prune_slow num plt config hop cs []))" by (rule prune_slow_justified) simp
  show "set (fst (prune_slow num plt config hop cs [])) \<subseteq> set cs" by (rule prune_slow_members) (rule prod.collapse [symmetric])
qed (rule prune_slow_estimate)

text \<open>An equal split is equal: it hands out all layers and the shares of two nodes differ by at
  most one; a node with more memory than another never gets less.\<close>

theorem equal_split_is_balanced:
  assumes "i < length cs" and "j < length cs"
  shows "sum_list (equal_counts num cs) = num
    \<and> equal_counts num cs ! i \<le> equal_counts num cs ! j + 1
    \<and> (gpu_memory_available (cs ! j) < gpu_memory_available (cs ! i)
        \<longrightarrow> equal_counts num cs ! j \<le> equal_counts num cs ! i)"
proof -
  let ?key = "\<lambda>i. - int (gpu_memory_available (cs ! i))"
  let ?ord = "sort_key ?key [0..<length cs]" and ?r = "num mod length cs"
  have s: "sum_list (equal_counts num cs) = num" using assms(1) by (intro equal_counts_sum) auto
  have "i \<in> set (take ?r ?ord)"
    if jt: "j \<in> set (take ?r ?ord)" and lt: "gpu_memory_available (cs ! j) < gpu_memory_available (cs ! i)"
  proof (rule ccontr)
    assume "i \<notin> set (take ?r ?ord)"
    moreover have "i \<in> set ?ord" using assms(1) by simp
    ultimately have "i \<in> set (drop ?r ?ord)" by (metis append_take_drop_id Un_iff set_append)
    moreover have "sorted (map ?key (take ?r ?ord @ drop ?r ?ord))" by simp
    ultimately have "?key j \<le> ?key i" using jt unfolding map_append sorted_append by auto
    with lt show False by simp
  qed
  then show ?thesis using s assms by (auto simp: equal_counts_nth)
qed

theorem equal_split_is_balanced_witness:
  "sum_list (equal_counts 7 [tiny_node ''a'' 3, tiny_node ''b'' 5, tiny_node ''c'' 4]) = 7"
  using equal_split_is_balanced [of 0 "[tiny_node ''a'' 3, tiny_node ''b'' 5, tiny_node ''c'' 4]" 1 7] by simp

fun in_layer_order :: "nat \<Rightarrow> manual_assignment list \<Rightarrow> bool" where
  "in_layer_order s [] \<longleftrightarrow> True"
| "in_layer_order s (a # as) \<longleftrightarrow> ma_start a = s \<and> s \<le> ma_end a \<and> in_layer_order (ma_end a) as"

lemma build_manual:
  assumes "in_layer_order s as" and "map node_id ws = map ma_node_id as"
  shows "map (\<lambda>a. (la_node_id a, la_start a, la_end a))
      (build_assignments inp n i s (zip ws (map range_len as)))
    = map (\<lambda>a. (ma_node_id a, ma_start a, ma_end a)) as"
  using assms
proof (induction as arbitrary: s ws i)
  case (Cons a as)
  then obtain w ws' where "ws = w # ws'" by (cases ws) auto
  with Cons show ?case by (simp add: Let_def range_len_def)
qed simp

text \<open>A manual assignment is honoured when its ranges are listed in layer order, starting at
  layer 0 and each beginning where the one before ended: the schedule then has exactly these
  ranges on exactly these nodes.\<close>

theorem manual_order_honoured:
  assumes "schedule inp = Some (Inr res)" and "in_mode inp = Manual as" and "in_layer_order 0 as"
  shows "map (\<lambda>a. (la_node_id a, la_start a, la_end a)) (assignments res)
    = map (\<lambda>a. (ma_node_id a, ma_start a, ma_end a)) as"
proof -
  have "finish_plan inp (plan_manual as inp (candidates inp)) = Some (Inr res)"
    using assms(1,2) schedule_plan [OF schedule_calibrated [OF assms(1)]] by (simp add: plan_mode_def)
  then show ?thesis
  proof (rule manual_mode.finished)
    fix ws counts ex
    assume p: "plan_manual as inp (candidates inp) = Inr (ws, counts, ex)"
      and a: "assignments res = build_assignments inp (length ws) 0 0 (zip ws counts)"
    note pm = place_manual_ok [OF plan_manual_ok [OF p, THEN conjunct1]]
    show ?thesis using build_manual [OF assms(3), of ws inp "length ws" 0] pm a by simp
  qed
qed

definition in_order :: "manual_assignment list" where
  "in_order = [\<lparr>ma_node_id = ''b'', ma_start = 0, ma_end = 1\<rparr>, \<lparr>ma_node_id = ''a'', ma_start = 1, ma_end = 3\<rparr>]"

lemma tiny_plan_in_order:
  "plan_manual in_order (tiny_input 500 (Manual in_order))
     [tiny_node ''a'' 500, tiny_node ''b'' 500, tiny_node ''c'' 500]
     = Inr ([tiny_node ''b'' 500, tiny_node ''a'' 500], [1, 2], [])"
  by code_simp

text \<open>Running the two manual inputs gives the same schedule.\<close>

lemma tiny_manual_schedule:
  assumes "as = swapped \<or> as = in_order"
  shows "\<exists>res. schedule (tiny_input 500 (Manual as)) = Some (Inr res)
    \<and> map (\<lambda>a. (la_node_id a, la_start a, la_end a)) (assignments res) = [(''b'', 0, 1), (''a'', 1, 3)]"
proof -
  let ?inp = "tiny_input 500 (Manual as)" and ?ws = "[tiny_node ''b'' 500, tiny_node ''a'' 500]"
  have cs: "candidates ?inp = [tiny_node ''a'' 500, tiny_node ''b'' 500, tiny_node ''c'' 500]"
      "in_mode ?inp = Manual as" by (simp_all add: candidates_def tiny_input_def)
  have "plan_manual as ?inp (candidates ?inp) = Inr (?ws, [1, 2], [])"
    unfolding cs using assms tiny_plan_manual tiny_plan_in_order by blast
  then have s: "schedule ?inp = build_result ?inp ?ws [1, 2] []"
    unfolding schedule_plan [OF tiny_calibrated] cs(2) plan_mode_def scheduling_mode.case finish_plan_def by simp
  have "build_result ?inp ?ws [1, 2] [] \<noteq> None" by (rule build_result_no_panic) simp_all
  then obtain r where r: "build_result ?inp ?ws [1, 2] [] = Some r" unfolding not_None_eq by blast
  from build_result_Some [OF r] obtain res where res: "r = Inr res"
    "assignments res = build_assignments ?inp 2 0 0 [(tiny_node ''b'' 500, 1), (tiny_node ''a'' 500, 2)]" by auto
  have "schedule ?inp = Some (Inr res)" unfolding s r res(1) ..
  then show ?thesis using tiny_manual [of "Manual as"] res(2) by metis
qed

theorem manual_order_honoured_witness:
  "\<exists>res. schedule (tiny_input 500 (Manual in_order)) = Some (Inr res)
     \<and> map (\<lambda>a. (la_node_id a, la_start a, la_end a)) (assignments res)
         = map (\<lambda>a. (ma_node_id a, ma_start a, ma_end a)) in_order"
proof -
  obtain res where r: "schedule (tiny_input 500 (Manual in_order)) = Some (Inr res)"
    using tiny_manual_schedule [of in_order] by blast
  have "in_mode (tiny_input 500 (Manual in_order)) = Manual in_order" "in_layer_order 0 in_order"
    by (simp_all add: tiny_input_def in_order_def)
  from manual_order_honoured [OF r this] r show ?thesis by blast
qed


text \<open>The node reported as the bottleneck is one: no node of the schedule has a larger predicted
  decode time.\<close>

theorem bottleneck_reported:
  assumes "schedule inp = Some (Inr res)" and "a \<in> set (assignments res)"
  shows "\<exists>b \<in> set (assignments res). la_node_id b = bottleneck_node res
    \<and> \<not> f32_lt (expected_decode_ms b) (expected_decode_ms a)"
proof -
  have c: "calibrated inp" by (rule schedule_calibrated [OF assms(1)])
  have "finish_plan inp (plan_mode (in_mode inp) inp (candidates inp)) = Some (Inr res)"
    using assms(1) schedule_plan [OF c] by simp
  then obtain ws counts ex where p: "plan_mode (in_mode inp) inp (candidates inp) = Inr (ws, counts, ex)"
      and b: "build_result inp ws counts ex = Some (Inr res)"
    by (auto simp: finish_plan_def split: sum.splits)
  have "\<forall>w \<in> set ws. validate_calibration w = Inr ()"
    using modes.plan_members [OF p] c by (auto simp: calibrated_def)
  from bottleneck_is_slowest [OF b modes.plan_length [OF p] this assms(2)] show ?thesis .
qed

theorem bottleneck_reported_witness:
  "\<exists>res a. schedule (tiny_input 500 (Manual in_order)) = Some (Inr res) \<and> a \<in> set (assignments res)
     \<and> (\<exists>b \<in> set (assignments res). la_node_id b = bottleneck_node res
          \<and> \<not> f32_lt (expected_decode_ms b) (expected_decode_ms a))"
proof -
  obtain res where r: "schedule (tiny_input 500 (Manual in_order)) = Some (Inr res)"
      "map (\<lambda>a. (la_node_id a, la_start a, la_end a)) (assignments res) = [(''b'', 0, 1), (''a'', 1, 3)]"
    using tiny_manual_schedule [OF disjI2, OF refl] by (elim exE conjE)
  have "assignments res \<noteq> []" using r(2) by (rule contrapos_pn) simp
  then obtain a where a: "a \<in> set (assignments res)" using list.set_intros(1) neq_Nil_conv by metis
  show ?thesis by (intro exI conjI) (rule r(1), rule a, rule bottleneck_reported [OF r(1) a])
qed

end
