(* ===== verification/Pipeline_Correct.thy ===== *)
theory Pipeline_Correct
  imports Dist_Pipeline Layer_Schedule
begin

text \<open>
  What the distributed pipeline computes: a forward pass is the composition of its stages.
\<close>

subsection \<open>Skipping acknowledgements\<close>

lemma recv_skipping_frame:
  assumes "\<forall>f \<in> set hbs. frame_ok f \<and> msg_type (fst f) = HeartbeatAck" and "frame_ok f" "msg_type (fst f) \<noteq> HeartbeatAck"
  shows "recv_skipping_heartbeat_acks crc (concat (map (write_frame crc) hbs) @ write_frame crc f @ r) = (Inr f, r)"
  using assms(1)
proof (induction hbs)
  case Nil
  then show ?case
    using assms(2,3) by (cases f, subst recv_skipping_heartbeat_acks.simps) (simp add: recv_write)
next
  case (Cons g hbs)
  then have "recv crc (write_frame crc g @ concat (map (write_frame crc) hbs) @ write_frame crc f @ r)
      = (Inr g, concat (map (write_frame crc) hbs) @ write_frame crc f @ r)" by (simp add: recv_write)
  then show ?case using Cons
    by (cases g, subst recv_skipping_heartbeat_acks.simps) simp
qed

text \<open>The stream of a worker whose next answer, heartbeats apart, is a frame.\<close>

definition answers_frame :: "wire_codec \<Rightarrow> message_type \<Rightarrow> u64 \<Rightarrow> byte list \<Rightarrow> worker_entry \<Rightarrow> bool" where
  "answers_frame wc mt sid bytes e \<longleftrightarrow> payload_fits bytes \<and> mt \<noteq> HeartbeatAck
     \<and> (\<exists>hbs r. (\<forall>f \<in> set hbs. frame_ok f \<and> msg_type (fst f) = HeartbeatAck)
          \<and> we_reader e = concat (map (write_frame (wc_crc wc)) hbs) @ write_frame (wc_crc wc) (frame_for mt sid bytes) @ r)"

lemma recv_answer:
  assumes "answers_frame wc mt sid bytes e"
  obtains r where "recv_skipping_heartbeat_acks (wc_crc wc) (we_reader e) = (Inr (frame_for mt sid bytes), r)"
proof -
  from assms obtain hbs r where "\<forall>f \<in> set hbs. frame_ok f \<and> msg_type (fst f) = HeartbeatAck"
    "we_reader e = concat (map (write_frame (wc_crc wc)) hbs) @ write_frame (wc_crc wc) (frame_for mt sid bytes) @ r"
    "payload_fits bytes" "mt \<noteq> HeartbeatAck" by (auto simp: answers_frame_def)
  then show thesis
    using recv_skipping_frame [of hbs "frame_for mt sid bytes" "wc_crc wc" r] frame_for_ok [of bytes mt sid] that
    by (simp add: frame_for_def)
qed

lemma exchange_answer:
  assumes "answers_frame wc mt' sid bytes e" "w_room (we_writer e) = None" "ser payload = Inr pb"
  obtains e' where "exchange wc ser mt sid payload e = (Inr (frame_for mt' sid bytes), e')"
    "w_sent (we_writer e') = w_sent (we_writer e) @ write_frame (wc_crc wc) (frame_for mt sid pb)"
proof -
  obtain r where "recv_skipping_heartbeat_acks (wc_crc wc) (we_reader e) = (Inr (frame_for mt' sid bytes), r)"
    using recv_answer [OF assms(1)] .
  then show thesis using assms(2,3) that by (simp add: exchange_def send_def send_raw_up)
qed

subsection \<open>Stages as functions\<close>

text \<open>\<open>f nid\<close> is what the worker \<open>nid\<close> computes. The composition of the stages, and the requests in it.\<close>

abbreviation stage_payload :: "u32 list \<Rightarrow> bool \<Rightarrow> forward_input_wire \<Rightarrow> forward_payload" where
  "stage_payload positions is_prefill input \<equiv> \<lparr>fp_is_prefill = is_prefill, fp_positions = positions, fp_input = input\<rparr>"

fun compose_stages ::
    "(string \<Rightarrow> forward_payload \<Rightarrow> forward_output_wire) \<Rightarrow> dist_pipeline \<Rightarrow> u32 list \<Rightarrow> bool \<Rightarrow> forward_input_wire \<Rightarrow> string list
     \<Rightarrow> f32 list result" where
  "compose_stages f p positions is_prefill input [] = Inl (Pipeline ''pipeline completed without producing logits'')"
| "compose_stages f p positions is_prefill input (nid # ids) =
     (case next_input p (ids = []) (f nid (stage_payload positions is_prefill input)) of
        Inl e \<Rightarrow> Inl e
      | Inr (Inl logits) \<Rightarrow> Inr logits
      | Inr (Inr input') \<Rightarrow> compose_stages f p positions is_prefill input' ids)"

fun stage_requests ::
    "(string \<Rightarrow> forward_payload \<Rightarrow> forward_output_wire) \<Rightarrow> dist_pipeline \<Rightarrow> u32 list \<Rightarrow> bool \<Rightarrow> forward_input_wire \<Rightarrow> string list
     \<Rightarrow> (string \<times> forward_payload) list" where
  "stage_requests f p positions is_prefill input [] = []"
| "stage_requests f p positions is_prefill input (nid # ids) =
     (nid, stage_payload positions is_prefill input) #
     (case next_input p (ids = []) (f nid (stage_payload positions is_prefill input)) of
        Inr (Inr input') \<Rightarrow> stage_requests f p positions is_prefill input' ids
      | _ \<Rightarrow> [])"

text \<open>A worker that answers a request as \<open>f\<close> says, over a link that is up.\<close>

definition serves ::
    "wire_codec \<Rightarrow> (string \<Rightarrow> forward_payload \<Rightarrow> forward_output_wire) \<Rightarrow> u64 \<Rightarrow> peer_registry \<Rightarrow> string \<times> forward_payload \<Rightarrow> bool" where
  "serves wc f sid reg rq = (case rq of (nid, payload) \<Rightarrow> \<exists>e bytes pb. reg nid = Some e \<and> w_room (we_writer e) = None
     \<and> ser_forward wc payload = Inr pb \<and> answers_frame wc ForwardResult sid bytes e
     \<and> de_forward_result wc bytes = Inr \<lparr>fr_output = f nid payload\<rparr>)"

definition received :: "wire_codec \<Rightarrow> u64 \<Rightarrow> peer_registry \<Rightarrow> peer_registry \<Rightarrow> string \<times> forward_payload \<Rightarrow> bool" where
  "received wc sid reg reg' rq = (case rq of (nid, payload) \<Rightarrow> \<exists>e e' pb. reg nid = Some e \<and> reg' nid = Some e'
     \<and> ser_forward wc payload = Inr pb
     \<and> w_sent (we_writer e') = w_sent (we_writer e) @ write_frame (wc_crc wc) (frame_for Forward sid pb))"

lemma requests_in_order: "nid \<in> fst ` set (stage_requests f p pos pre input ids) \<Longrightarrow> nid \<in> set ids"
proof (induction ids arbitrary: input)
  case (Cons m ids)
  show ?case
  proof (cases "nid = m")
    case False
    then obtain i where "nid \<in> fst ` set (stage_requests f p pos pre i ids)" using Cons.prems by (auto split: sum.splits)
    then show ?thesis using Cons.IH by simp
  qed simp
qed simp

lemma forward_stages_other: "nid \<notin> set ids \<Longrightarrow> snd (forward_stages wc p sid pos pre input ids reg) nid = reg nid"
proof (induction ids arbitrary: input reg)
  case (Cons n ids)
  show ?case
  proof (cases "reg n")
    case (Some e)
    obtain res e' where x: "exchange wc (ser_forward wc) Forward sid (stage_payload pos pre input) e = (res, e')" by fastforce
    have other: "(reg(n \<mapsto> e')) nid = reg nid" using Cons.prems by simp
    have ids: "nid \<notin> set ids" using Cons.prems by simp
    have "snd (forward_stages wc p sid pos pre i ids (reg(n \<mapsto> e'))) nid = reg nid" for i
      unfolding Cons.IH [OF ids] by (rule other)
    then show ?thesis using Some x other by (simp add: Let_def split: sum.split)
  qed simp
qed simp

lemma forward_stages_compose:
  assumes "distinct ids" and "\<forall>rq \<in> set (stage_requests f p pos pre input ids). serves wc f sid reg rq"
  shows "fst (forward_stages wc p sid pos pre input ids reg) = compose_stages f p pos pre input ids
    \<and> (\<forall>rq \<in> set (stage_requests f p pos pre input ids).
         received wc sid reg (snd (forward_stages wc p sid pos pre input ids reg)) rq)"
  using assms
proof (induction ids arbitrary: input reg)
  case (Cons nid ids)
  let ?pl = "stage_payload pos pre input"
  have "serves wc f sid reg (nid, ?pl)" using Cons.prems(2) by simp
  then obtain e bytes pb where e: "reg nid = Some e" "w_room (we_writer e) = None" "ser_forward wc ?pl = Inr pb"
    "answers_frame wc ForwardResult sid bytes e" "de_forward_result wc bytes = Inr \<lparr>fr_output = f nid ?pl\<rparr>"
    unfolding serves_def by auto
  obtain e' where x: "exchange wc (ser_forward wc) Forward sid ?pl e = (Inr (frame_for ForwardResult sid bytes), e')"
      "w_sent (we_writer e') = w_sent (we_writer e) @ write_frame (wc_crc wc) (frame_for Forward sid pb)"
    using exchange_answer [where ser = "ser_forward wc" and mt = Forward, OF e(4,2,3)] .
  let ?reg = "reg(nid \<mapsto> e')" and ?n = "next_input p (ids = []) (f nid ?pl)"
  have out: "forward_output wc (fst (frame_for ForwardResult sid bytes)) (snd (frame_for ForwardResult sid bytes)) = Inr (f nid ?pl)"
    using e(5) by (simp add: forward_output_def frame_for_def deserialize_payload_def)
  have step: "forward_stages wc p sid pos pre input (nid # ids) reg = (case ?n of
      Inl err \<Rightarrow> (Inl err, ?reg) | Inr (Inl logits) \<Rightarrow> (Inr logits, ?reg)
    | Inr (Inr input') \<Rightarrow> forward_stages wc p sid pos pre input' ids ?reg)"
    using e(1) x(1) out by (cases "frame_for ForwardResult sid bytes") (simp add: Let_def)
  have rq: "received wc sid reg r (nid, ?pl)" if "r nid = Some e'" for r
    using e x(2) that unfolding received_def by auto
  consider err where "?n = Inl err" | l where "?n = Inr (Inl l)" | i where "?n = Inr (Inr i)"
    by (metis sum.exhaust)
  then show ?case
  proof cases
    case 3
    have d: "distinct ids" "nid \<notin> set ids" using Cons.prems(1) by simp_all
    have other: "m \<noteq> nid" if "(m, pl) \<in> set (stage_requests f p pos pre i ids)" for m pl
      using requests_in_order [of m f p pos pre i ids] that d(2) by force
    have "\<forall>rq \<in> set (stage_requests f p pos pre i ids). serves wc f sid ?reg rq"
      using Cons.prems(2) other 3 by (auto simp: serves_def)
    from Cons.IH [OF d(1) this]
    have IH: "fst (forward_stages wc p sid pos pre i ids ?reg) = compose_stages f p pos pre i ids"
      "\<forall>rq \<in> set (stage_requests f p pos pre i ids). received wc sid ?reg (snd (forward_stages wc p sid pos pre i ids ?reg)) rq" by blast+
    have "\<forall>rq \<in> set (stage_requests f p pos pre i ids). received wc sid reg (snd (forward_stages wc p sid pos pre i ids ?reg)) rq"
      using IH(2) other by (auto simp: received_def)
    moreover have "snd (forward_stages wc p sid pos pre i ids ?reg) nid = Some e'"
      using forward_stages_other [OF d(2)] by simp
    ultimately show ?thesis using step 3 IH(1) rq by simp
  qed (use step rq in auto)
qed simp

subsection \<open>Properties\<close>


definition tiny_codec :: wire_codec where
  "tiny_codec = \<lparr>wc_crc = (\<lambda>_. 0), ser_forward = (\<lambda>_. Inr []), ser_batched = (\<lambda>_. Inr []), ser_ack = (\<lambda>_. Inr []),
     ser_heartbeat = (\<lambda>_. Inr []), de_error = (\<lambda>_. Inr \<lparr>ep_error_code = OutOfMemoryCode, ep_message = []\<rparr>),
     de_forward_result = (\<lambda>bs. Inr \<lparr>fr_output = (if bs = [1]
        then OutActivations \<lparr>ndim = 1, wshape = [8], wdtype = 0, compression = 0, data_len = 0\<rparr> [] else Logits [0, 0, 0x80, 0x3F])\<rparr>),
     de_batched_result = (\<lambda>_. Inl []), de_heartbeat_ack = (\<lambda>_. Inl [])\<rparr>"

definition tiny_worker :: "message_type \<Rightarrow> byte list \<Rightarrow> worker_entry" where
  "tiny_worker mt bs = \<lparr>we_capabilities = \<lparr>node_id = [], gpu_model = [], gpu_memory_available = 0, compute_capability = (0, 0),
       decode_ms_per_layer = 0, prefill_ms_per_layer_128 = 0\<rparr>,
     we_writer = \<lparr>w_sent = [], w_room = None\<rparr>, we_reader = write_frame (\<lambda>_. 0) (frame_for mt 5 bs), we_assignment = None,
     we_last_heartbeat = 0, we_status = Ready, we_free_blocks = 0, we_gpu_memory_used = 0\<rparr>"

definition tiny_pipeline :: dist_pipeline where
  "tiny_pipeline = \<lparr>dp_order = [''a'', ''b''], dp_hidden_size = 8, dp_total_layers = 2, dp_allocated = {5}\<rparr>"

definition tiny_stage :: "string \<Rightarrow> forward_payload \<Rightarrow> forward_output_wire" where
  "tiny_stage nid pl = (if nid = ''a'' then OutActivations \<lparr>ndim = 1, wshape = [8], wdtype = 0, compression = 0, data_len = 0\<rparr> []
     else Logits [0, 0, 0x80, 0x3F])"

lemma payload_fits_small: "length bs \<le> 4 \<Longrightarrow> payload_fits bs"
  by (simp add: payload_fits_def MAX_PAYLOAD_SIZE_def)

lemma tiny_worker_answers:
  "mt \<noteq> HeartbeatAck \<Longrightarrow> length bs \<le> 4 \<Longrightarrow> answers_frame tiny_codec mt 5 bs (tiny_worker mt bs)"
  unfolding answers_frame_def by (intro conjI exI [of _ "[]"]) (simp_all add: payload_fits_small tiny_codec_def tiny_worker_def)


text \<open>Building a pipeline from ranges that follow each other.\<close>

lemma new_pipeline_of_tiles:
  assumes "tiles 0 as n" and "as \<noteq> []"
  shows "new_pipeline as hsize =
    (if \<forall>a \<in> set as. la_start a < la_end a
     then Inr \<lparr>dp_order = map la_node_id as, dp_hidden_size = hsize, dp_total_layers = n, dp_allocated = {}\<rparr>
     else Inl (Pipeline ''empty layer range for {}: {:?}''))"
proof -
  let ?step = "\<lambda>a expected_start. if la_start a \<noteq> expected_start
      then Inl (Pipeline ''non-contiguous layer ranges: expected start {expected_start}, got {}'')
    else if la_end a \<le> la_start a then Inl (Pipeline ''empty layer range for {}: {:?}'') else Inr (la_end a)"
  have "rforeach ?step as s = (if \<forall>a \<in> set as. la_start a < la_end a then Inr e
      else Inl (Pipeline ''empty layer range for {}: {:?}''))" if "tiles s as e" for as s e
    using that
  proof (induction as arbitrary: s)
    case (Cons a as)
    then have a: "la_start a = s" "tiles (la_end a) as e" by simp_all
    then show ?case using Cons.IH [OF a(2)] by (cases "la_start a < la_end a") (simp_all only: rforeach.simps, simp_all)
  qed simp
  from this [OF assms(1)] show ?thesis using assms(2) by (simp add: new_pipeline_def)
qed

lemma new_pipeline_tiles:
  assumes "new_pipeline as hsize = Inr p" and "tiles 0 as n"
  shows "p = \<lparr>dp_order = map la_node_id as, dp_hidden_size = hsize, dp_total_layers = n, dp_allocated = {}\<rparr>"
proof -
  have "as \<noteq> []" using assms(1) by (auto simp: new_pipeline_def)
  from new_pipeline_of_tiles [OF assms(2) this, of hsize] show ?thesis using assms(1) by (simp split: if_splits)
qed

text \<open>A pipeline is built from the result of the scheduler exactly when every node of it got a layer,
  and it then covers the layers of the model in the order of the schedule; a schedule that leaves a node
  without layers is refused.\<close>

theorem scheduled_pipeline:
  assumes "schedule inp = Some (Inr res)" and "assignments res \<noteq> []"
  shows "new_pipeline (assignments res) hsize =
    (if \<forall>a \<in> set (assignments res). la_start a < la_end a
     then Inr \<lparr>dp_order = map la_node_id (assignments res), dp_hidden_size = hsize,
               dp_total_layers = num_layers (in_config inp), dp_allocated = {}\<rparr>
     else Inl (Pipeline ''empty layer range for {}: {:?}''))"
  by (rule new_pipeline_of_tiles [OF schedule_tiles [OF assms(1)] assms(2)])

theorem scheduled_pipeline_witness:
  "\<exists>res. schedule (tiny_input 90 EqualSplit) = Some (Inr res)
     \<and> (is_ok (new_pipeline (assignments res) 8) \<longleftrightarrow> (\<forall>a \<in> set (assignments res). la_start a < la_end a))"
proof -
  obtain res where r: "schedule (tiny_input 90 EqualSplit) = Some (Inr res)" using tiny_equal ..
  have "tiles 0 (assignments res) 3" using schedule_tiles [OF r] by (simp add: tiny_input_def tiny_config_def)
  then have "assignments res \<noteq> []" by auto
  from scheduled_pipeline [OF r this, of 8] r show ?thesis by (simp add: is_ok_def)
qed


end
