(* ===== verification/Rebalance.thy ===== *)
theory Rebalance
  imports Pipeline_Correct
begin

text \<open>
  Redistributing the layers: \<open>fracture-coordinator/src/rebalance.rs\<close>. A forced rebalance composes the
  pipeline, the registry and the scheduler; \<open>sids\<close> and \<open>ks\<close> are the orders in which the hash set of
  sequences and the hash map of workers are traversed. \<open>None\<close> is a panic of the scheduler.
\<close>

record rebalance_result =
  rb_pipeline :: dist_pipeline
  rb_assignments :: "layer_assignment list"

definition rebalance_input :: "model_config \<Rightarrow> scheduling_mode \<Rightarrow> usize \<Rightarrow> worker_capabilities list \<Rightarrow> scheduler_input" where
  "rebalance_input cfg mode max_len caps = \<lparr>in_config = cfg, in_workers = caps, coordinator_compute = None, in_mode = mode,
     in_max_seq_len = max_len, hop_latency_ms = 0x40000000\<rparr>"

definition reconfigure_ack :: "model_config \<Rightarrow> usize \<Rightarrow> layer_assignment \<Rightarrow> register_ack_payload" where
  "reconfigure_ack cfg max_len a = \<lparr>ack_layer_start = word_of_nat (la_start a), ack_layer_end = word_of_nat (la_end a),
     ack_total_layers = word_of_nat (num_layers cfg), ack_max_seq_len = word_of_nat max_len, ack_model_config = cfg\<rparr>"

text \<open>Step 3. A worker that cannot be told is marked dead; the loop goes on.\<close>

definition tell_worker :: "wire_codec \<Rightarrow> register_ack_payload \<Rightarrow> string \<Rightarrow> peer_registry \<Rightarrow> peer_registry" where
  "tell_worker wc ack nid reg = (case reg nid of
      None \<Rightarrow> reg
    | Some entry \<Rightarrow> (case send (wc_crc wc) (ser_ack wc) Reconfigure 0 ack (we_writer entry) of
          (Inl e, w) \<Rightarrow> mark_dead nid (reg(nid \<mapsto> entry\<lparr>we_writer := w\<rparr>))
        | (Inr _, w) \<Rightarrow> reg(nid \<mapsto> entry\<lparr>we_writer := w\<rparr>)))"

fun reconfigure_each ::
    "wire_codec \<Rightarrow> model_config \<Rightarrow> usize \<Rightarrow> layer_assignment list \<Rightarrow> peer_registry \<Rightarrow> unit result \<times> peer_registry" where
  "reconfigure_each wc cfg max_len [] reg = (Inr (), reg)"
| "reconfigure_each wc cfg max_len (a # as) reg = (case assign (la_node_id a) a reg of
      (Inl e, reg') \<Rightarrow> (Inl (Pipeline ''forced rebalance: assign {} failed: {e}''), reg')
    | (Inr _, reg') \<Rightarrow>
        reconfigure_each wc cfg max_len as (tell_worker wc (reconfigure_ack cfg max_len a) (la_node_id a) reg'))"

text \<open>Step 4. One frame is received from every worker; what it is only shows in the log.\<close>

definition await_worker :: "wire_codec \<Rightarrow> layer_assignment \<Rightarrow> peer_registry \<Rightarrow> peer_registry" where
  "await_worker wc a reg = (case reg (la_node_id a) of
      None \<Rightarrow> reg
    | Some entry \<Rightarrow> reg(la_node_id a \<mapsto> entry\<lparr>we_reader := snd (recv (wc_crc wc) (we_reader entry))\<rparr>))"

definition forced_rebalance ::
    "wire_codec \<Rightarrow> u64 list \<Rightarrow> string list \<Rightarrow> dist_pipeline \<Rightarrow> model_config \<Rightarrow> scheduling_mode \<Rightarrow> usize \<Rightarrow> string list
     \<Rightarrow> peer_registry \<Rightarrow> (rebalance_result result \<times> dist_pipeline \<times> peer_registry) option" where
  "forced_rebalance wc sids ks p cfg mode max_len skip_node_ids reg =
     (case abort_all_sequences wc sids p reg of (_, p1, reg1) \<Rightarrow>
       let caps = filter (\<lambda>c. node_id c \<notin> set skip_node_ids) (all_capabilities ks reg1)
       in if caps = []
          then Some (Inl (Pipeline ''forced rebalance: no workers available after exclusions''), p1, reg1)
          else case schedule (rebalance_input cfg mode max_len caps) of
            None \<Rightarrow> None
          | Some (Inl e) \<Rightarrow> Some (Inl e, p1, reg1)
          | Some (Inr res) \<Rightarrow> (case reconfigure_each wc cfg max_len (assignments res) reg1 of
                (Inl e, reg2) \<Rightarrow> Some (Inl e, p1, reg2)
              | (Inr _, reg2) \<Rightarrow>
                  let reg3 = fold (await_worker wc) (assignments res) reg2
                  in Some (rbind (new_pipeline (assignments res) (hidden_size cfg)) (\<lambda>np.
                             Inr \<lparr>rb_pipeline = np, rb_assignments = assignments res\<rparr>), p1, reg3)))"

subsection \<open>A pending graceful rebalance\<close>

record pending_graceful_rebalance =
  pg_model_config :: model_config
  pg_scheduling_mode :: scheduling_mode
  pg_max_seq_len :: usize
  pg_skip_node_ids :: "string list"
  pg_cancelled :: bool

definition new_pending :: "model_config \<Rightarrow> scheduling_mode \<Rightarrow> usize \<Rightarrow> string list \<Rightarrow> pending_graceful_rebalance" where
  "new_pending cfg mode max_len skip = \<lparr>pg_model_config = cfg, pg_scheduling_mode = mode, pg_max_seq_len = max_len,
     pg_skip_node_ids = skip, pg_cancelled = False\<rparr>"

definition is_ready :: "pending_graceful_rebalance \<Rightarrow> usize \<Rightarrow> bool" where
  "is_ready pg active_sequence_count \<longleftrightarrow> \<not> pg_cancelled pg \<and> active_sequence_count = 0"

definition cancel :: "pending_graceful_rebalance \<Rightarrow> pending_graceful_rebalance" where
  "cancel pg = pg\<lparr>pg_cancelled := True\<rparr>"

subsection \<open>What the steps do to the registry\<close>

definition link_up :: "worker_entry \<Rightarrow> bool" where
  "link_up e \<longleftrightarrow> w_room (we_writer e) = None"

text \<open>Aborting sequences writes to links and changes nothing else.\<close>

definition only_written :: "worker_entry \<Rightarrow> worker_entry \<Rightarrow> bool" where
  "only_written e e' \<longleftrightarrow> (\<exists>w. e' = e\<lparr>we_writer := w\<rparr>) \<and> (link_up e \<longrightarrow> link_up e')"

lemma only_written_refl [simp]: "only_written e e"
  by (auto simp: only_written_def intro: exI [of _ "we_writer e"])

lemma only_written_trans: "only_written a b \<Longrightarrow> only_written b c \<Longrightarrow> only_written a c"
  by (auto simp: only_written_def)

lemma only_written_send: "only_written e (snd (send_empty_to wc mt sid e))"
  by (auto simp: only_written_def send_empty_to_def send_empty_def link_up_def send_raw_up split: prod.splits)

definition reg_written :: "peer_registry \<Rightarrow> peer_registry \<Rightarrow> bool" where
  "reg_written reg reg' \<longleftrightarrow> (\<forall>nid. rel_option only_written (reg nid) (reg' nid))"

lemma reg_written_refl [simp]: "reg_written reg reg"
  by (simp add: reg_written_def option.rel_refl)

lemma reg_written_trans: "reg_written a b \<Longrightarrow> reg_written b c \<Longrightarrow> reg_written a c"
  unfolding reg_written_def
proof
  fix nid assume "\<forall>nid. rel_option only_written (a nid) (b nid)" "\<forall>nid. rel_option only_written (b nid) (c nid)"
  then have "rel_option only_written (a nid) (b nid)" "rel_option only_written (b nid) (c nid)" by simp_all
  then show "rel_option only_written (a nid) (c nid)"
    by (cases "a nid"; cases "b nid"; cases "c nid") (auto intro: only_written_trans)
qed

lemma reg_written_upd: "reg nid = Some e \<Longrightarrow> only_written e e' \<Longrightarrow> reg_written reg (reg(nid \<mapsto> e'))"
  by (simp add: reg_written_def option.rel_refl)

lemma send_where_written: "reg_written reg (send_where P wc mt sid ids reg)"
proof (induction ids arbitrary: reg)
  case (Cons nid ids)
  have "reg_written reg (case reg nid of None \<Rightarrow> reg
      | Some e \<Rightarrow> if P e then reg(nid \<mapsto> snd (send_empty_to wc mt sid e)) else reg)"
    by (auto split: option.splits intro: reg_written_upd only_written_send)
  then show ?case unfolding send_where.simps using Cons.IH by (rule reg_written_trans)
qed simp

lemma abort_written:
  assumes "abort_all_sequences wc sids p reg = (xs, p', reg')"
  shows "reg_written reg reg' \<and> p' = p\<lparr>dp_allocated := {}\<rparr>"
proof -
  let ?f = "\<lambda>sid. send_where (\<lambda>e. we_status e = Ready) wc CacheFree sid (dp_order p)"
  have "reg_written reg (fold ?f sids reg)" for reg
  proof (induction sids arbitrary: reg)
    case (Cons s sids)
    show ?case using reg_written_trans [OF send_where_written Cons.IH] by simp
  qed simp
  then show ?thesis using assms by (auto simp: abort_all_sequences_def)
qed

lemma reg_written_Some:
  assumes "reg_written reg reg'"
  shows "reg' nid = Some e' \<Longrightarrow> \<exists>e. reg nid = Some e \<and> only_written e e'"
    and "reg' nid = None \<longleftrightarrow> reg nid = None"
proof -
  have "rel_option only_written (reg nid) (reg' nid)" using assms by (simp add: reg_written_def)
  then show "reg' nid = Some e' \<Longrightarrow> \<exists>e. reg nid = Some e \<and> only_written e e'" and "reg' nid = None \<longleftrightarrow> reg nid = None"
    by (cases "reg nid"; simp; cases "reg' nid"; simp)+
qed

text \<open>The workers a rebalance may use, and the entries they come from.\<close>

lemma in_capabilities:
  assumes "reg_ok reg" "lists_keys ks reg" "reg_written reg reg'" "c \<in> set (all_capabilities ks reg')"
  shows "\<exists>e. reg (node_id c) = Some e \<and> we_capabilities e = c \<and> we_status e \<noteq> Dead"
proof -
  from assms(4) obtain k e' where k: "k \<in> set ks" "e' = the (reg' k)" "we_status e' \<noteq> Dead" "c = we_capabilities e'"
    by (auto simp: all_capabilities_def entries_def)
  then obtain e where e: "reg k = Some e" using assms(2) by (auto simp: lists_keys_def)
  then have "reg' k = Some e'" using reg_written_Some(2) [OF assms(3), of k] k(2) by force
  from reg_written_Some(1) [OF assms(3) this] e have "only_written e e'" by simp
  then have "we_capabilities e = c" "we_status e \<noteq> Dead" using k by (auto simp: only_written_def)
  then show ?thesis using e reg_okD [OF assms(1) e] by auto
qed

lemma distinct_capabilities:
  assumes "reg_ok reg" "lists_keys ks reg" "reg_written reg reg'"
  shows "distinct (map node_id (all_capabilities ks reg'))"
proof -
  have "node_id (we_capabilities (the (reg' k))) = k" if "k \<in> set ks" for k
  proof -
    from that obtain e where e: "reg k = Some e" using assms(2) by (auto simp: lists_keys_def)
    then obtain e' where e': "reg' k = Some e'" using reg_written_Some(2) [OF assms(3), of k] by force
    from reg_written_Some(1) [OF assms(3) e'] e have "only_written e e'" by simp
    then show ?thesis using e' reg_okD [OF assms(1) e] by (auto simp: only_written_def)
  qed
  then have "map (\<lambda>e. node_id (we_capabilities e)) (entries ks reg') = ks" by (simp add: entries_def map_idI)
  then have "distinct (map (\<lambda>e. node_id (we_capabilities e)) (entries ks reg'))"
    using assms(2) by (simp add: lists_keys_def)
  from distinct_map_filter [OF this] show ?thesis by (simp add: all_capabilities_def comp_def)
qed

text \<open>The workers that are told their layers.\<close>

lemma tell_up:
  assumes "reg nid = Some e" "link_up e" "ser_ack wc ack = Inr bs"
  shows "tell_worker wc ack nid reg = reg(nid \<mapsto> e\<lparr>we_writer := (we_writer e)\<lparr>w_sent :=
    w_sent (we_writer e) @ write_frame (wc_crc wc) (frame_for Reconfigure 0 bs)\<rparr>\<rparr>)"
  using assms by (simp add: tell_worker_def send_def send_raw_up link_up_def)

definition told :: "wire_codec \<Rightarrow> model_config \<Rightarrow> usize \<Rightarrow> layer_assignment \<Rightarrow> worker_entry \<Rightarrow> worker_entry \<Rightarrow> bool" where
  "told wc cfg max_len a e e' \<longleftrightarrow> we_status e \<noteq> Dead \<and> we_status e' = Ready \<and> we_assignment e' = Some a
     \<and> we_reader e' = we_reader e
     \<and> (\<exists>bs. ser_ack wc (reconfigure_ack cfg max_len a) = Inr bs
          \<and> w_sent (we_writer e') = w_sent (we_writer e) @ write_frame (wc_crc wc) (frame_for Reconfigure 0 bs))"

lemma reconfigure_told:
  assumes "reconfigure_each wc cfg max_len as reg = (Inr (), reg')" and "distinct (map la_node_id as)"
    and "\<And>nid e. reg nid = Some e \<Longrightarrow> we_status e \<noteq> Dead \<Longrightarrow> link_up e" and "\<And>ack. \<exists>bs. ser_ack wc ack = Inr bs"
  shows "\<forall>a \<in> set as. \<exists>e e'. reg (la_node_id a) = Some e \<and> reg' (la_node_id a) = Some e' \<and> told wc cfg max_len a e e'"
    and "\<forall>nid. nid \<notin> la_node_id ` set as \<longrightarrow> reg' nid = reg nid"
proof -
  have "(\<forall>a \<in> set as. \<exists>e e'. reg (la_node_id a) = Some e \<and> reg' (la_node_id a) = Some e' \<and> told wc cfg max_len a e e')
      \<and> (\<forall>nid. nid \<notin> la_node_id ` set as \<longrightarrow> reg' nid = reg nid)"
    using assms(1-3)
  proof (induction as arbitrary: reg)
    case (Cons a as)
    let ?n = "la_node_id a"
    from Cons.prems(1) obtain e where e: "reg ?n = Some e" "we_status e \<noteq> Dead"
      by (auto simp: assign_def split: option.splits if_splits)
    let ?e1 = "e\<lparr>we_assignment := Some a, we_status := Ready\<rparr>"
    obtain bs where bs: "ser_ack wc (reconfigure_ack cfg max_len a) = Inr bs" using assms(4) by blast
    let ?e2 = "?e1\<lparr>we_writer := (we_writer e)\<lparr>w_sent := w_sent (we_writer e) @ write_frame (wc_crc wc) (frame_for Reconfigure 0 bs)\<rparr>\<rparr>"
    have up: "link_up e" using Cons.prems(3) e by blast
    have "link_up ?e1" using up by (simp add: link_up_def)
    from tell_up [OF _ this bs, of "reg(?n \<mapsto> ?e1)" ?n]
    have rest: "reconfigure_each wc cfg max_len as (reg(?n \<mapsto> ?e2)) = (Inr (), reg')"
      using Cons.prems(1) e by (simp add: assign_def)
    have ups: "link_up f" if "(reg(?n \<mapsto> ?e2)) m = Some f" "we_status f \<noteq> Dead" for m f
      using that Cons.prems(3) up by (cases "m = ?n") (auto simp: link_up_def)
    have d: "distinct (map la_node_id as)" and n: "?n \<notin> la_node_id ` set as" using Cons.prems(2) by auto
    note ih = Cons.IH [OF rest d ups]
    have "reg' ?n = Some ?e2" using ih n by simp
    moreover have "told wc cfg max_len a e ?e2" using e(2) bs by (simp add: told_def)
    ultimately have here: "\<exists>e e'. reg ?n = Some e \<and> reg' ?n = Some e' \<and> told wc cfg max_len a e e'" using e by blast
    have same: "(reg(?n \<mapsto> ?e2)) (la_node_id b) = reg (la_node_id b)" if "b \<in> set as" for b
      by (rule fun_upd_other) (use n that imageI [of b "set as" la_node_id] in metis)
    have "\<forall>b \<in> set as. \<exists>e e'. reg (la_node_id b) = Some e \<and> reg' (la_node_id b) = Some e' \<and> told wc cfg max_len b e e'"
      using ih same by simp
    moreover have "\<forall>nid. nid \<notin> la_node_id ` set (a # as) \<longrightarrow> reg' nid = reg nid" using ih by simp
    ultimately show ?case using here by simp
  qed simp
  then show "\<forall>a \<in> set as. \<exists>e e'. reg (la_node_id a) = Some e \<and> reg' (la_node_id a) = Some e' \<and> told wc cfg max_len a e e'"
    and "\<forall>nid. nid \<notin> la_node_id ` set as \<longrightarrow> reg' nid = reg nid" by blast+
qed

lemma await_other:
  "nid \<notin> la_node_id ` set as \<Longrightarrow> fold (await_worker wc) as reg nid = reg nid"
  by (induction as arbitrary: reg) (auto simp: await_worker_def split: option.splits)

lemma await_reads:
  assumes "distinct (map la_node_id as)" "a \<in> set as" "reg (la_node_id a) = Some e"
  shows "fold (await_worker wc) as reg (la_node_id a) = Some (e\<lparr>we_reader := snd (recv (wc_crc wc) (we_reader e))\<rparr>)"
  using assms
proof (induction as arbitrary: reg)
  case (Cons b as)
  show ?case
  proof (cases "a = b")
    case True
    then have "await_worker wc b reg = reg(la_node_id a \<mapsto> e\<lparr>we_reader := snd (recv (wc_crc wc) (we_reader e))\<rparr>)"
      using Cons.prems(3) by (simp add: await_worker_def)
    moreover have "la_node_id a \<notin> la_node_id ` set as" using True Cons.prems(1) by simp
    ultimately show ?thesis by (simp add: await_other)
  next
    case False
    then have "la_node_id a \<noteq> la_node_id b" "a \<in> set as"
      using Cons.prems imageI [of a "set as" la_node_id] by (simp_all, metis)
    moreover have "await_worker wc b reg (la_node_id a) = Some e"
      using calculation(1) Cons.prems(3) by (auto simp: await_worker_def split: option.splits)
    ultimately show ?thesis using Cons.IH Cons.prems(1) by simp
  qed
qed simp

subsection \<open>A successful rebalance\<close>

text \<open>Its intermediate states.\<close>

lemma rebalanced:
  assumes "forced_rebalance wc sids ks p cfg mode max_len skip reg = Some (Inr res, p', reg')"
  obtains reg1 reg2 sres caps where
    "reg_written reg reg1" "p' = p\<lparr>dp_allocated := {}\<rparr>"
    "caps = filter (\<lambda>c. node_id c \<notin> set skip) (all_capabilities ks reg1)" "caps \<noteq> []"
    "schedule (rebalance_input cfg mode max_len caps) = Some (Inr sres)" "rb_assignments res = assignments sres"
    "reconfigure_each wc cfg max_len (assignments sres) reg1 = (Inr (), reg2)"
    "reg' = fold (await_worker wc) (assignments sres) reg2"
    "new_pipeline (assignments sres) (hidden_size cfg) = Inr (rb_pipeline res)"
proof -
  obtain xs p1 reg1 where a: "abort_all_sequences wc sids p reg = (xs, p1, reg1)" using prod_cases3 by blast
  let ?caps = "filter (\<lambda>c. node_id c \<notin> set skip) (all_capabilities ks reg1)"
  have ne: "?caps \<noteq> []" using assms by (auto simp: forced_rebalance_def a Let_def split: if_splits)
  obtain sres where s: "schedule (rebalance_input cfg mode max_len ?caps) = Some (Inr sres)"
    using assms ne by (auto simp: forced_rebalance_def a Let_def split: if_splits option.splits sum.splits)
  obtain r reg2 where rc: "reconfigure_each wc cfg max_len (assignments sres) reg1 = (r, reg2)" by fastforce
  have r: "r = Inr ()" using assms ne by (cases r) (auto simp: forced_rebalance_def a s rc Let_def)
  have f: "Inr res = rbind (new_pipeline (assignments sres) (hidden_size cfg)) (\<lambda>np.
        Inr \<lparr>rb_pipeline = np, rb_assignments = assignments sres\<rparr>)"
      "p' = p1" "reg' = fold (await_worker wc) (assignments sres) reg2"
    using assms ne by (simp_all add: forced_rebalance_def a s rc r Let_def)
  from f(1) [symmetric] have "new_pipeline (assignments sres) (hidden_size cfg) = Inr (rb_pipeline res)"
      "rb_assignments res = assignments sres" by (auto simp: rbind_eq_Inr)
  then show thesis using that [OF _ _ refl ne s _ _ f(3)] abort_written [OF a] rc r f(2) by simp
qed

lemma rebalance_nodes:
  assumes "reg_ok reg" "lists_keys ks reg" "reg_written reg reg1"
    and "caps = filter (\<lambda>c. node_id c \<notin> set skip) (all_capabilities ks reg1)"
    and "schedule (rebalance_input cfg mode max_len caps) = Some (Inr sres)"
  shows "distinct (map la_node_id (assignments sres))
    \<and> (\<forall>a \<in> set (assignments sres). la_node_id a \<notin> set skip
         \<and> (\<exists>e. reg (la_node_id a) = Some e \<and> we_status e \<noteq> Dead))"
proof -
  have cs: "candidates (rebalance_input cfg mode max_len caps) = caps" by (simp add: candidates_def rebalance_input_def)
  have "distinct (map node_id caps)"
    unfolding assms(4) by (rule distinct_map_filter [OF distinct_capabilities [OF assms(1-3)]])
  then have "distinct (map la_node_id (assignments sres))" and m: "la_node_id ` set (assignments sres) \<subseteq> node_id ` set caps"
    using schedule_nodes [OF assms(5)] by (simp_all add: cs)
  moreover have "la_node_id a \<notin> set skip \<and> (\<exists>e. reg (la_node_id a) = Some e \<and> we_status e \<noteq> Dead)"
    if "a \<in> set (assignments sres)" for a
  proof -
    from that m obtain c where c: "c \<in> set caps" "la_node_id a = node_id c" by blast
    then show ?thesis using in_capabilities [OF assms(1-3), of c] by (auto simp: assms(4))
  qed
  ultimately show ?thesis by blast
qed

text \<open>Nothing but the scheduler can fail while the links hold.\<close>

lemma tell_other: "m \<noteq> nid \<Longrightarrow> tell_worker wc ack nid reg m = reg m"
  by (auto simp: tell_worker_def mark_dead_def split: option.splits sum.splits prod.splits)

lemma reconfigure_succeeds:
  assumes "distinct (map la_node_id as)" and "\<forall>a \<in> set as. \<exists>e. reg (la_node_id a) = Some e \<and> we_status e \<noteq> Dead"
  shows "fst (reconfigure_each wc cfg max_len as reg) = Inr ()"
  using assms
proof (induction as arbitrary: reg)
  case (Cons a as)
  from Cons.prems(2) obtain e where e: "reg (la_node_id a) = Some e" "we_status e \<noteq> Dead" by auto
  let ?reg = "tell_worker wc (reconfigure_ack cfg max_len a) (la_node_id a) (reg(la_node_id a \<mapsto> e\<lparr>we_assignment := Some a, we_status := Ready\<rparr>))"
  have "?reg (la_node_id b) = reg (la_node_id b)" if "b \<in> set as" for b
  proof -
    have "la_node_id b \<noteq> la_node_id a" using Cons.prems(1) imageI [OF that, of la_node_id] by (simp, metis)
    then show ?thesis by (simp add: tell_other)
  qed
  then have "fst (reconfigure_each wc cfg max_len as ?reg) = Inr ()" using Cons by simp
  then show ?case using e by (simp add: assign_def)
qed simp

subsection \<open>A cluster that is rebalanced\<close>

definition waiting_worker :: "string \<Rightarrow> worker_entry" where
  "waiting_worker n = (tiny_worker WorkerReady [])\<lparr>we_capabilities := tiny_node n 90,
     we_reader := write_frame (\<lambda>_. 0) (frame_for HeartbeatAck 0 []) @ write_frame (\<lambda>_. 0) (frame_for WorkerReady 0 []) @ []\<rparr>"

definition waiting_cluster :: peer_registry where
  "waiting_cluster = [''a'' \<mapsto> waiting_worker ''a'', ''b'' \<mapsto> waiting_worker ''b'', ''c'' \<mapsto> waiting_worker ''c'']"

lemma waiting_cluster_facts:
  "reg_ok waiting_cluster" "lists_keys [''a'', ''b'', ''c''] waiting_cluster"
  "\<forall>nid e. waiting_cluster nid = Some e \<longrightarrow> we_status e \<noteq> Dead \<longrightarrow> link_up e"
  by (auto simp: waiting_cluster_def waiting_worker_def tiny_worker_def tiny_node_def reg_ok_def lists_keys_def link_up_def
      split: if_splits)

lemma tiny_equal_ranges:
  assumes "schedule (tiny_input 90 EqualSplit) = Some (Inr res)"
  shows "map (\<lambda>a. (la_node_id a, la_start a, la_end a)) (assignments res) = [(''a'', 0, 1), (''b'', 1, 2), (''c'', 2, 3)]"
proof -
  let ?inp = "tiny_input 90 EqualSplit"
  let ?ws = "[tiny_node ''a'' 90, tiny_node ''b'' 90, tiny_node ''c'' 90]"
  have cs: "candidates ?inp = ?ws" "in_mode ?inp = EqualSplit" by (simp_all add: candidates_def tiny_input_def)
  have "schedule ?inp = build_result ?inp ?ws [1, 1, 1] []"
    unfolding schedule_plan [OF tiny_calibrated] cs plan_mode_def scheduling_mode.case tiny_plan_equal
      finish_plan_def by simp
  with assms have "build_result ?inp ?ws [1, 1, 1] [] = Some (Inr res)" by simp
  from build_result_Some [OF this] have "assignments res = build_assignments ?inp 3 0 0 (zip ?ws [1, 1, 1])"
    by (auto simp: numeral_3_eq_3)
  moreover have "map (\<lambda>a. (la_node_id a, la_start a, la_end a)) (build_assignments ?inp 3 0 0 (zip ?ws [1, 1, 1]))
      = [(''a'', 0, 1), (''b'', 1, 2), (''c'', 2, 3)]"
    by (simp add: tiny_node_def Let_def numeral_2_eq_2 numeral_3_eq_3)
  ultimately show ?thesis by simp
qed

lemma waiting_cluster_rebalanced:
  obtains res p' reg' a where
    "forced_rebalance tiny_codec [] [''a'', ''b'', ''c''] (empty_pipeline 2) tiny_config EqualSplit 1 [] waiting_cluster
       = Some (Inr res, p', reg')"
    "a \<in> set (rb_assignments res)" "la_node_id a = ''a''"
proof -
  let ?ids = "[''a'', ''b'', ''c'']" and ?inp = "tiny_input 90 EqualSplit"
  obtain sres where s: "schedule ?inp = Some (Inr sres)" using tiny_equal ..
  have "map (\<lambda>(n, _). n) (map (\<lambda>a. (la_node_id a, la_start a, la_end a)) (assignments sres)) = ?ids"
    unfolding tiny_equal_ranges [OF s] by simp
  then have ids: "map la_node_id (assignments sres) = ?ids" by (simp add: comp_def)
  have caps: "all_capabilities ?ids waiting_cluster = in_workers ?inp"
    by (simp add: all_capabilities_def entries_def waiting_cluster_def waiting_worker_def tiny_worker_def tiny_input_def)
  have inp: "rebalance_input tiny_config EqualSplit 1 (in_workers ?inp) = ?inp"
    by (simp add: rebalance_input_def tiny_input_def)
  have "\<exists>e. waiting_cluster (la_node_id a) = Some e \<and> we_status e \<noteq> Dead" if "a \<in> set (assignments sres)" for a
  proof -
    have "la_node_id a \<in> set ?ids" using that unfolding ids [symmetric] by simp
    then show ?thesis by (auto simp: waiting_cluster_def waiting_worker_def tiny_worker_def)
  qed
  then have "fst (reconfigure_each tiny_codec tiny_config 1 (assignments sres) waiting_cluster) = Inr ()"
    by (intro reconfigure_succeeds) (simp_all add: ids)
  then obtain reg2 where rc: "reconfigure_each tiny_codec tiny_config 1 (assignments sres) waiting_cluster = (Inr (), reg2)"
    by (metis prod.collapse)
  have "(la_node_id a, la_start a, la_end a) \<in> set [(''a'', 0, 1), (''b'', 1, 2), (''c'', 2, 3)]" if "a \<in> set (assignments sres)" for a
    using that unfolding tiny_equal_ranges [OF s, symmetric] by simp
  then have ne: "\<forall>a \<in> set (assignments sres). la_start a < la_end a" by fastforce
  have "assignments sres \<noteq> []" using ids by auto
  then obtain np where "new_pipeline (assignments sres) 2 = Inr np"
    using new_pipeline_of_tiles [OF schedule_tiles [OF s], of 2] ne by simp
  moreover have "in_workers ?inp \<noteq> []" "hidden_size tiny_config = 2" by (simp_all add: tiny_input_def tiny_config_def)
  ultimately have f: "forced_rebalance tiny_codec [] ?ids (empty_pipeline 2) tiny_config EqualSplit 1 [] waiting_cluster
      = Some (Inr \<lparr>rb_pipeline = np, rb_assignments = assignments sres\<rparr>, (empty_pipeline 2)\<lparr>dp_allocated := {}\<rparr>,
              fold (await_worker tiny_codec) (assignments sres) reg2)"
    by (simp add: forced_rebalance_def abort_all_sequences_def caps inp s rc Let_def del: One_nat_def)
  obtain a where "assignments sres = a # tl (assignments sres)" "la_node_id a = ''a''" using ids by (cases "assignments sres") auto
  then have "a \<in> set (assignments sres)" "la_node_id a = ''a''" by (metis list.set_intros(1), simp)
  then show thesis using that [OF f] by simp
qed

subsection \<open>Properties\<close>



text \<open>C39: a rebalance takes whatever frame is next on a worker's stream for its readiness. When the
  acknowledgement of the last heartbeat is still there, the \<open>WorkerReady\<close> of the worker is left behind, and
  the next forward pass reads it as the answer to its request and fails.\<close>

theorem rebalance_leaves_ready_frame:
  assumes "reg_ok reg" and "lists_keys ks reg"
    and "\<forall>nid e. reg nid = Some e \<longrightarrow> we_status e \<noteq> Dead \<longrightarrow> link_up e"
    and "\<forall>ack. \<exists>bs. ser_ack wc ack = Inr bs"
    and "forced_rebalance wc sids ks p cfg mode max_len skip reg = Some (Inr res, p', reg')"
    and "a \<in> set (rb_assignments res)" and "reg (la_node_id a) = Some e"
    and "we_reader e = write_frame (wc_crc wc) (frame_for HeartbeatAck 0 ack) @ write_frame (wc_crc wc) (frame_for WorkerReady 0 []) @ r"
    and "payload_fits ack"
  shows "\<exists>e'. reg' (la_node_id a) = Some e'
    \<and> recv_skipping_heartbeat_acks (wc_crc wc) (we_reader e') = (Inr (frame_for WorkerReady 0 []), r)
    \<and> forward_output wc (fst (frame_for WorkerReady 0 [])) [] = Inl (Protocol ''expected ForwardResult from {}, got {:?}'')"
  using assms(5)
proof (rule rebalanced)
  fix reg1 reg2 sres caps
  assume w: "reg_written reg reg1"
    and caps: "caps = filter (\<lambda>c. node_id c \<notin> set skip) (all_capabilities ks reg1)"
    and s: "schedule (rebalance_input cfg mode max_len caps) = Some (Inr sres)" and as: "rb_assignments res = assignments sres"
    and rc: "reconfigure_each wc cfg max_len (assignments sres) reg1 = (Inr (), reg2)"
    and reg': "reg' = fold (await_worker wc) (assignments sres) reg2"
  let ?crc = "wc_crc wc" and ?ready = "frame_for WorkerReady 0 []" and ?hb = "frame_for HeartbeatAck 0 ack"
  from rebalance_nodes [OF assms(1,2) w caps s] have d: "distinct (map la_node_id (assignments sres))" by blast
  have a: "a \<in> set (assignments sres)" using assms(6) as by simp
  have up: "link_up e" if e: "reg1 nid = Some e" "we_status e \<noteq> Dead" for nid e
    using reg_written_Some(1) [OF w e(1)] assms(3) e(2) by (auto simp: only_written_def)
  have "\<exists>e e'. reg1 (la_node_id a) = Some e \<and> reg2 (la_node_id a) = Some e' \<and> told wc cfg max_len a e e'"
    using reconfigure_told(1) [OF rc d] up assms(4) a by simp
  then obtain e1 e2 where e1: "reg1 (la_node_id a) = Some e1" and e2: "reg2 (la_node_id a) = Some e2"
    and t: "told wc cfg max_len a e1 e2" by blast
  have "we_reader e1 = we_reader e" using reg_written_Some(1) [OF w e1] assms(7) by (auto simp: only_written_def)
  then have "we_reader e2 = write_frame ?crc ?hb @ write_frame ?crc ?ready @ r" using t assms(8) by (simp add: told_def)
  then have "recv ?crc (we_reader e2) = (Inr ?hb, write_frame ?crc ?ready @ r)"
    using recv_write frame_for_ok [OF assms(9)] by simp
  then have r: "reg' (la_node_id a) = Some (e2\<lparr>we_reader := write_frame ?crc ?ready @ r\<rparr>)"
    using await_reads [of "assignments sres" a reg2 e2 wc, OF d a e2] by (simp add: reg')
  have "recv_skipping_heartbeat_acks ?crc (write_frame ?crc ?ready @ r) = (Inr ?ready, r)"
    using recv_skipping_frame [of "[]" ?ready ?crc r] frame_for_ok [OF payload_fits_small, of "[]"]
    by (simp add: frame_for_def)
  with r show ?thesis by (simp add: forward_output_def frame_for_def)
qed

theorem rebalance_leaves_ready_frame_witness:
  "\<exists>res p' reg' e. forced_rebalance tiny_codec [] [''a'', ''b'', ''c''] (empty_pipeline 2) tiny_config EqualSplit 1 [] waiting_cluster
      = Some (Inr res, p', reg') \<and> reg' ''a'' = Some e
    \<and> recv_skipping_heartbeat_acks (\<lambda>_. 0) (we_reader e) = (Inr (frame_for WorkerReady 0 []), [])"
proof -
  obtain res p' reg' a where f: "forced_rebalance tiny_codec [] [''a'', ''b'', ''c''] (empty_pipeline 2) tiny_config EqualSplit 1 []
      waiting_cluster = Some (Inr res, p', reg')" and a: "a \<in> set (rb_assignments res)" "la_node_id a = ''a''"
    using waiting_cluster_rebalanced .
  have s: "\<forall>ack. \<exists>bs. ser_ack tiny_codec ack = Inr bs" and c: "wc_crc tiny_codec = (\<lambda>_. 0)" by (simp_all add: tiny_codec_def)
  have e: "waiting_cluster (la_node_id a) = Some (waiting_worker ''a'')" by (simp add: a(2) waiting_cluster_def)
  have r: "we_reader (waiting_worker ''a'') = write_frame (wc_crc tiny_codec) (frame_for HeartbeatAck 0 [])
      @ write_frame (wc_crc tiny_codec) (frame_for WorkerReady 0 []) @ []" by (simp add: waiting_worker_def c)
  have "payload_fits []" by (rule payload_fits_small) simp
  from rebalance_leaves_ready_frame [OF waiting_cluster_facts s f a(1) e r this] f show ?thesis by (auto simp: a(2) c)
qed

end
