(* ===== verification/Block_Ledger.thy ===== *)
theory Block_Ledger
  imports Core
begin

text \<open>
  What a paged cache promises about its blocks, apart from the tensors behind them. A ledger holds
  the stack of free blocks and, for every sequence, the blocks it owns in order, how full the last
  one is and how many tokens it stores. Both cache managers of \<open>fracture-engine\<close> keep such a ledger;
  the locale \<open>block_manager\<close> says that a manager's operations act on it as the ledger's do, and gives
  each manager the invariants of the ledger.
\<close>

definition BLOCK_SIZE :: usize where
  "BLOCK_SIZE = 16"

record sequence_blocks =
  block_table :: "usize list"
  last_block_fill :: usize
  current_len :: usize

record ledger =
  lg_free :: "usize list"
  lg_capacity :: usize
  lg_seqs :: "u64 \<rightharpoonup> sequence_blocks"
  lg_next :: u64

text \<open>The top of the stack of free blocks is the end of the list.\<close>

definition take_block :: "usize \<Rightarrow> usize list \<Rightarrow> (usize \<times> usize list) result" where
  "take_block bpb fl = (if fl = [] then Inl (OutOfMemory bpb 0) else Inr (last fl, butlast fl))"

definition ledger_alloc :: "usize \<Rightarrow> ledger \<Rightarrow> u64 result \<times> ledger" where
  "ledger_alloc bpb L =
     (let L' = L\<lparr>lg_next := lg_next L + 1\<rparr>
      in case take_block bpb (lg_free L) of
           Inl e \<Rightarrow> (Inl e, L')
         | Inr (b, fl) \<Rightarrow> (Inr (lg_next L), L'\<lparr>lg_free := fl, lg_seqs := (lg_seqs L)(lg_next L \<mapsto>
             \<lparr>block_table = [b], last_block_fill = 0, current_len = 0\<rparr>)\<rparr>))"

definition ledger_release :: "u64 \<Rightarrow> ledger \<Rightarrow> unit result \<times> ledger" where
  "ledger_release h L = (case lg_seqs L h of
      None \<Rightarrow> (Inl (KvCache ''invalid handle: {}''), L)
    | Some s \<Rightarrow> (Inr (), L\<lparr>lg_free := lg_free L @ block_table s, lg_seqs := (lg_seqs L)(h := None)\<rparr>))"

function grow ::
    "usize \<Rightarrow> usize list \<Rightarrow> usize list \<Rightarrow> usize \<Rightarrow> usize \<Rightarrow> usize result \<times> usize list \<times> usize list" where
  "grow bpb fl table fill remaining =
     (if remaining = 0 then (Inr fill, fl, table)
      else if BLOCK_SIZE - fill = 0
      then (case take_block bpb fl of
              Inl e \<Rightarrow> (Inl e, fl, table)
            | Inr (b, fl') \<Rightarrow> grow bpb fl' (table @ [b]) 0 remaining)
      else let w = min remaining (BLOCK_SIZE - fill)
           in grow bpb fl table (fill + w) (remaining - w))"
  by pat_completeness auto
termination
  by (relation "measures [\<lambda>(bpb, fl, table, fill, remaining). remaining,
      \<lambda>(bpb, fl, table, fill, remaining). if BLOCK_SIZE \<le> fill then 1 else 0]")
    (auto simp: BLOCK_SIZE_def)

declare grow.simps [simp del]

text \<open>Room for \<open>n\<close> more tokens: an error keeps the blocks already taken in the table.\<close>

definition ledger_extend :: "usize \<Rightarrow> u64 \<Rightarrow> usize \<Rightarrow> ledger \<Rightarrow> unit result \<times> ledger" where
  "ledger_extend bpb h n L = (case lg_seqs L h of
      None \<Rightarrow> (Inl (KvCache ''invalid handle: {}''), L)
    | Some s \<Rightarrow> (case grow bpb (lg_free L) (block_table s) (last_block_fill s) n of
          (Inl e, fl, table) \<Rightarrow>
            (Inl e, L\<lparr>lg_free := fl, lg_seqs := (lg_seqs L)(h \<mapsto> s\<lparr>block_table := table\<rparr>)\<rparr>)
        | (Inr fill, fl, table) \<Rightarrow>
            (Inr (), L\<lparr>lg_free := fl, lg_seqs := (lg_seqs L)(h \<mapsto>
               \<lparr>block_table = table, last_block_fill = fill, current_len = current_len s + n\<rparr>)\<rparr>)))"

subsection \<open>The growing loop\<close>

text \<open>Blocks move from the top of the stack to the end of the table; the loop ends with the tokens
  placed, or with the stack empty.\<close>

lemma grow_effect:
  assumes "grow bpb fl table fill remaining = (r, fl', table')" and "fill \<le> BLOCK_SIZE"
  shows "\<exists>bs. fl = fl' @ rev bs \<and> table' = table @ bs
    \<and> (case r of
         Inr f \<Rightarrow> f + BLOCK_SIZE * length bs = fill + remaining \<and> f \<le> BLOCK_SIZE \<and> (bs \<noteq> [] \<longrightarrow> 0 < f)
       | Inl e \<Rightarrow> e = OutOfMemory bpb 0 \<and> fl' = [] \<and> BLOCK_SIZE * Suc (length bs) < fill + remaining)"
  using assms
proof (induction bpb fl table fill remaining rule: grow.induct)
  case (1 bpb fl table fill remaining)
  consider "remaining = 0" | "remaining \<noteq> 0" "fill = BLOCK_SIZE" "fl = []"
    | b fl1 where "remaining \<noteq> 0" "fill = BLOCK_SIZE" "fl = fl1 @ [b]"
    | "remaining \<noteq> 0" "fill < BLOCK_SIZE"
    using "1.prems"(2) by (cases fl rule: rev_cases) fastforce+
  then show ?case
  proof cases
    case 1
    then show ?thesis using "1.prems" by (subst (asm) grow.simps) (auto intro!: exI [of _ "[]"])
  next
    case 2
    then show ?thesis using "1.prems"
      by (subst (asm) grow.simps) (auto simp: take_block_def BLOCK_SIZE_def intro!: exI [of _ "[]"])
  next
    case 3
    have step: "grow bpb fl1 (table @ [b]) 0 remaining = (r, fl', table')"
      using "1.prems"(1) 3 by (subst (asm) grow.simps) (simp add: take_block_def)
    obtain bs where bs: "fl1 = fl' @ rev bs" "table' = (table @ [b]) @ bs"
      "case r of Inr f \<Rightarrow> f + BLOCK_SIZE * length bs = 0 + remaining \<and> f \<le> BLOCK_SIZE \<and> (bs \<noteq> [] \<longrightarrow> 0 < f)
       | Inl e \<Rightarrow> e = OutOfMemory bpb 0 \<and> fl' = [] \<and> BLOCK_SIZE * Suc (length bs) < 0 + remaining"
      using "1.IH"(1) [of "(b, fl1)" b fl1] 3 step by (auto simp: take_block_def)
    have "case r of Inr f \<Rightarrow> f + BLOCK_SIZE * length (b # bs) = fill + remaining \<and> f \<le> BLOCK_SIZE \<and> 0 < f
       | Inl e \<Rightarrow> e = OutOfMemory bpb 0 \<and> fl' = [] \<and> BLOCK_SIZE * Suc (length (b # bs)) < fill + remaining"
      using bs(3) 3 by (cases r; cases bs) auto
    then show ?thesis using bs(1,2) 3 by (intro exI [of _ "b # bs"]) (auto split: sum.splits)
  next
    case 4
    let ?w = "min remaining (BLOCK_SIZE - fill)"
    have step: "grow bpb fl table (fill + ?w) (remaining - ?w) = (r, fl', table')"
      using "1.prems"(1) 4 by (subst (asm) grow.simps) (simp add: Let_def)
    have eq: "fill + ?w + (remaining - ?w) = fill + remaining" and le: "fill + ?w \<le> BLOCK_SIZE"
      using 4 by auto
    have "\<not> BLOCK_SIZE - fill = 0" using 4 by simp
    from "1.IH"(2) [OF 4(1) this refl step le] show ?thesis unfolding eq .
  qed
qed

lemma grow_succeeds_iff:
  assumes "fill \<le> BLOCK_SIZE"
  shows "is_ok (fst (grow bpb fl table fill remaining)) \<longleftrightarrow> fill + remaining \<le> BLOCK_SIZE * Suc (length fl)"
proof -
  obtain r fl' table' where g: "grow bpb fl table fill remaining = (r, fl', table')"
    by (cases "grow bpb fl table fill remaining")
  from grow_effect [OF g assms] obtain bs where bs: "fl = fl' @ rev bs"
    "case r of Inr f \<Rightarrow> f + BLOCK_SIZE * length bs = fill + remaining \<and> f \<le> BLOCK_SIZE \<and> (bs \<noteq> [] \<longrightarrow> 0 < f)
     | Inl e \<Rightarrow> e = OutOfMemory bpb 0 \<and> fl' = [] \<and> BLOCK_SIZE * Suc (length bs) < fill + remaining"
    by blast
  show ?thesis
  proof (cases r)
    case (Inr f)
    have "BLOCK_SIZE * length bs \<le> BLOCK_SIZE * length fl" unfolding bs(1) by (intro mult_left_mono) simp_all
    moreover have "f + BLOCK_SIZE * length bs = fill + remaining" "f \<le> BLOCK_SIZE" using bs(2) Inr by simp_all
    ultimately show ?thesis unfolding g Inr is_ok_def mult_Suc_right by (simp only: fst_conv sum.case simp_thms)
  next
    case (Inl e)
    then have "BLOCK_SIZE * Suc (length fl) < fill + remaining" using bs by simp
    then show ?thesis unfolding g Inl is_ok_def by simp
  qed
qed

subsection \<open>Ownership\<close>

text \<open>Every block has one owner: the stack, or one sequence, once. No block is lost or made up.\<close>

definition owned :: "ledger \<Rightarrow> u64 \<Rightarrow> usize set" where
  "owned L h = (case lg_seqs L h of None \<Rightarrow> {} | Some s \<Rightarrow> set (block_table s))"

definition ledger_inv :: "ledger \<Rightarrow> bool" where
  "ledger_inv L \<longleftrightarrow>
     distinct (lg_free L)
     \<and> (\<forall>h s. lg_seqs L h = Some s \<longrightarrow> distinct (block_table s) \<and> h < lg_next L \<and> last_block_fill s \<le> BLOCK_SIZE)
     \<and> (\<forall>h. owned L h \<inter> set (lg_free L) = {})
     \<and> (\<forall>h k. h \<noteq> k \<longrightarrow> owned L h \<inter> owned L k = {})
     \<and> set (lg_free L) \<union> (\<Union>h. owned L h) = {..<lg_capacity L}"

lemma ledger_invD:
  assumes "ledger_inv L"
  shows "distinct (lg_free L)"
    and "lg_seqs L h = Some s \<Longrightarrow> distinct (block_table s)"
    and "lg_seqs L h = Some s \<Longrightarrow> h < lg_next L"
    and "lg_seqs L h = Some s \<Longrightarrow> last_block_fill s \<le> BLOCK_SIZE"
    and "lg_seqs L h = Some s \<Longrightarrow> set (block_table s) \<inter> set (lg_free L) = {}"
proof -
  have "owned L h \<inter> set (lg_free L) = {}" using assms unfolding ledger_inv_def by blast
  then show "lg_seqs L h = Some s \<Longrightarrow> set (block_table s) \<inter> set (lg_free L) = {}" by (simp add: owned_def)
qed (use assms in \<open>unfold ledger_inv_def, blast+\<close>)

text \<open>Moving blocks between the stack and the table of one sequence, as all operations do.\<close>

definition transfer :: "ledger \<Rightarrow> u64 \<Rightarrow> ledger \<Rightarrow> bool" where
  "transfer L h L' \<longleftrightarrow> lg_capacity L' = lg_capacity L \<and> lg_next L \<le> lg_next L'
     \<and> (\<forall>k. k \<noteq> h \<longrightarrow> lg_seqs L' k = lg_seqs L k)
     \<and> (\<forall>s. lg_seqs L' h = Some s \<longrightarrow> distinct (block_table s) \<and> h < lg_next L' \<and> last_block_fill s \<le> BLOCK_SIZE)
     \<and> distinct (lg_free L') \<and> owned L' h \<inter> set (lg_free L') = {}
     \<and> set (lg_free L') \<union> owned L' h = set (lg_free L) \<union> owned L h"

lemma owned_other: "transfer L h L' \<Longrightarrow> k \<noteq> h \<Longrightarrow> owned L' k = owned L k"
  by (simp add: transfer_def owned_def)

lemma Union_owned: "(\<Union>k. owned L k) = owned L h \<union> (\<Union>k \<in> - {h}. owned L k)"
  by blast

lemma transfer_inv:
  assumes inv: "ledger_inv L" and t: "transfer L h L'"
  shows "ledger_inv L'"
proof -
  have old: "\<And>k s. lg_seqs L k = Some s \<Longrightarrow> distinct (block_table s) \<and> k < lg_next L \<and> last_block_fill s \<le> BLOCK_SIZE"
    and disj: "\<And>j k. j \<noteq> k \<Longrightarrow> owned L j \<inter> owned L k = {}"
    and off: "\<And>k. owned L k \<inter> set (lg_free L) = {}"
    and all: "set (lg_free L) \<union> (\<Union>k. owned L k) = {..<lg_capacity L}"
    using inv unfolding ledger_inv_def by blast+
  have new: "\<And>s. lg_seqs L' h = Some s \<Longrightarrow> distinct (block_table s) \<and> h < lg_next L' \<and> last_block_fill s \<le> BLOCK_SIZE"
    and same: "\<And>k. k \<noteq> h \<Longrightarrow> lg_seqs L' k = lg_seqs L k" and up: "lg_next L \<le> lg_next L'"
    and cap: "lg_capacity L' = lg_capacity L" and d: "distinct (lg_free L')"
    and apart: "owned L' h \<inter> set (lg_free L') = {}"
    and un: "set (lg_free L') \<union> owned L' h = set (lg_free L) \<union> owned L h"
    using t unfolding transfer_def by blast+
  have sep: "owned L k \<inter> (set (lg_free L') \<union> owned L' h) = {}" if "k \<noteq> h" for k
    unfolding un using off [of k] disj [OF that] by blast
  have 1: "distinct (block_table s) \<and> k < lg_next L' \<and> last_block_fill s \<le> BLOCK_SIZE"
    if "lg_seqs L' k = Some s" for k s
    using that new old [of k s] same [of k] up by (cases "k = h") (auto intro: less_le_trans)
  have 2: "owned L' k \<inter> set (lg_free L') = {}" for k
    using apart sep [of k] owned_other [OF t, of k] by (cases "k = h") auto
  have 3: "owned L' j \<inter> owned L' k = {}" if "j \<noteq> k" for j k
  proof -
    consider "j = h" "k \<noteq> h" | "j \<noteq> h" "k = h" | "j \<noteq> h" "k \<noteq> h" using \<open>j \<noteq> k\<close> by blast
    then show ?thesis
    proof cases
      case 1 then show ?thesis using sep [OF 1(2)] owned_other [OF t 1(2)] by auto
    next
      case 2 then show ?thesis using sep [OF 2(1)] owned_other [OF t 2(1)] by auto
    next
      case 3 then show ?thesis using disj [OF that] owned_other [OF t 3(1)] owned_other [OF t 3(2)] by simp
    qed
  qed
  have "(\<Union>k \<in> - {h}. owned L' k) = (\<Union>k \<in> - {h}. owned L k)" using owned_other [OF t] by simp
  then have "set (lg_free L') \<union> (\<Union>k. owned L' k) = set (lg_free L) \<union> (\<Union>k. owned L k)"
    unfolding Union_owned [of L' h] Union_owned [of L h] Un_assoc [symmetric] un by simp
  then have 4: "set (lg_free L') \<union> (\<Union>k. owned L' k) = {..<lg_capacity L'}" using all cap by simp
  show ?thesis unfolding ledger_inv_def using d 1 2 3 4 by blast
qed

lemma ledger_alloc_transfer:
  assumes "ledger_inv L" and "lg_next L \<noteq> - 1" and "ledger_alloc bpb L = (r, L')"
  shows "transfer L (lg_next L) L'"
proof -
  have none: "lg_seqs L (lg_next L) = None"
    using ledger_invD(3) [OF assms(1), of "lg_next L"] by (cases "lg_seqs L (lg_next L)") auto
  have up: "lg_next L < lg_next L + 1" using assms(2) by (simp add: not_le [symmetric] inc_less_eq_self_iff_eq)
  show ?thesis
  proof (cases "lg_free L" rule: rev_cases)
    case Nil
    then show ?thesis using ledger_invD(1) [OF assms(1)] assms(3) none up
      by (auto simp: ledger_alloc_def take_block_def transfer_def owned_def Let_def)
  next
    case (snoc fl b)
    then show ?thesis using ledger_invD(1) [OF assms(1)] assms(3) none up
      by (auto simp: ledger_alloc_def take_block_def transfer_def owned_def Let_def)
  qed
qed

lemma ledger_release_transfer:
  assumes "ledger_inv L" and "ledger_release h L = (r, L')"
  shows "transfer L h L'"
proof (cases "lg_seqs L h")
  case None
  then show ?thesis using ledger_invD(1) [OF assms(1)] assms(2)
    by (auto simp: ledger_release_def transfer_def owned_def)
next
  case (Some s)
  then show ?thesis using ledger_invD(1) [OF assms(1)] ledger_invD(2,5) [OF assms(1) Some] assms(2)
    by (auto simp: ledger_release_def transfer_def owned_def)
qed

lemma ledger_extend_transfer:
  assumes "ledger_inv L" and "ledger_extend bpb h n L = (r, L')"
  shows "transfer L h L'"
proof (cases "lg_seqs L h")
  case None
  then show ?thesis using ledger_invD(1) [OF assms(1)] assms(2)
    by (auto simp: ledger_extend_def transfer_def owned_def)
next
  case (Some s)
  obtain g fl table where g: "grow bpb (lg_free L) (block_table s) (last_block_fill s) n = (g, fl, table)"
    by (cases "grow bpb (lg_free L) (block_table s) (last_block_fill s) n")
  have s: "distinct (block_table s)" "h < lg_next L" "last_block_fill s \<le> BLOCK_SIZE"
    and d: "distinct (lg_free L)" "set (block_table s) \<inter> set (lg_free L) = {}"
    using ledger_invD [OF assms(1)] Some by blast+
  from grow_effect [OF g s(3)] obtain bs where bs: "lg_free L = fl @ rev bs" "table = block_table s @ bs"
    and c: "case g of Inr f \<Rightarrow> f + BLOCK_SIZE * length bs = last_block_fill s + n \<and> f \<le> BLOCK_SIZE
        \<and> (bs \<noteq> [] \<longrightarrow> 0 < f)
      | Inl e \<Rightarrow> e = OutOfMemory bpb 0 \<and> fl = [] \<and> BLOCK_SIZE * Suc (length bs) < last_block_fill s + n"
    by blast
  have fill: "f \<le> BLOCK_SIZE" if "g = Inr f" for f using c that by simp
  have t: "distinct table" "distinct fl" "set table \<inter> set fl = {}"
      "set fl \<union> set table = set (lg_free L) \<union> set (block_table s)"
    using s d bs by auto
  have "\<exists>s'. L' = L\<lparr>lg_free := fl, lg_seqs := (lg_seqs L)(h \<mapsto> s')\<rparr> \<and> block_table s' = table
      \<and> last_block_fill s' \<le> BLOCK_SIZE"
    using assms(2) Some g s(3) fill by (cases g) (auto simp: ledger_extend_def)
  then obtain s' where "L' = L\<lparr>lg_free := fl, lg_seqs := (lg_seqs L)(h \<mapsto> s')\<rparr>" "block_table s' = table"
      "last_block_fill s' \<le> BLOCK_SIZE" by blast
  then show ?thesis using t s(2) Some by (simp add: transfer_def owned_def)
qed

subsection \<open>Table and length agree\<close>

text \<open>All blocks of a sequence but the last are full.\<close>

definition tight :: "sequence_blocks \<Rightarrow> bool" where
  "tight s \<longleftrightarrow> block_table s \<noteq> [] \<and> last_block_fill s \<le> BLOCK_SIZE
     \<and> current_len s + BLOCK_SIZE = BLOCK_SIZE * length (block_table s) + last_block_fill s
     \<and> (1 < length (block_table s) \<longrightarrow> 0 < last_block_fill s)"

text \<open>Weaker, and true of every sequence at all times: the tokens fit in its blocks.\<close>

definition roomy :: "sequence_blocks \<Rightarrow> bool" where
  "roomy s \<longleftrightarrow> last_block_fill s \<le> BLOCK_SIZE
     \<and> current_len s + BLOCK_SIZE \<le> BLOCK_SIZE * length (block_table s) + last_block_fill s"

definition all_roomy :: "ledger \<Rightarrow> bool" where
  "all_roomy L \<longleftrightarrow> (\<forall>h s. lg_seqs L h = Some s \<longrightarrow> roomy s)"

lemma tight_roomy: "tight s \<Longrightarrow> roomy s"
  by (simp add: tight_def roomy_def)

lemma grow_roomy:
  assumes "grow bpb fl (block_table s) (last_block_fill s) n = (r, fl', table)" and "roomy s"
  shows "case r of Inl e \<Rightarrow> roomy (s\<lparr>block_table := table\<rparr>)
    | Inr fill \<Rightarrow> roomy \<lparr>block_table = table, last_block_fill = fill, current_len = current_len s + n\<rparr>"
proof -
  have f: "last_block_fill s \<le> BLOCK_SIZE" using assms(2) by (simp add: roomy_def)
  from grow_effect [OF assms(1) f] obtain bs where bs: "table = block_table s @ bs"
    and c: "case r of Inr f \<Rightarrow> f + BLOCK_SIZE * length bs = last_block_fill s + n \<and> f \<le> BLOCK_SIZE
        \<and> (bs \<noteq> [] \<longrightarrow> 0 < f)
      | Inl e \<Rightarrow> e = OutOfMemory bpb 0 \<and> fl' = [] \<and> BLOCK_SIZE * Suc (length bs) < last_block_fill s + n"
    by blast
  show ?thesis using assms(2) c by (cases r) (simp_all add: bs roomy_def algebra_simps)
qed

lemma all_roomy_upd: "all_roomy L \<Longrightarrow> roomy s \<Longrightarrow> all_roomy (L\<lparr>lg_free := fl, lg_seqs := (lg_seqs L)(h \<mapsto> s)\<rparr>)"
  by (simp add: all_roomy_def)

lemma ledger_extend_roomy:
  assumes "all_roomy L" and "ledger_extend bpb h n L = (q, L')"
  shows "all_roomy L'"
proof (cases "lg_seqs L h")
  case None
  then show ?thesis using assms by (simp add: ledger_extend_def)
next
  case (Some s)
  then have s: "roomy s" using assms(1) by (simp add: all_roomy_def)
  obtain r fl table where g: "grow bpb (lg_free L) (block_table s) (last_block_fill s) n = (r, fl, table)"
    by (cases "grow bpb (lg_free L) (block_table s) (last_block_fill s) n")
  show ?thesis using assms Some g grow_roomy [OF g s] all_roomy_upd [OF assms(1)]
    by (cases r) (auto simp: ledger_extend_def)
qed

lemma ledger_alloc_roomy: "all_roomy L \<Longrightarrow> ledger_alloc bpb L = (r, L') \<Longrightarrow> all_roomy L'"
  by (auto simp: ledger_alloc_def all_roomy_def roomy_def Let_def split: sum.splits if_splits)

lemma ledger_release_roomy: "all_roomy L \<Longrightarrow> ledger_release h L = (r, L') \<Longrightarrow> all_roomy L'"
  by (auto simp: ledger_release_def all_roomy_def split: option.splits if_splits)

lemma tight_table_length:
  assumes "tight s"
  shows "length (block_table s) = max 1 (div_ceil (current_len s) BLOCK_SIZE)"
proof -
  let ?k = "length (block_table s)" and ?f = "last_block_fill s"
  obtain j where j: "?k = Suc j" using assms by (cases "block_table s") (auto simp: tight_def)
  have len: "current_len s = 16 * j + ?f" and f: "?f \<le> 16" and p: "0 < j \<longrightarrow> 0 < ?f"
    using assms j by (auto simp: tight_def BLOCK_SIZE_def)
  show ?thesis
  proof (cases "?f = 0")
    case True
    then show ?thesis using len p j by (simp add: div_ceil_def BLOCK_SIZE_def)
  next
    case False
    then have "(16 * j + ?f + 15) div 16 = Suc j" using f by simp
    then show ?thesis using len j by (simp add: div_ceil_def BLOCK_SIZE_def)
  qed
qed

lemma extend_tight:
  assumes "ledger_extend bpb h n L = (Inr u, L')" and "lg_seqs L h = Some s" and "tight s"
  shows "\<exists>s'. lg_seqs L' h = Some s' \<and> tight s' \<and> current_len s' = current_len s + n
    \<and> (\<exists>bs. block_table s' = block_table s @ bs)"
proof -
  have f: "last_block_fill s \<le> BLOCK_SIZE" using assms(3) by (simp add: tight_def)
  obtain g fl table where g: "grow bpb (lg_free L) (block_table s) (last_block_fill s) n = (g, fl, table)"
    by (cases "grow bpb (lg_free L) (block_table s) (last_block_fill s) n")
  obtain fill where fill: "g = Inr fill" using assms(1,2) g by (cases g) (auto simp: ledger_extend_def)
  have L': "lg_seqs L' h = Some \<lparr>block_table = table, last_block_fill = fill, current_len = current_len s + n\<rparr>"
    using assms(1,2) g fill by (auto simp: ledger_extend_def)
  from grow_effect [OF g f] obtain bs where bs: "table = block_table s @ bs"
      "fill + BLOCK_SIZE * length bs = last_block_fill s + n" "fill \<le> BLOCK_SIZE" "bs \<noteq> [] \<longrightarrow> 0 < fill"
    unfolding fill by auto
  have "1 < length table \<longrightarrow> 0 < fill"
    using bs assms(3) by (cases "bs = []") (auto simp: tight_def)
  then have "tight \<lparr>block_table = table, last_block_fill = fill, current_len = current_len s + n\<rparr>"
    using bs assms(3) by (auto simp: tight_def algebra_simps)
  then show ?thesis using L' bs(1) by auto
qed

lemma extend_succeeds_iff:
  assumes "lg_seqs L h = Some s" and "tight s"
  shows "is_ok (fst (ledger_extend bpb h n L))
    \<longleftrightarrow> current_len s + n \<le> BLOCK_SIZE * (length (block_table s) + length (lg_free L))"
proof -
  obtain g fl table where g: "grow bpb (lg_free L) (block_table s) (last_block_fill s) n = (g, fl, table)"
    by (cases "grow bpb (lg_free L) (block_table s) (last_block_fill s) n")
  have f: "last_block_fill s \<le> BLOCK_SIZE"
    and len: "current_len s + BLOCK_SIZE = BLOCK_SIZE * length (block_table s) + last_block_fill s"
    using assms(2) by (simp_all add: tight_def)
  have "is_ok (fst (ledger_extend bpb h n L)) \<longleftrightarrow> is_ok g"
    using assms(1) g by (cases g) (simp_all add: ledger_extend_def is_ok_def)
  also have "\<dots> \<longleftrightarrow> last_block_fill s + n \<le> BLOCK_SIZE * Suc (length (lg_free L))"
    using grow_succeeds_iff [OF f, of bpb "lg_free L" "block_table s" n] by (simp add: g)
  also have "\<dots> \<longleftrightarrow> current_len s + n \<le> BLOCK_SIZE * (length (block_table s) + length (lg_free L))"
    using len by (simp add: BLOCK_SIZE_def) linarith
  finally show ?thesis .
qed

lemma free_count:
  assumes "ledger_inv L"
  shows "length (lg_free L) + card (\<Union>h. owned L h) = lg_capacity L"
proof -
  let ?O = "\<Union>h. owned L h"
  have d: "distinct (lg_free L)" and u: "set (lg_free L) \<union> ?O = {..<lg_capacity L}"
    and i: "set (lg_free L) \<inter> ?O = {}"
    using assms unfolding ledger_inv_def by blast+
  have "finite ?O" using u by (metis finite_Un finite_lessThan)
  then have "card (set (lg_free L) \<union> ?O) = length (lg_free L) + card ?O"
    using i d by (simp add: card_Un_disjoint distinct_card)
  then show ?thesis by (simp add: u)
qed

subsection \<open>Managers\<close>

text \<open>The runs of a manager: sequences are allocated, extended and released in any order, and each
  call may fail. Handles are \<open>u64\<close> values that must not have run out.\<close>

inductive mstep ::
    "('s \<Rightarrow> ledger) \<Rightarrow> ('s \<Rightarrow> u64 result \<times> 's) \<Rightarrow> (u64 \<Rightarrow> 's \<Rightarrow> unit result \<times> 's) \<Rightarrow> (u64 \<Rightarrow> 's \<Rightarrow> 's \<Rightarrow> bool)
     \<Rightarrow> 's \<Rightarrow> 's \<Rightarrow> bool"
  for abs alloc release append where
  ms_alloc: "lg_next (abs s) \<noteq> - 1 \<Longrightarrow> alloc s = (r, s') \<Longrightarrow> mstep abs alloc release append s s'"
| ms_release: "release h s = (r, s') \<Longrightarrow> mstep abs alloc release append s s'"
| ms_append: "append h s s' \<Longrightarrow> mstep abs alloc release append s s'"

inductive mreach ::
    "('s \<Rightarrow> ledger) \<Rightarrow> ('s \<Rightarrow> u64 result \<times> 's) \<Rightarrow> (u64 \<Rightarrow> 's \<Rightarrow> unit result \<times> 's) \<Rightarrow> (u64 \<Rightarrow> 's \<Rightarrow> 's \<Rightarrow> bool)
     \<Rightarrow> 's \<Rightarrow> 's \<Rightarrow> bool"
  for abs alloc release append s0 where
  mr_start: "mreach abs alloc release append s0 s0"
| mr_step: "\<lbrakk>mreach abs alloc release append s0 s; mstep abs alloc release append s s'\<rbrakk>
    \<Longrightarrow> mreach abs alloc release append s0 s'"

locale block_manager =
  fixes abs :: "'s \<Rightarrow> ledger" and bpb :: "'s \<Rightarrow> usize"
    and alloc :: "'s \<Rightarrow> u64 result \<times> 's" and release :: "u64 \<Rightarrow> 's \<Rightarrow> unit result \<times> 's"
    and append :: "u64 \<Rightarrow> 's \<Rightarrow> 's \<Rightarrow> bool"
  assumes alloc_refines: "alloc s = (r, s') \<Longrightarrow> ledger_alloc (bpb s) (abs s) = (r, abs s')"
    and release_refines: "release h s = (q, s') \<Longrightarrow> ledger_release h (abs s) = (q, abs s')"
    and append_refines: "append h s s' \<Longrightarrow>
      abs s' = abs s \<or> (\<exists>n q. ledger_extend (bpb s) h n (abs s) = (q, abs s'))"
begin

lemma mstep_inv:
  assumes "mstep abs alloc release append s s'" and inv: "ledger_inv (abs s)"
  shows "ledger_inv (abs s')"
  using assms(1)
proof cases
  case (ms_alloc r)
  then show ?thesis
    using transfer_inv [OF inv ledger_alloc_transfer [OF inv]] alloc_refines by blast
next
  case (ms_release h r)
  then show ?thesis
    using transfer_inv [OF inv ledger_release_transfer [OF inv]] release_refines by blast
next
  case (ms_append h)
  then show ?thesis
    using append_refines [of h s s'] inv transfer_inv [OF inv ledger_extend_transfer [OF inv]] by metis
qed

lemma mreach_inv:
  "mreach abs alloc release append s0 s \<Longrightarrow> ledger_inv (abs s0) \<Longrightarrow> ledger_inv (abs s)"
  by (induction rule: mreach.induct) (auto intro: mstep_inv)

lemma mreach_roomy:
  "mreach abs alloc release append s0 s \<Longrightarrow> all_roomy (abs s0) \<Longrightarrow> all_roomy (abs s)"
proof (induction rule: mreach.induct)
  case (mr_step s s')
  from mr_step.hyps(2) show ?case
    using mr_step.IH [OF mr_step.prems] alloc_refines release_refines append_refines
      ledger_alloc_roomy ledger_release_roomy ledger_extend_roomy
    by cases metis+
qed

lemma released_blocks_return:
  assumes "ledger_inv (abs s)" and "release h s = (Inr (), s')"
  shows "length (lg_free (abs s')) = length (lg_free (abs s)) + card (owned (abs s) h)
    \<and> lg_seqs (abs s') h = None"
proof -
  have r: "ledger_release h (abs s) = (Inr (), abs s')" using release_refines [OF assms(2)] .
  then obtain q where q: "lg_seqs (abs s) h = Some q"
    by (auto simp: ledger_release_def split: option.splits)
  have a: "abs s' = (abs s)\<lparr>lg_free := lg_free (abs s) @ block_table q, lg_seqs := (lg_seqs (abs s))(h := None)\<rparr>"
    using r q by (simp add: ledger_release_def)
  have "card (owned (abs s) h) = length (block_table q)"
    using ledger_invD(2) [OF assms(1) q] q by (simp add: owned_def distinct_card)
  then show ?thesis unfolding a by simp
qed

end

end
