(* ===== verification/Device.thy ===== *)
theory Device
  imports Core
begin

text \<open>
  The part of the \<open>Backend\<close> trait (\<open>fracture-core/src/backend.rs\<close>) that the caches and the batched forward
  pass call. The engine is
  generic over it and its implementations drive a GPU, so a backend is a record of functions on a
  device state of any type: a definition that calls the device takes the record and the state, and
  returns the state it leaves. \<open>heap_laws\<close> and \<open>row_laws\<close> state the documented behaviour that a
  theorem relies on; \<open>ram\<close> is a device that has it, for the witnesses.
\<close>

record 'b backend =
  be_alloc :: "usize list \<Rightarrow> dtype \<Rightarrow> 'b \<Rightarrow> device_tensor result \<times> 'b"
  be_free :: "device_tensor \<Rightarrow> 'b \<Rightarrow> unit result \<times> 'b"
  be_copy_to_device :: "device_tensor \<Rightarrow> byte list \<Rightarrow> 'b \<Rightarrow> unit result \<times> 'b"
  be_copy_to_host :: "device_tensor \<Rightarrow> usize \<Rightarrow> 'b \<Rightarrow> byte list result \<times> 'b"
  be_copy_rows :: "device_tensor \<Rightarrow> device_tensor \<Rightarrow> usize \<Rightarrow> usize \<Rightarrow> usize \<Rightarrow> 'b \<Rightarrow> unit result \<times> 'b"
  be_turboquant_compress :: "device_tensor \<Rightarrow> device_tensor \<Rightarrow> device_tensor \<Rightarrow> u8 \<Rightarrow> device_tensor
    \<Rightarrow> device_tensor \<Rightarrow> 'b \<Rightarrow> unit result \<times> 'b"
  be_matmul :: "device_tensor \<Rightarrow> device_tensor \<Rightarrow> device_tensor \<Rightarrow> 'b \<Rightarrow> unit result \<times> 'b"
  be_rmsnorm :: "device_tensor \<Rightarrow> device_tensor \<Rightarrow> f64 \<Rightarrow> device_tensor \<Rightarrow> 'b \<Rightarrow> unit result \<times> 'b"
  be_rope :: "device_tensor \<Rightarrow> device_tensor \<Rightarrow> u32 list \<Rightarrow> f64 \<Rightarrow> usize \<Rightarrow> 'b \<Rightarrow> unit result \<times> 'b"
  be_attention_paged :: "device_tensor \<Rightarrow> u32 list \<Rightarrow> device_tensor list \<Rightarrow> device_tensor list \<Rightarrow> usize \<Rightarrow> usize
    \<Rightarrow> usize \<Rightarrow> device_tensor \<Rightarrow> 'b \<Rightarrow> unit result \<times> 'b"
  be_silu_mul :: "device_tensor \<Rightarrow> device_tensor \<Rightarrow> device_tensor \<Rightarrow> 'b \<Rightarrow> unit result \<times> 'b"
  be_embedding :: "u32 list \<Rightarrow> device_tensor \<Rightarrow> device_tensor \<Rightarrow> 'b \<Rightarrow> unit result \<times> 'b"
  be_add :: "device_tensor \<Rightarrow> device_tensor \<Rightarrow> device_tensor \<Rightarrow> 'b \<Rightarrow> unit result \<times> 'b"
  be_synchronize :: "'b \<Rightarrow> unit result \<times> 'b"

text \<open>Sequencing of device calls that may fail, as \<open>?\<close> does it.\<close>

definition dbind :: "'a result \<times> 'b \<Rightarrow> ('a \<Rightarrow> 'b \<Rightarrow> 'c result \<times> 'b) \<Rightarrow> 'c result \<times> 'b" where
  "dbind m f = (case m of (Inl e, b) \<Rightarrow> (Inl e, b) | (Inr x, b) \<Rightarrow> f x b)"

lemma dbind_simps [simp]: "dbind (Inl e, b) f = (Inl e, b)" "dbind (Inr x, b) f = f x b"
  by (simp_all add: dbind_def)

lemma dbind_eq_Inr:
  "dbind m f = (Inr y, b') \<longleftrightarrow> (\<exists>x b. m = (Inr x, b) \<and> f x b = (Inr y, b'))"
  by (cases m; cases "fst m") auto

lemma dbind_cong [fundef_cong]:
  "m = m' \<Longrightarrow> (\<And>x b. m' = (Inr x, b) \<Longrightarrow> f x b = f' x b) \<Longrightarrow> dbind m f = dbind m' f'"
  by (cases m'; cases "fst m'") auto

text \<open>\<open>let _ = backend.free(t)\<close> for each tensor, and the loop that stops at an error.\<close>

fun free_ignoring :: "'b backend \<Rightarrow> device_tensor list \<Rightarrow> 'b \<Rightarrow> 'b" where
  "free_ignoring be [] b = b"
| "free_ignoring be (t # ts) b = free_ignoring be ts (snd (be_free be t b))"

fun free_each :: "'b backend \<Rightarrow> device_tensor list \<Rightarrow> 'b \<Rightarrow> unit result \<times> 'b" where
  "free_each be [] b = (Inr (), b)"
| "free_each be (t # ts) b = dbind (be_free be t b) (\<lambda>_. free_each be ts)"

subsection \<open>Documented behaviour\<close>

text \<open>\<open>live b\<close>: the ids of the tensors allocated and not freed.\<close>

definition heap_laws :: "'b backend \<Rightarrow> ('b \<Rightarrow> u64 set) \<Rightarrow> bool" where
  "heap_laws be live \<longleftrightarrow>
     (\<forall>sh d b t b'. be_alloc be sh d b = (Inr t, b') \<longrightarrow> t_id t \<notin> live b \<and> live b' = insert (t_id t) (live b))
     \<and> (\<forall>sh d b e b'. be_alloc be sh d b = (Inl e, b') \<longrightarrow> live b' = live b)
     \<and> (\<forall>t b. live (snd (be_free be t b)) = live b - {t_id t} \<and> (t_id t \<in> live b \<longrightarrow> fst (be_free be t b) = Inr ()))"

text \<open>\<open>rows b t i\<close>: row \<open>i\<close> of the tensor with id \<open>t\<close>.\<close>

definition row_laws :: "'b backend \<Rightarrow> ('b \<Rightarrow> u64 \<Rightarrow> nat \<Rightarrow> 'r) \<Rightarrow> bool" where
  "row_laws be rows \<longleftrightarrow> (\<forall>src dst so d n b b'. be_copy_rows be src dst so d n b = (Inr (), b') \<longrightarrow>
     (\<forall>t i. rows b' t i = (if t = t_id dst \<and> d \<le> i \<and> i < d + n then rows b (t_id src) (so + (i - d)) else rows b t i)))"

definition copies_succeed :: "'b backend \<Rightarrow> bool" where
  "copies_succeed be \<longleftrightarrow> (\<forall>src dst so d n b. fst (be_copy_rows be src dst so d n b) = Inr ())"

lemma heap_lawsD:
  assumes "heap_laws be live"
  shows "be_alloc be sh d b = (Inr t, b') \<Longrightarrow> t_id t \<notin> live b \<and> live b' = insert (t_id t) (live b)"
    and "be_alloc be sh d b = (Inl e, b') \<Longrightarrow> live b' = live b"
    and "live (snd (be_free be t b)) = live b - {t_id t}"
    and "t_id t \<in> live b \<Longrightarrow> fst (be_free be t b) = Inr ()"
  using assms by (simp_all add: heap_laws_def)

lemma free_ignoring_live:
  assumes "heap_laws be live"
  shows "live (free_ignoring be ts b) = live b - t_id ` set ts"
  by (induction ts arbitrary: b) (auto simp: heap_lawsD(3) [OF assms])

lemma free_each_live:
  assumes "heap_laws be live" and "distinct (map t_id ts)" and "t_id ` set ts \<subseteq> live b"
  shows "fst (free_each be ts b) = Inr () \<and> live (snd (free_each be ts b)) = live b - t_id ` set ts"
  using assms(2,3)
proof (induction ts arbitrary: b)
  case (Cons t ts)
  obtain r b1 where f: "be_free be t b = (r, b1)" by fastforce
  have r: "r = Inr ()" and l: "live b1 = live b - {t_id t}"
    using heap_lawsD(3,4) [OF assms(1), where t = t and b = b] f Cons.prems(2) by simp_all
  have "t_id t \<notin> t_id ` set ts" "distinct (map t_id ts)" using Cons.prems(1) by simp_all
  then have "distinct (map t_id ts)" "t_id ` set ts \<subseteq> live b1"
    using Cons.prems(2) unfolding l by (simp_all add: subset_Diff_insert)
  from Cons.IH [OF this] show ?case unfolding free_each.simps f r dbind_simps l by auto
qed simp

subsection \<open>A device that behaves so\<close>

record ram =
  ram_live :: "u64 list"
  ram_next :: u64
  ram_room :: nat
  ram_rows :: "u64 \<Rightarrow> nat \<Rightarrow> nat"

definition ram_free :: "device_tensor \<Rightarrow> ram \<Rightarrow> unit result \<times> ram" where
  "ram_free t m = (Inr (), m\<lparr>ram_live := removeAll (t_id t) (ram_live m)\<rparr>)"

text \<open>A computation writes the first rows of a tensor.\<close>

definition write_tensor :: "u64 \<Rightarrow> nat \<Rightarrow> (nat \<Rightarrow> 'r) \<Rightarrow> (u64 \<Rightarrow> nat \<Rightarrow> 'r) \<Rightarrow> u64 \<Rightarrow> nat \<Rightarrow> 'r" where
  "write_tensor t n f r = r(t := (\<lambda>i. if i < n then f i else r t i))"

definition nrows :: "device_tensor \<Rightarrow> nat" where
  "nrows t = (case t_shape t of [] \<Rightarrow> 0 | n # _ \<Rightarrow> n)"

definition ram_compute :: "((u64 \<Rightarrow> nat \<Rightarrow> nat) \<Rightarrow> u64 \<Rightarrow> nat \<Rightarrow> nat) \<Rightarrow> ram \<Rightarrow> unit result \<times> ram" where
  "ram_compute f m = (Inr (), m\<lparr>ram_rows := f (ram_rows m)\<rparr>)"

text \<open>It runs out of room, hands out fresh ids, and computes on rows that are numbers.\<close>

definition ram_backend :: "ram backend" where
  "ram_backend = \<lparr>
     be_alloc = (\<lambda>sh d m. if ram_room m = 0 \<or> ram_next m \<in> set (ram_live m) then (Inl (OutOfMemory 0 0), m)
       else (Inr \<lparr>t_id = ram_next m, t_shape = sh, t_dtype = d\<rparr>,
             m\<lparr>ram_live := ram_next m # ram_live m, ram_next := ram_next m + 1, ram_room := ram_room m - 1\<rparr>)),
     be_free = ram_free,
     be_copy_to_device = (\<lambda>t bs m. (Inr (), m)),
     be_copy_to_host = (\<lambda>t n m. (Inr (replicate n 0), m)),
     be_copy_rows = (\<lambda>src dst so d n m. (Inr (), m\<lparr>ram_rows := (\<lambda>t i.
        if t = t_id dst \<and> d \<le> i \<and> i < d + n then ram_rows m (t_id src) (so + (i - d)) else ram_rows m t i)\<rparr>)),
     be_turboquant_compress = (\<lambda>i r c bits p nm m. (Inr (), m)),
     be_matmul = (\<lambda>a w out. ram_compute (\<lambda>r. write_tensor (t_id out) (nrows a) (\<lambda>i. r (t_id w) 0 * r (t_id a) i + 1) r)),
     be_rmsnorm = (\<lambda>a w eps out. ram_compute (\<lambda>r. write_tensor (t_id out) (nrows a) (\<lambda>i. r (t_id w) 0 + r (t_id a) i) r)),
     be_rope = (\<lambda>q k ps theta hdim. ram_compute (\<lambda>r.
       write_tensor (t_id k) (length ps) (\<lambda>i. unat (ps ! i) + r (t_id k) i)
         (write_tensor (t_id q) (length ps) (\<lambda>i. unat (ps ! i) + r (t_id q) i) r))),
     be_attention_paged = (\<lambda>q bt kb vb nkv kvlen start out. ram_compute (\<lambda>r. write_tensor (t_id out) (nrows q) (\<lambda>i.
       sum_list (map (\<lambda>p. r (t_id (kb ! unat (bt ! (p div 16)))) (p mod 16) * r (t_id q) i
         + r (t_id (vb ! unat (bt ! (p div 16)))) (p mod 16)) [0..<min kvlen (start + i + 1)])) r)),
     be_silu_mul = (\<lambda>a w out. ram_compute (\<lambda>r. write_tensor (t_id out) (nrows a) (\<lambda>i. r (t_id a) i * r (t_id w) i) r)),
     be_embedding = (\<lambda>ids table out. ram_compute (\<lambda>r. write_tensor (t_id out) (length ids) (\<lambda>i. r (t_id table) (unat (ids ! i))) r)),
     be_add = (\<lambda>a w out. ram_compute (\<lambda>r. write_tensor (t_id out) (nrows a) (\<lambda>i. r (t_id a) i + r (t_id w) i) r)),
     be_synchronize = (\<lambda>m. (Inr (), m))\<rparr>"

lemma ram_heap_laws: "heap_laws ram_backend (\<lambda>m. set (ram_live m))"
  by (auto simp: heap_laws_def ram_backend_def ram_free_def split: if_splits)

lemma ram_copies_succeed: "copies_succeed ram_backend"
  by (simp add: copies_succeed_def ram_backend_def)

lemma ram_row_laws: "row_laws ram_backend ram_rows"
  by (auto simp: row_laws_def ram_backend_def)

end
