(* ===== verification/Paged_Cache.thy ===== *)
theory Paged_Cache
  imports Block_Ledger Device
begin

text \<open>
  The paged cache of \<open>fracture-engine/src/paged_kv_cache.rs\<close>: a pool of blocks of device tensors, and
  the manager that hands them to sequences. Indexing out of range and subtracting past zero panic
  in the source; a definition that can do so returns \<open>None\<close> then.
\<close>

definition compute_num_blocks :: "usize \<Rightarrow> usize \<Rightarrow> usize \<Rightarrow> usize \<Rightarrow> usize \<Rightarrow> usize" where
  "compute_num_blocks gpu_available scratch_reserve layers kv_heads hdim =
     (let cache_budget = gpu_available - scratch_reserve;
          bytes_per_block = BLOCK_SIZE * kv_heads * hdim * 2 * 2 * layers
      in if bytes_per_block = 0 then 0 else cache_budget div bytes_per_block)"

subsection \<open>The block pool\<close>

record block_pool =
  k_blocks :: "device_tensor list list"
  v_blocks :: "device_tensor list list"
  free_list :: "usize list"
  capacity :: usize
  pool_layers :: usize
  pool_kv_heads :: usize
  pool_head_dim :: usize

text \<open>The loops of \<open>BlockPool::new\<close>. An error breaks out of both with the partial block pushed.\<close>

fun alloc_layers ::
    "'b backend \<Rightarrow> usize list \<Rightarrow> nat \<Rightarrow> device_tensor list \<Rightarrow> device_tensor list \<Rightarrow> 'b
     \<Rightarrow> fracture_error option \<times> device_tensor list \<times> device_tensor list \<times> 'b" where
  "alloc_layers be shape 0 kl vl b = (None, kl, vl, b)"
| "alloc_layers be shape (Suc n) kl vl b = (case be_alloc be shape FP16 b of
      (Inl e, b1) \<Rightarrow> (Some (KvCache ''block pool alloc failed at block {block_id}: {e}''), kl, vl, b1)
    | (Inr k, b1) \<Rightarrow> (case be_alloc be shape FP16 b1 of
        (Inl e, b2) \<Rightarrow> (Some (KvCache ''block pool alloc failed at block {block_id}: {e}''), kl, vl,
                        snd (be_free be k b2))
      | (Inr v, b2) \<Rightarrow> alloc_layers be shape n (kl @ [k]) (vl @ [v]) b2))"

fun alloc_blocks ::
    "'b backend \<Rightarrow> usize list \<Rightarrow> nat \<Rightarrow> nat \<Rightarrow> device_tensor list list \<Rightarrow> device_tensor list list \<Rightarrow> 'b
     \<Rightarrow> fracture_error option \<times> device_tensor list list \<times> device_tensor list list \<times> 'b" where
  "alloc_blocks be shape layers 0 kbs vbs b = (None, kbs, vbs, b)"
| "alloc_blocks be shape layers (Suc n) kbs vbs b = (case alloc_layers be shape layers [] [] b of
      (Some e, kl, vl, b1) \<Rightarrow> (Some e, kbs @ [kl], vbs @ [vl], b1)
    | (None, kl, vl, b1) \<Rightarrow> alloc_blocks be shape layers n (kbs @ [kl]) (vbs @ [vl]) b1)"

definition new_pool ::
    "'b backend \<Rightarrow> usize \<Rightarrow> usize \<Rightarrow> usize \<Rightarrow> usize \<Rightarrow> 'b \<Rightarrow> block_pool result \<times> 'b" where
  "new_pool be num_blocks layers kv_heads hdim b =
     (case alloc_blocks be [BLOCK_SIZE, kv_heads, hdim] layers num_blocks [] [] b of
        (Some e, kbs, vbs, b1) \<Rightarrow> (Inl e, free_ignoring be (concat vbs) (free_ignoring be (concat kbs) b1))
      | (None, kbs, vbs, b1) \<Rightarrow> (Inr \<lparr>k_blocks = kbs, v_blocks = vbs, free_list = rev [0..<num_blocks],
            capacity = num_blocks, pool_layers = layers, pool_kv_heads = kv_heads, pool_head_dim = hdim\<rparr>, b1))"

definition bytes_per_block :: "block_pool \<Rightarrow> usize" where
  "bytes_per_block p = BLOCK_SIZE * pool_kv_heads p * pool_head_dim p * 2 * 2 * pool_layers p"

definition alloc_block :: "block_pool \<Rightarrow> usize result \<times> block_pool" where
  "alloc_block p = (if free_list p = [] then (Inl (OutOfMemory (bytes_per_block p) 0), p)
     else (Inr (last (free_list p)), p\<lparr>free_list := butlast (free_list p)\<rparr>))"

definition free_block :: "block_pool \<Rightarrow> usize \<Rightarrow> block_pool" where
  "free_block p block_id = p\<lparr>free_list := free_list p @ [block_id]\<rparr>"

definition k_tensor :: "block_pool \<Rightarrow> usize \<Rightarrow> usize \<Rightarrow> device_tensor option" where
  "k_tensor p block_id layer = (if block_id < length (k_blocks p) \<and> layer < length (k_blocks p ! block_id)
     then Some (k_blocks p ! block_id ! layer) else None)"

definition v_tensor :: "block_pool \<Rightarrow> usize \<Rightarrow> usize \<Rightarrow> device_tensor option" where
  "v_tensor p block_id layer = (if block_id < length (v_blocks p) \<and> layer < length (v_blocks p ! block_id)
     then Some (v_blocks p ! block_id ! layer) else None)"

definition num_free :: "block_pool \<Rightarrow> usize" where
  "num_free p = length (free_list p)"

definition destroy_pool :: "'b backend \<Rightarrow> block_pool \<Rightarrow> 'b \<Rightarrow> unit result \<times> 'b" where
  "destroy_pool be p b = dbind (free_each be (concat (k_blocks p)) b)
     (\<lambda>_. free_each be (concat (v_blocks p)))"

subsection \<open>The manager\<close>

record paged_manager =
  pool :: block_pool
  sequences :: "u64 \<rightharpoonup> sequence_blocks"
  next_id :: u64

definition new_manager ::
    "'b backend \<Rightarrow> usize \<Rightarrow> usize \<Rightarrow> usize \<Rightarrow> usize \<Rightarrow> 'b \<Rightarrow> paged_manager result \<times> 'b" where
  "new_manager be num_blocks layers kv_heads hdim b =
     dbind (new_pool be num_blocks layers kv_heads hdim b) (\<lambda>p b.
       (Inr \<lparr>pool = p, sequences = Map.empty, next_id = 0\<rparr>, b))"

definition alloc_seq :: "paged_manager \<Rightarrow> u64 result \<times> paged_manager" where
  "alloc_seq m =
     (let hid = next_id m;
          m = m\<lparr>next_id := next_id m + 1\<rparr>
      in case alloc_block (pool m) of
           (Inl e, p) \<Rightarrow> (Inl e, m\<lparr>pool := p\<rparr>)
         | (Inr first_block, p) \<Rightarrow> (Inr hid, m\<lparr>pool := p, sequences := (sequences m)(hid \<mapsto>
             \<lparr>block_table = [first_block], last_block_fill = 0, current_len = 0\<rparr>)\<rparr>))"

text \<open>The loop of \<open>append_kv\<close> that takes the blocks a layer-0 append needs.\<close>

function grow_blocks ::
    "block_pool \<Rightarrow> usize list \<Rightarrow> usize \<Rightarrow> usize \<Rightarrow> usize result \<times> block_pool \<times> usize list" where
  "grow_blocks p table fill remaining =
     (if remaining > 0 then
        let slots = BLOCK_SIZE - fill
        in if slots = 0
           then (case alloc_block p of
                   (Inl e, p') \<Rightarrow> (Inl e, p', table)
                 | (Inr new_block, p') \<Rightarrow> grow_blocks p' (table @ [new_block]) 0 remaining)
           else let to_write = min remaining slots
                in grow_blocks p table (fill + to_write) (remaining - to_write)
      else (Inr fill, p, table))"
  by pat_completeness auto
termination
  by (relation "measures [\<lambda>(p, table, fill, remaining). remaining,
      \<lambda>(p, table, fill, remaining). if BLOCK_SIZE \<le> fill then 1 else 0]")
    (auto simp: BLOCK_SIZE_def)

declare grow_blocks.simps [simp del]

text \<open>The loop that copies the new rows into the blocks.\<close>

function write_rows ::
    "'b backend \<Rightarrow> block_pool \<Rightarrow> usize list \<Rightarrow> usize \<Rightarrow> device_tensor \<Rightarrow> device_tensor \<Rightarrow> usize \<Rightarrow> usize \<Rightarrow> usize
     \<Rightarrow> 'b \<Rightarrow> (unit result \<times> 'b) option" where
  "write_rows be p table layer keys vals start_token num_new written b =
     (if written < num_new then
        let global_pos = start_token + written;
            block_idx = global_pos div BLOCK_SIZE;
            offset_in_block = global_pos mod BLOCK_SIZE
        in if \<not> block_idx < length table then None
           else
             let block_id = table ! block_idx;
                 slots = BLOCK_SIZE - offset_in_block;
                 to_write = min (num_new - written) slots
             in case k_tensor p block_id layer of None \<Rightarrow> None | Some k_dst \<Rightarrow>
                (case be_copy_rows be keys k_dst written offset_in_block to_write b of
                   (Inl e, b1) \<Rightarrow> Some (Inl e, b1)
                 | (Inr _, b1) \<Rightarrow>
                   (case v_tensor p block_id layer of None \<Rightarrow> None | Some v_dst \<Rightarrow>
                    (case be_copy_rows be vals v_dst written offset_in_block to_write b1 of
                       (Inl e, b2) \<Rightarrow> Some (Inl e, b2)
                     | (Inr _, b2) \<Rightarrow>
                       write_rows be p table layer keys vals start_token num_new (written + to_write) b2)))
      else Some (Inr (), b))"
  by pat_completeness auto
termination
  by (relation "measure (\<lambda>(be, p, table, layer, keys, vals, start_token, num_new, written, b). num_new - written)")
    (auto simp: BLOCK_SIZE_def)

declare write_rows.simps [simp del]

definition append_kv ::
    "'b backend \<Rightarrow> u64 \<Rightarrow> usize \<Rightarrow> device_tensor \<Rightarrow> device_tensor \<Rightarrow> paged_manager \<Rightarrow> 'b
     \<Rightarrow> (unit result \<times> paged_manager \<times> 'b) option" where
  "append_kv be h layer keys vals m b = (case sequences m h of
      None \<Rightarrow> Some (Inl (KvCache ''invalid handle: {}''), m, b)
    | Some sq \<Rightarrow> (case t_shape keys of [] \<Rightarrow> None | num_new # _ \<Rightarrow>
        (case (if layer = 0
               then (case grow_blocks (pool m) (block_table sq) (last_block_fill sq) num_new of
                       (Inl e, p, table) \<Rightarrow> (Inl e, p, sq\<lparr>block_table := table\<rparr>)
                     | (Inr fill, p, table) \<Rightarrow> (Inr (), p, \<lparr>block_table = table, last_block_fill = fill,
                           current_len = current_len sq + num_new\<rparr>))
               else (Inr (), pool m, sq)) of
           (Inl e, p, sq') \<Rightarrow> Some (Inl e, m\<lparr>pool := p, sequences := (sequences m)(h \<mapsto> sq')\<rparr>, b)
         | (Inr _, p, sq') \<Rightarrow>
             let m' = m\<lparr>pool := p, sequences := (sequences m)(h \<mapsto> sq')\<rparr>
             in if num_new \<le> current_len sq'
                then map_option (\<lambda>(r, b'). (r, m', b'))
                       (write_rows be p (block_table sq') layer keys vals (current_len sq' - num_new) num_new 0 b)
                else None)))"

definition get_block_table :: "paged_manager \<Rightarrow> u64 \<Rightarrow> usize list result" where
  "get_block_table m h = rbind (ok_or (sequences m h) (KvCache ''invalid handle: {}'')) (\<lambda>sq. Inr (block_table sq))"

definition seq_len :: "paged_manager \<Rightarrow> u64 \<Rightarrow> usize result" where
  "seq_len m h = rbind (ok_or (sequences m h) (KvCache ''invalid handle: {}'')) (\<lambda>sq. Inr (current_len sq))"

definition last_block_tokens :: "paged_manager \<Rightarrow> u64 \<Rightarrow> usize result" where
  "last_block_tokens m h = rbind (ok_or (sequences m h) (KvCache ''invalid handle: {}''))
     (\<lambda>sq. Inr (last_block_fill sq))"

definition free_seq :: "u64 \<Rightarrow> paged_manager \<Rightarrow> unit result \<times> paged_manager" where
  "free_seq h m = (case sequences m h of
      None \<Rightarrow> (Inl (KvCache ''invalid handle: {}''), m)
    | Some sq \<Rightarrow> (Inr (), m\<lparr>sequences := (sequences m)(h := None),
                     pool := foldl free_block (pool m) (block_table sq)\<rparr>))"

definition num_free_blocks :: "paged_manager \<Rightarrow> usize" where
  "num_free_blocks m = num_free (pool m)"

definition available_token_capacity :: "paged_manager \<Rightarrow> usize" where
  "available_token_capacity m = num_free (pool m) * BLOCK_SIZE"

definition destroy_manager :: "'b backend \<Rightarrow> paged_manager \<Rightarrow> 'b \<Rightarrow> unit result \<times> 'b" where
  "destroy_manager be m b = destroy_pool be (pool m) b"

end
