(* ===== verification/Paged_Store.thy ===== *)
theory Paged_Store
  imports Paged_Cache
begin

text \<open>
  Correctness of the paged cache: its bookkeeping is a block ledger, its pool neither leaks nor
  shares device tensors, and what is appended to a sequence is what its blocks hold afterwards.
\<close>

subsection \<open>The manager keeps a ledger\<close>

definition paged_ledger :: "paged_manager \<Rightarrow> ledger" where
  "paged_ledger m = \<lparr>lg_free = free_list (pool m), lg_capacity = capacity (pool m),
     lg_seqs = sequences m, lg_next = next_id m\<rparr>"

lemma bytes_per_block_free_list [simp]: "bytes_per_block (p\<lparr>free_list := fl\<rparr>) = bytes_per_block p"
  by (simp add: bytes_per_block_def)

lemma alloc_block_take:
  "alloc_block p = (case take_block (bytes_per_block p) (free_list p) of
      Inl e \<Rightarrow> (Inl e, p) | Inr (b, fl) \<Rightarrow> (Inr b, p\<lparr>free_list := fl\<rparr>))"
  by (simp add: alloc_block_def take_block_def)

lemma grow_blocks_grow:
  "grow_blocks p table fill remaining =
     (case grow (bytes_per_block p) (free_list p) table fill remaining of
        (r, fl, table') \<Rightarrow> (r, p\<lparr>free_list := fl\<rparr>, table'))"
proof (induction p table fill remaining rule: grow_blocks.induct)
  case (1 p table fill remaining)
  consider "remaining = 0" | "0 < remaining" "BLOCK_SIZE - fill = 0" "free_list p = []"
    | b fl where "0 < remaining" "BLOCK_SIZE - fill = 0" "free_list p = fl @ [b]"
    | "0 < remaining" "BLOCK_SIZE - fill \<noteq> 0"
    by (cases "free_list p" rule: rev_cases) auto
  then show ?case
  proof cases
    case 1
    then show ?thesis by (subst grow_blocks.simps, subst grow.simps) simp
  next
    case 2
    then show ?thesis
      by (subst grow_blocks.simps, subst grow.simps) (simp add: alloc_block_def take_block_def)
  next
    case 3
    have "alloc_block p = (Inr b, p\<lparr>free_list := fl\<rparr>)" using 3 by (simp add: alloc_block_def)
    then have "grow_blocks (p\<lparr>free_list := fl\<rparr>) (table @ [b]) 0 remaining =
        (case grow (bytes_per_block p) fl (table @ [b]) 0 remaining of
           (r, fl', table') \<Rightarrow> (r, p\<lparr>free_list := fl'\<rparr>, table'))"
      using 3 "1.IH"(1) [of _ "Inr b" "p\<lparr>free_list := fl\<rparr>" b] by (simp add: bytes_per_block_def)
    then show ?thesis using 3
      by (subst grow_blocks.simps, subst grow.simps) (simp add: take_block_def alloc_block_def)
  next
    case 4
    then show ?thesis using "1.IH"(2) [OF 4(1) refl 4(2) refl]
      by (subst grow_blocks.simps, subst grow.simps) (simp add: Let_def)
  qed
qed

lemma foldl_free_block: "foldl free_block p bs = p\<lparr>free_list := free_list p @ bs\<rparr>"
  by (induction bs arbitrary: p) (simp_all add: free_block_def)

lemma map_upd_same: "sequences m h = Some sq \<Longrightarrow> (sequences m)(h \<mapsto> sq) = sequences m"
  by (simp add: map_upd_triv)

definition paged_append :: "'b backend \<Rightarrow> u64 \<Rightarrow> paged_manager \<Rightarrow> paged_manager \<Rightarrow> bool" where
  "paged_append be h m m' \<longleftrightarrow> (\<exists>layer keys vals b r b'. append_kv be h layer keys vals m b = Some (r, m', b'))"

text \<open>An append that returns, by cases: an unknown handle, a layer-0 append that runs out of
  blocks, and one that goes on to write rows with the sequence extended or, on another layer, as it
  was.\<close>

lemma append_kv_cases:
  assumes "append_kv be h layer keys vals m b = Some (r, m', b')"
  obtains (bad_handle) "sequences m h = None" "m' = m" "b' = b"
  | (no_room) sq n rest e fl table where "sequences m h = Some sq" "t_shape keys = n # rest" "layer = 0"
      "grow (bytes_per_block (pool m)) (free_list (pool m)) (block_table sq) (last_block_fill sq) n = (Inl e, fl, table)"
      "r = Inl e" "b' = b"
      "m' = m\<lparr>pool := (pool m)\<lparr>free_list := fl\<rparr>, sequences := (sequences m)(h \<mapsto> sq\<lparr>block_table := table\<rparr>)\<rparr>"
  | (first_layer) sq n rest fill fl table where "sequences m h = Some sq" "t_shape keys = n # rest" "layer = 0"
      "grow (bytes_per_block (pool m)) (free_list (pool m)) (block_table sq) (last_block_fill sq) n = (Inr fill, fl, table)"
      "m' = m\<lparr>pool := (pool m)\<lparr>free_list := fl\<rparr>, sequences := (sequences m)(h \<mapsto>
         \<lparr>block_table = table, last_block_fill = fill, current_len = current_len sq + n\<rparr>)\<rparr>"
      "write_rows be (pool m') table layer keys vals (current_len sq) n 0 b = Some (r, b')"
  | (later_layer) sq n rest where "sequences m h = Some sq" "t_shape keys = n # rest" "layer \<noteq> 0" "m' = m"
      "n \<le> current_len sq"
      "write_rows be (pool m) (block_table sq) layer keys vals (current_len sq - n) n 0 b = Some (r, b')"
proof (cases "sequences m h")
  case None
  then show thesis using assms by (auto simp: append_kv_def intro: bad_handle)
next
  case (Some sq)
  then obtain n rest where sh: "t_shape keys = n # rest"
    using assms by (cases "t_shape keys") (auto simp: append_kv_def)
  show thesis
  proof (cases "layer = 0")
    case False
    have "m\<lparr>pool := pool m, sequences := (sequences m)(h \<mapsto> sq)\<rparr> = m" using Some by (simp add: map_upd_triv)
    then show thesis using assms Some sh False
      by (intro later_layer [OF Some sh False]) (auto simp: append_kv_def Let_def split: if_splits)
  next
    case True
    obtain g fl table where g: "grow (bytes_per_block (pool m)) (free_list (pool m)) (block_table sq)
        (last_block_fill sq) n = (g, fl, table)"
      by (cases "grow (bytes_per_block (pool m)) (free_list (pool m)) (block_table sq) (last_block_fill sq) n")
    show thesis
    proof (cases g)
      case (Inl e)
      show thesis
        by (rule no_room [OF Some sh True g [unfolded Inl]])
          (use assms Some sh True g Inl in \<open>auto simp: append_kv_def grow_blocks_grow\<close>)
    next
      case (Inr fill)
      show thesis
        by (rule first_layer [OF Some sh True g [unfolded Inr]])
          (use assms Some sh True g Inr in \<open>auto simp: append_kv_def grow_blocks_grow Let_def\<close>)
    qed
  qed
qed

interpretation paged: block_manager paged_ledger "\<lambda>m. bytes_per_block (pool m)" alloc_seq free_seq "paged_append be"
proof
  fix m r m'
  assume "alloc_seq m = (r, m')"
  then show "ledger_alloc (bytes_per_block (pool m)) (paged_ledger m) = (r, paged_ledger m')"
    by (auto simp: alloc_seq_def ledger_alloc_def paged_ledger_def alloc_block_take Let_def
        split: sum.splits)
next
  fix h m q m'
  assume "free_seq h m = (q, m')"
  then show "ledger_release h (paged_ledger m) = (q, paged_ledger m')"
    by (auto simp: free_seq_def ledger_release_def paged_ledger_def foldl_free_block split: option.splits)
next
  fix h m m'
  assume "paged_append be h m m'"
  then obtain layer keys vals b r b' where "append_kv be h layer keys vals m b = Some (r, m', b')"
    by (auto simp: paged_append_def)
  then show "paged_ledger m' = paged_ledger m
    \<or> (\<exists>n q. ledger_extend (bytes_per_block (pool m)) h n (paged_ledger m) = (q, paged_ledger m'))"
  proof (cases rule: append_kv_cases)
    case (no_room sq n rest e fl table)
    then have "ledger_extend (bytes_per_block (pool m)) h n (paged_ledger m) = (Inl e, paged_ledger m')"
      by (simp add: ledger_extend_def paged_ledger_def)
    then show ?thesis by blast
  next
    case (first_layer sq n rest fill fl table)
    then have "ledger_extend (bytes_per_block (pool m)) h n (paged_ledger m) = (Inr (), paged_ledger m')"
      by (simp add: ledger_extend_def paged_ledger_def)
    then show ?thesis by blast
  qed simp_all
qed

subsection \<open>The tensors of a pool\<close>

definition tensor_ids :: "device_tensor list list \<Rightarrow> u64 set" where
  "tensor_ids tss = t_id ` set (concat tss)"

definition pool_ok :: "block_pool \<Rightarrow> bool" where
  "pool_ok p \<longleftrightarrow> length (k_blocks p) = capacity p \<and> length (v_blocks p) = capacity p
     \<and> (\<forall>ts \<in> set (k_blocks p @ v_blocks p). length ts = pool_layers p)
     \<and> distinct (map t_id (concat (k_blocks p @ v_blocks p)))"

lemma pool_ok_free_list [simp]: "pool_ok (p\<lparr>free_list := fl\<rparr>) = pool_ok p"
  by (simp add: pool_ok_def)

lemma nth_nth_concat: "i < length xss \<Longrightarrow> j < length (xss ! i) \<Longrightarrow> xss ! i ! j \<in> set (concat xss)"
  using nth_mem [of i xss] nth_mem [of j "xss ! i"] unfolding set_concat by blast

lemma distinct_concat_nth:
  assumes "distinct (map f (concat xss))" and "i < length xss" "j < length (xss ! i)"
    and "i' < length xss" "j' < length (xss ! i')" and "f (xss ! i ! j) = f (xss ! i' ! j')"
  shows "i = i' \<and> j = j'"
  using assms
proof (induction xss arbitrary: i i')
  case (Cons xs xss)
  have out: "f x \<notin> f ` set (concat xss)" if "x \<in> set xs" for x
    using Cons.prems(1) that by auto
  have inn: "xss ! k ! l \<in> set (concat xss)" if "k < length xss" "l < length (xss ! k)" for k l
    using that by (rule nth_nth_concat)
  show ?case
  proof (cases i; cases i')
    assume "i = 0" "i' = 0"
    moreover have "distinct (map f xs)" using Cons.prems(1) by simp
    ultimately show ?thesis using Cons.prems nth_eq_iff_index_eq [of "map f xs" j j'] by simp
  next
    fix k assume "i = 0" "i' = Suc k"
    then show ?thesis using Cons.prems out [of "xs ! j"] inn [of k j'] by auto
  next
    fix k assume "i = Suc k" "i' = 0"
    then show ?thesis using Cons.prems out [of "xs ! j'"] inn [of k j] by (metis Suc_less_eq image_eqI length_Cons nth_Cons_0 nth_Cons_Suc nth_mem)
  next
    fix k k' assume "i = Suc k" "i' = Suc k'"
    then show ?thesis using Cons.prems Cons.IH [of k k'] by simp
  qed
qed simp

text \<open>The cell, tensor and row, that holds the key of a token position.\<close>

definition k_cell :: "block_pool \<Rightarrow> usize list \<Rightarrow> usize \<Rightarrow> usize \<Rightarrow> u64 \<times> nat" where
  "k_cell p table layer pos = (t_id (k_blocks p ! (table ! (pos div BLOCK_SIZE)) ! layer), pos mod BLOCK_SIZE)"

definition v_cell :: "block_pool \<Rightarrow> usize list \<Rightarrow> usize \<Rightarrow> usize \<Rightarrow> u64 \<times> nat" where
  "v_cell p table layer pos = (t_id (v_blocks p ! (table ! (pos div BLOCK_SIZE)) ! layer), pos mod BLOCK_SIZE)"

lemma div_block_less: "pos < BLOCK_SIZE * n \<Longrightarrow> pos div BLOCK_SIZE < n"
  by (simp add: BLOCK_SIZE_def less_mult_imp_div_less mult.commute)

lemma pos_eqI: "i div BLOCK_SIZE = j div BLOCK_SIZE \<Longrightarrow> i mod BLOCK_SIZE = j mod BLOCK_SIZE \<Longrightarrow> i = j"
  by (metis div_mult_mod_eq)

lemma pool_tensor:
  assumes "pool_ok p" "bid < capacity p" "layer < pool_layers p"
  shows "k_tensor p bid layer = Some (k_blocks p ! bid ! layer)"
    and "v_tensor p bid layer = Some (v_blocks p ! bid ! layer)"
  using assms by (simp_all add: pool_ok_def k_tensor_def v_tensor_def)

lemma cell_inj:
  assumes ok: "pool_ok p" and t: "set t1 \<subseteq> {..<capacity p}" "set t2 \<subseteq> {..<capacity p}"
    and l: "l1 < pool_layers p" "l2 < pool_layers p"
    and i: "i < BLOCK_SIZE * length t1" and j: "j < BLOCK_SIZE * length t2"
  shows "k_cell p t1 l1 i = k_cell p t2 l2 j \<Longrightarrow>
      t1 ! (i div BLOCK_SIZE) = t2 ! (j div BLOCK_SIZE) \<and> l1 = l2 \<and> i mod BLOCK_SIZE = j mod BLOCK_SIZE"
    and "v_cell p t1 l1 i = v_cell p t2 l2 j \<Longrightarrow>
      t1 ! (i div BLOCK_SIZE) = t2 ! (j div BLOCK_SIZE) \<and> l1 = l2 \<and> i mod BLOCK_SIZE = j mod BLOCK_SIZE"
    and "k_cell p t1 l1 i \<noteq> v_cell p t2 l2 j"
proof -
  let ?a = "t1 ! (i div BLOCK_SIZE)" and ?b = "t2 ! (j div BLOCK_SIZE)"
  have ab: "?a < capacity p" "?b < capacity p"
    using t nth_mem [OF div_block_less [OF i]] nth_mem [OF div_block_less [OF j]] by auto
  have len: "length (k_blocks p) = capacity p" "length (v_blocks p) = capacity p"
    and d: "distinct (map t_id (concat (k_blocks p)))" "distinct (map t_id (concat (v_blocks p)))"
    and lk: "length (k_blocks p ! ?a) = pool_layers p" "length (k_blocks p ! ?b) = pool_layers p"
    and lv: "length (v_blocks p ! ?a) = pool_layers p" "length (v_blocks p ! ?b) = pool_layers p"
    using ok ab by (simp_all add: pool_ok_def)
  show "k_cell p t1 l1 i = k_cell p t2 l2 j \<Longrightarrow> ?a = ?b \<and> l1 = l2 \<and> i mod BLOCK_SIZE = j mod BLOCK_SIZE"
    using distinct_concat_nth [OF d(1), of ?a l1 ?b l2] ab len lk l by (simp add: k_cell_def)
  show "v_cell p t1 l1 i = v_cell p t2 l2 j \<Longrightarrow> ?a = ?b \<and> l1 = l2 \<and> i mod BLOCK_SIZE = j mod BLOCK_SIZE"
    using distinct_concat_nth [OF d(2), of ?a l1 ?b l2] ab len lv l by (simp add: v_cell_def)
  have "k_blocks p ! ?a ! l1 \<in> set (concat (k_blocks p))" "v_blocks p ! ?b ! l2 \<in> set (concat (v_blocks p))"
    using ab len lk(1) lv(2) l by (auto intro!: nth_nth_concat simp del: set_concat)
  then show "k_cell p t1 l1 i \<noteq> v_cell p t2 l2 j"
    using ok by (auto simp: pool_ok_def k_cell_def v_cell_def)
qed

subsection \<open>The write loop\<close>

lemma copy_chunk:
  assumes laws: "row_laws be rows" and c: "be_copy_rows be src dst written (gp mod BLOCK_SIZE) w b = (Inr u, b1)"
    and dst: "t_id dst = D (gp div BLOCK_SIZE)" and w: "w \<le> BLOCK_SIZE - gp mod BLOCK_SIZE"
  shows "pos \<in> {gp..<gp + w} \<Longrightarrow> rows b1 (D (pos div BLOCK_SIZE)) (pos mod BLOCK_SIZE) = rows b (t_id src) (written + (pos - gp))"
    and "(t, i) \<notin> (\<lambda>pos. (D (pos div BLOCK_SIZE), pos mod BLOCK_SIZE)) ` {gp..<gp + w} \<Longrightarrow> rows b1 t i = rows b t i"
proof -
  have r: "rows b1 t i = (if t = D (gp div BLOCK_SIZE) \<and> gp mod BLOCK_SIZE \<le> i \<and> i < gp mod BLOCK_SIZE + w
      then rows b (t_id src) (written + (i - gp mod BLOCK_SIZE)) else rows b t i)" for t i
    using laws c unfolding row_laws_def dst [symmetric] by simp
  have split: "(gp + k) div BLOCK_SIZE = gp div BLOCK_SIZE" "(gp + k) mod BLOCK_SIZE = gp mod BLOCK_SIZE + k" if "k < w" for k
  proof -
    have k: "gp mod BLOCK_SIZE + k < BLOCK_SIZE" using w that by simp
    have e: "gp + k = BLOCK_SIZE * (gp div BLOCK_SIZE) + (gp mod BLOCK_SIZE + k)" by simp
    show "(gp + k) div BLOCK_SIZE = gp div BLOCK_SIZE" using div_mult_self4 [of BLOCK_SIZE "gp div BLOCK_SIZE" "gp mod BLOCK_SIZE + k"] k
      unfolding e [symmetric] by (simp add: BLOCK_SIZE_def)
    show "(gp + k) mod BLOCK_SIZE = gp mod BLOCK_SIZE + k" by (subst e) (simp only: mod_mult_self4 mod_less [OF k])
  qed
  show "pos \<in> {gp..<gp + w} \<Longrightarrow> rows b1 (D (pos div BLOCK_SIZE)) (pos mod BLOCK_SIZE) = rows b (t_id src) (written + (pos - gp))"
    using split [of "pos - gp"] by (auto simp: r)
  assume out: "(t, i) \<notin> (\<lambda>pos. (D (pos div BLOCK_SIZE), pos mod BLOCK_SIZE)) ` {gp..<gp + w}"
  have "\<not> (t = D (gp div BLOCK_SIZE) \<and> gp mod BLOCK_SIZE \<le> i \<and> i < gp mod BLOCK_SIZE + w)"
  proof
    assume a: "t = D (gp div BLOCK_SIZE) \<and> gp mod BLOCK_SIZE \<le> i \<and> i < gp mod BLOCK_SIZE + w"
    let ?k = "i - gp mod BLOCK_SIZE"
    have k: "?k < w" using a by linarith
    have "(t, i) = (D ((gp + ?k) div BLOCK_SIZE), (gp + ?k) mod BLOCK_SIZE)" using split [OF k] a by simp
    then show False using out k by (metis (mono_tags, lifting) atLeastLessThan_iff image_eqI le_add1 nat_add_left_cancel_less)
  qed
  then show "rows b1 t i = rows b t i" unfolding r by (rule if_not_P)
qed

lemma cell_inj_same:
  assumes "pool_ok p" "set table \<subseteq> {..<capacity p}" "distinct table" "layer < pool_layers p"
    and "i < BLOCK_SIZE * length table" "j < BLOCK_SIZE * length table"
  shows "k_cell p table layer i = k_cell p table layer j \<Longrightarrow> i = j"
    and "v_cell p table layer i = v_cell p table layer j \<Longrightarrow> i = j"
  using cell_inj(1,2) [OF assms(1,2,2,4,4,5,6)] assms(3) div_block_less [OF assms(5)] div_block_less [OF assms(6)]
  by (auto simp: nth_eq_iff_index_eq intro: pos_eqI)

abbreviation cell_of :: "('b \<Rightarrow> u64 \<Rightarrow> nat \<Rightarrow> 'r) \<Rightarrow> 'b \<Rightarrow> u64 \<times> nat \<Rightarrow> 'r" where
  "cell_of rows b c \<equiv> rows b (fst c) (snd c)"

lemma k_cell_in: "pool_ok p \<Longrightarrow> set table \<subseteq> {..<capacity p} \<Longrightarrow> layer < pool_layers p \<Longrightarrow>
    pos < BLOCK_SIZE * length table \<Longrightarrow> fst (k_cell p table layer pos) \<in> tensor_ids (k_blocks p @ v_blocks p)
      \<and> fst (v_cell p table layer pos) \<in> tensor_ids (k_blocks p @ v_blocks p)"
  using nth_mem [OF div_block_less, of pos table]
    nth_nth_concat [of "table ! (pos div BLOCK_SIZE)" "k_blocks p" layer]
    nth_nth_concat [of "table ! (pos div BLOCK_SIZE)" "v_blocks p" layer]
  by (auto simp: pool_ok_def k_cell_def v_cell_def tensor_ids_def)

text \<open>One round of the loop: the keys of the chunk \<open>A\<close>, its values, then the rest \<open>B\<close>.\<close>

lemma write_step:
  assumes inj: "inj_on K (A \<union> B)" "inj_on V (A \<union> B)" and apart: "K ` (A \<union> B) \<inter> V ` (A \<union> B) = {}"
    and disj: "A \<inter> B = {}"
    and src: "\<And>pos. sk pos \<notin> K ` (A \<union> B) \<union> V ` (A \<union> B)" "\<And>pos. sv pos \<notin> K ` (A \<union> B) \<union> V ` (A \<union> B)"
    and k: "\<And>pos. pos \<in> A \<Longrightarrow> g1 (K pos) = g0 (sk pos)" "\<And>c. c \<notin> K ` A \<Longrightarrow> g1 c = g0 c"
    and v: "\<And>pos. pos \<in> A \<Longrightarrow> g2 (V pos) = g1 (sv pos)" "\<And>c. c \<notin> V ` A \<Longrightarrow> g2 c = g1 c"
    and rest: "\<And>pos. pos \<in> B \<Longrightarrow> g3 (K pos) = g2 (sk pos) \<and> g3 (V pos) = g2 (sv pos)"
      "\<And>c. c \<notin> K ` B \<union> V ` B \<Longrightarrow> g3 c = g2 c"
  shows "pos \<in> A \<union> B \<Longrightarrow> g3 (K pos) = g0 (sk pos) \<and> g3 (V pos) = g0 (sv pos)"
    and "c \<notin> K ` (A \<union> B) \<union> V ` (A \<union> B) \<Longrightarrow> g3 c = g0 c"
proof -
  have sk: "g1 (sk q) = g0 (sk q)" "g2 (sk q) = g0 (sk q)" and sv: "g1 (sv q) = g0 (sv q)" "g2 (sv q) = g0 (sv q)" for q
    using src(1) [of q] src(2) [of q] k(2) [of "sk q"] k(2) [of "sv q"] v(2) [of "sk q"] v(2) [of "sv q"]
    by (simp_all add: image_Un)
  show "g3 (K pos) = g0 (sk pos) \<and> g3 (V pos) = g0 (sv pos)" if "pos \<in> A \<union> B"
  proof (cases "pos \<in> B")
    case True
    then show ?thesis using rest(1) sk sv by simp
  next
    case False
    then have A: "pos \<in> A" using that by blast
    have "K pos \<notin> K ` B" "V pos \<notin> V ` B" using inj A disj unfolding inj_on_def by blast+
    moreover have "K pos \<notin> V ` (A \<union> B)" "V pos \<notin> K ` (A \<union> B)" using apart A by blast+
    ultimately have "g3 (K pos) = g2 (K pos)" "g3 (V pos) = g2 (V pos)" "g2 (K pos) = g1 (K pos)"
      using rest(2) [of "K pos"] rest(2) [of "V pos"] v(2) [of "K pos"] by auto
    then show ?thesis using k(1) [OF A] v(1) [OF A] sv by simp
  qed
  show "g3 c = g0 c" if "c \<notin> K ` (A \<union> B) \<union> V ` (A \<union> B)"
    using that k(2) [of c] v(2) [of c] rest(2) [of c] by (simp add: image_Un)
qed

text \<open>A write that succeeds puts row \<open>i\<close> of the source at the cell of position \<open>start + i\<close>, and touches
  no other cell.\<close>

lemma write_rows_effect:
  assumes laws: "row_laws be rows" and ok: "pool_ok p" and tab: "set table \<subseteq> {..<capacity p}" "distinct table"
    and lay: "layer < pool_layers p" and fits: "start + n \<le> BLOCK_SIZE * length table"
    and src: "t_id keys \<notin> tensor_ids (k_blocks p @ v_blocks p)" "t_id vals \<notin> tensor_ids (k_blocks p @ v_blocks p)"
    and "write_rows be p table layer keys vals start n written b = Some (Inr (), b')"
  shows "(\<forall>pos \<in> {start + written..<start + n}.
        cell_of rows b' (k_cell p table layer pos) = rows b (t_id keys) (pos - start)
        \<and> cell_of rows b' (v_cell p table layer pos) = rows b (t_id vals) (pos - start))
    \<and> (\<forall>c. c \<notin> (k_cell p table layer ` {start + written..<start + n}) \<union> (v_cell p table layer ` {start + written..<start + n})
        \<longrightarrow> cell_of rows b' c = cell_of rows b c)"
  using assms(9)
proof (induction "n - written" arbitrary: written b rule: less_induct)
  case less
  let ?S = "\<lambda>j. {start + j..<start + n}" and ?K = "k_cell p table layer" and ?V = "v_cell p table layer"
  show ?case
  proof (cases "written < n")
    case False
    then show ?thesis using less.prems by (subst (asm) write_rows.simps) simp
  next
    case True
    define gp where "gp = start + written"
    define w where "w = min (n - written) (BLOCK_SIZE - gp mod BLOCK_SIZE)"
    define bid where "bid = table ! (gp div BLOCK_SIZE)"
    have gp: "gp < BLOCK_SIZE * length table" using True fits by (simp add: gp_def)
    have bi: "gp div BLOCK_SIZE < length table" using div_block_less [OF gp] .
    have bid: "bid < capacity p" using tab(1) nth_mem [OF bi] by (auto simp: bid_def)
    note T = pool_tensor [OF ok bid lay]
    obtain b1 b2 where c1: "be_copy_rows be keys (k_blocks p ! bid ! layer) written (gp mod BLOCK_SIZE) w b = (Inr (), b1)"
      and c2: "be_copy_rows be vals (v_blocks p ! bid ! layer) written (gp mod BLOCK_SIZE) w b1 = (Inr (), b2)"
      and rest: "write_rows be p table layer keys vals start n (written + w) b2 = Some (Inr (), b')"
      using less.prems True bi T
      by (subst (asm) write_rows.simps)
        (auto simp: Let_def gp_def [symmetric] bid_def [symmetric] w_def [symmetric] split: prod.splits sum.splits)
    have w: "0 < w" "w \<le> BLOCK_SIZE - gp mod BLOCK_SIZE" "written + w \<le> n"
      using True by (auto simp: w_def BLOCK_SIZE_def)
    have IH1: "\<And>pos. pos \<in> ?S (written + w) \<Longrightarrow> cell_of rows b' (?K pos) = rows b2 (t_id keys) (pos - start)
        \<and> cell_of rows b' (?V pos) = rows b2 (t_id vals) (pos - start)"
      and IH2: "\<And>c. c \<notin> ?K ` ?S (written + w) \<union> ?V ` ?S (written + w) \<Longrightarrow> cell_of rows b' c = cell_of rows b2 c"
      using less.hyps [OF _ rest] w True by auto
    have C1: "\<And>pos. pos \<in> {gp..<gp + w} \<Longrightarrow> cell_of rows b1 (?K pos) = rows b (t_id keys) (pos - start)"
      and D1: "\<And>c. c \<notin> ?K ` {gp..<gp + w} \<Longrightarrow> cell_of rows b1 c = cell_of rows b c"
      using copy_chunk [OF laws c1, of "\<lambda>j. t_id (k_blocks p ! (table ! j) ! layer)"] w(2)
      by (auto simp: bid_def k_cell_def gp_def cong: image_cong)
    have C2: "\<And>pos. pos \<in> {gp..<gp + w} \<Longrightarrow> cell_of rows b2 (?V pos) = rows b1 (t_id vals) (pos - start)"
      and D2: "\<And>c. c \<notin> ?V ` {gp..<gp + w} \<Longrightarrow> cell_of rows b2 c = cell_of rows b1 c"
      using copy_chunk [OF laws c2, of "\<lambda>j. t_id (v_blocks p ! (table ! j) ! layer)"] w(2)
      by (auto simp: bid_def v_cell_def gp_def cong: image_cong)
    have S: "?S written = {gp..<gp + w} \<union> ?S (written + w)" using w by (auto simp: gp_def)
    have lim: "pos < BLOCK_SIZE * length table" if "pos \<in> ?S written" for pos using that fits by simp
    have apart: "?K ` ?S written \<inter> ?V ` ?S written = {}"
      using cell_inj(3) [OF ok tab(1,1) lay lay lim lim] by blast
    have inj: "inj_on ?K (?S written)" "inj_on ?V (?S written)"
      using cell_inj_same [OF ok tab lay lim lim] unfolding inj_on_def by blast+
    have out: "(t, r) \<notin> ?K ` ?S written \<union> ?V ` ?S written" if "t \<notin> tensor_ids (k_blocks p @ v_blocks p)" for t r
    proof
      assume "(t, r) \<in> ?K ` ?S written \<union> ?V ` ?S written"
      then obtain pos where pos: "pos \<in> ?S written" "?K pos = (t, r) \<or> ?V pos = (t, r)" unfolding Un_iff image_iff by metis
      show False using k_cell_in [OF ok tab(1) lay lim [OF pos(1)]] that pos(2) by auto
    qed
    have disj: "{gp..<gp + w} \<inter> ?S (written + w) = {}" by (auto simp: gp_def)
    let ?sk = "\<lambda>pos. (t_id keys, pos - start)" and ?sv = "\<lambda>pos. (t_id vals, pos - start)"
    have k: "cell_of rows b1 (?K pos) = cell_of rows b (?sk pos)" and v: "cell_of rows b2 (?V pos) = cell_of rows b1 (?sv pos)"
      if "pos \<in> {gp..<gp + w}" for pos using C1 [OF that] C2 [OF that] by (simp_all only: fst_conv snd_conv)
    have r: "cell_of rows b' (?K pos) = cell_of rows b2 (?sk pos) \<and> cell_of rows b' (?V pos) = cell_of rows b2 (?sv pos)"
      if "pos \<in> ?S (written + w)" for pos using IH1 [OF that] by (simp only: fst_conv snd_conv simp_thms)
    note step = write_step [where sk = ?sk and sv = ?sv and ?g0.0 = "cell_of rows b" and ?g1.0 = "cell_of rows b1"
        and ?g2.0 = "cell_of rows b2" and ?g3.0 = "cell_of rows b'",
        OF inj [unfolded S] apart [unfolded S] disj out [OF src(1), unfolded S] out [OF src(2), unfolded S]
          k D1 v D2 r IH2]
    show ?thesis unfolding S using step by (simp only: fst_conv snd_conv simp_thms ball_simps) blast
  qed
qed

subsection \<open>What a sequence stores\<close>

text \<open>The key and value rows of a sequence at a layer, read from the cells of its positions.\<close>

definition stored :: "('b \<Rightarrow> u64 \<Rightarrow> nat \<Rightarrow> 'r) \<Rightarrow> 'b \<Rightarrow> paged_manager \<Rightarrow> u64 \<Rightarrow> usize \<Rightarrow> ('r \<times> 'r) list" where
  "stored rows b m h layer = (case sequences m h of None \<Rightarrow> []
     | Some sq \<Rightarrow> map (\<lambda>pos. (cell_of rows b (k_cell (pool m) (block_table sq) layer pos),
         cell_of rows b (v_cell (pool m) (block_table sq) layer pos))) [0..<current_len sq])"

lemma cell_free_list [simp]: "k_cell (p\<lparr>free_list := fl\<rparr>) = k_cell p" "v_cell (p\<lparr>free_list := fl\<rparr>) = v_cell p"
  by (simp_all add: k_cell_def v_cell_def fun_eq_iff)

lemma cell_append:
  "pos < BLOCK_SIZE * length table \<Longrightarrow>
     k_cell p (table @ bs) layer pos = k_cell p table layer pos \<and> v_cell p (table @ bs) layer pos = v_cell p table layer pos"
  by (simp add: k_cell_def v_cell_def nth_append div_block_less)

text \<open>The state between two calls.\<close>

definition paged_ok :: "paged_manager \<Rightarrow> bool" where
  "paged_ok m \<longleftrightarrow> pool_ok (pool m) \<and> ledger_inv (paged_ledger m) \<and> all_roomy (paged_ledger m)"

lemma roomy_len: "roomy sq \<Longrightarrow> current_len sq \<le> BLOCK_SIZE * length (block_table sq)"
  by (simp add: roomy_def)

lemma paged_okD:
  assumes "paged_ok m" and "sequences m h = Some sq"
  shows "distinct (block_table sq)" and "set (block_table sq) \<subseteq> {..<capacity (pool m)}"
    and "roomy sq"
proof -
  have inv: "ledger_inv (paged_ledger m)" and s: "lg_seqs (paged_ledger m) h = Some sq"
    using assms by (simp_all add: paged_ok_def paged_ledger_def)
  show "distinct (block_table sq)" using ledger_invD(2) [OF inv s] .
  have "owned (paged_ledger m) h = set (block_table sq)" using s by (simp add: owned_def)
  moreover have "owned (paged_ledger m) h \<subseteq> {..<lg_capacity (paged_ledger m)}"
    using inv unfolding ledger_inv_def by blast
  ultimately show "set (block_table sq) \<subseteq> {..<capacity (pool m)}" by (simp add: paged_ledger_def)
  show "roomy sq" using assms by (simp add: paged_ok_def all_roomy_def paged_ledger_def)
qed

lemma paged_ok_disjoint:
  assumes "paged_ok m" and "sequences m h = Some sq" "sequences m k = Some sq'" and "h \<noteq> k"
  shows "set (block_table sq) \<inter> set (block_table sq') = {}"
proof -
  have "owned (paged_ledger m) h \<inter> owned (paged_ledger m) k = {}"
    using assms(1,4) unfolding paged_ok_def ledger_inv_def by blast
  then show ?thesis using assms(2,3) by (simp add: owned_def paged_ledger_def)
qed

text \<open>An append keeps the state good, and a successful one writes the new rows behind the sequence as
  it leaves it.\<close>

lemma append_pool:
  assumes "append_kv be h layer keys vals m b = Some (r, m', b')"
  shows "\<exists>fl. pool m' = (pool m)\<lparr>free_list := fl\<rparr>"
  using assms
proof (cases rule: append_kv_cases)
  case bad_handle
  then show ?thesis by (intro exI [of _ "free_list (pool m)"]) simp
next
  case later_layer
  then show ?thesis by (intro exI [of _ "free_list (pool m)"]) simp
qed auto

lemma append_ok:
  assumes "paged_ok m" and "append_kv be h layer keys vals m b = Some (r, m', b')"
  shows "paged_ok m'"
proof -
  have a: "paged_append be h m m'" using assms(2) unfolding paged_append_def by blast
  then have st: "mstep paged_ledger alloc_seq free_seq (paged_append be) m m'" by (rule ms_append)
  have "ledger_inv (paged_ledger m')" using paged.mstep_inv [OF st] assms(1) by (simp add: paged_ok_def)
  moreover have "all_roomy (paged_ledger m')"
    using paged.mreach_roomy [OF mr_step [OF mr_start st]] assms(1) by (simp add: paged_ok_def)
  moreover have "pool_ok (pool m')" using append_pool [OF assms(2)] assms(1) by (auto simp: paged_ok_def)
  ultimately show ?thesis by (simp add: paged_ok_def)
qed

lemma append_writes:
  assumes "paged_ok m" and "append_kv be h layer keys vals m b = Some (Inr (), m', b')"
    and "t_shape keys = n # rest"
  shows "\<exists>sq sq'. sequences m h = Some sq \<and> sequences m' = (sequences m)(h \<mapsto> sq')
    \<and> current_len sq' = current_len sq + (if layer = 0 then n else 0) \<and> n \<le> current_len sq'
    \<and> (\<exists>bs. block_table sq' = block_table sq @ bs)
    \<and> write_rows be (pool m') (block_table sq') layer keys vals (current_len sq' - n) n 0 b = Some (Inr (), b')"
  using assms(2)
proof (cases rule: append_kv_cases)
  case bad_handle
  then show ?thesis using assms(2) by (simp add: append_kv_def)
next
  case (first_layer sq n' rest' fill fl table)
  have "last_block_fill sq \<le> BLOCK_SIZE" using paged_okD(3) [OF assms(1) first_layer(1)] by (simp add: roomy_def)
  from grow_effect [OF first_layer(4) this] obtain bs where "table = block_table sq @ bs" by blast
  then show ?thesis using first_layer assms(3)
    by (intro exI [of _ sq] exI [of _ "\<lparr>block_table = table, last_block_fill = fill, current_len = current_len sq + n\<rparr>"])
      simp
next
  case (later_layer sq n' rest')
  then show ?thesis using assms(3)
    by (intro exI [of _ sq] exI [of _ sq]) (auto simp: map_upd_triv intro: exI [of _ "[]"])
qed simp

lemma stored_Some:
  "sequences m h = Some sq \<Longrightarrow> stored rows b m h layer = map (\<lambda>pos.
     (cell_of rows b (k_cell (pool m) (block_table sq) layer pos),
      cell_of rows b (v_cell (pool m) (block_table sq) layer pos))) [0..<current_len sq]"
  by (simp add: stored_def)

lemma notin_imageI: "(\<And>x. x \<in> S \<Longrightarrow> c = f x \<Longrightarrow> False) \<Longrightarrow> c \<notin> f ` S"
  by blast

text \<open>The cells an append sets, and those it leaves alone.\<close>

lemma append_cells:
  assumes laws: "row_laws be rows" and ok: "paged_ok m"
    and lay: "layer < pool_layers (pool m)" and sh: "t_shape keys = n # rest"
    and src: "t_id keys \<notin> tensor_ids (k_blocks (pool m) @ v_blocks (pool m))"
      "t_id vals \<notin> tensor_ids (k_blocks (pool m) @ v_blocks (pool m))"
    and app: "append_kv be h layer keys vals m b = Some (Inr (), m', b')"
  obtains sq sq' bs fl where "sequences m h = Some sq" "sequences m' = (sequences m)(h \<mapsto> sq')"
    "current_len sq' = current_len sq + (if layer = 0 then n else 0)" "n \<le> current_len sq'"
    "block_table sq' = block_table sq @ bs" "pool m' = (pool m)\<lparr>free_list := fl\<rparr>" "paged_ok m'"
    "\<forall>pos \<in> {current_len sq' - n..<current_len sq'}.
        cell_of rows b' (k_cell (pool m) (block_table sq') layer pos) = rows b (t_id keys) (pos - (current_len sq' - n))
        \<and> cell_of rows b' (v_cell (pool m) (block_table sq') layer pos) = rows b (t_id vals) (pos - (current_len sq' - n))"
    "\<forall>t l pos. set t \<subseteq> {..<capacity (pool m)} \<longrightarrow> l < pool_layers (pool m) \<longrightarrow> pos < BLOCK_SIZE * length t \<longrightarrow>
        (\<forall>i \<in> {current_len sq' - n..<current_len sq'}. \<not> (t ! (pos div BLOCK_SIZE) = block_table sq' ! (i div BLOCK_SIZE)
           \<and> l = layer \<and> pos mod BLOCK_SIZE = i mod BLOCK_SIZE)) \<longrightarrow>
        cell_of rows b' (k_cell (pool m) t l pos) = cell_of rows b (k_cell (pool m) t l pos)
        \<and> cell_of rows b' (v_cell (pool m) t l pos) = cell_of rows b (v_cell (pool m) t l pos)"
proof -
  obtain sq sq' bs fl where sq: "sequences m h = Some sq" "sequences m' = (sequences m)(h \<mapsto> sq')"
    and len: "current_len sq' = current_len sq + (if layer = 0 then n else 0)" "n \<le> current_len sq'"
    and tab: "block_table sq' = block_table sq @ bs" and pl: "pool m' = (pool m)\<lparr>free_list := fl\<rparr>"
    and wr: "write_rows be (pool m') (block_table sq') layer keys vals (current_len sq' - n) n 0 b = Some (Inr (), b')"
    using append_writes [OF ok app sh] append_pool [OF app] by blast
  have ok': "paged_ok m'" by (rule append_ok [OF ok app])
  have sq': "sequences m' h = Some sq'" using sq(2) by simp
  let ?T = "block_table sq'" and ?s = "current_len sq' - n"
  note good = paged_okD [OF ok' sq']
  have pok: "pool_ok (pool m')" using ok' by (simp add: paged_ok_def)
  have fits: "?s + n \<le> BLOCK_SIZE * length ?T" using roomy_len [OF good(3)] len(2) by simp
  have E: "\<forall>pos \<in> {?s..<current_len sq'}. cell_of rows b' (k_cell (pool m) ?T layer pos) = rows b (t_id keys) (pos - ?s)
        \<and> cell_of rows b' (v_cell (pool m) ?T layer pos) = rows b (t_id vals) (pos - ?s)"
    and N: "\<And>c. c \<notin> k_cell (pool m) ?T layer ` {?s..<current_len sq'} \<union> v_cell (pool m) ?T layer ` {?s..<current_len sq'}
        \<Longrightarrow> cell_of rows b' c = cell_of rows b c"
    using write_rows_effect [OF laws pok good(2,1) _ fits _ _ wr] lay src len(2) by (simp_all add: pl)
  have keep: "cell_of rows b' (k_cell (pool m) t l pos) = cell_of rows b (k_cell (pool m) t l pos)
      \<and> cell_of rows b' (v_cell (pool m) t l pos) = cell_of rows b (v_cell (pool m) t l pos)"
    if "set t \<subseteq> {..<capacity (pool m)}" "l < pool_layers (pool m)" "pos < BLOCK_SIZE * length t"
      and no: "\<And>i. i \<in> {?s..<current_len sq'} \<Longrightarrow> \<not> (t ! (pos div BLOCK_SIZE) = ?T ! (i div BLOCK_SIZE) \<and> l = layer
         \<and> pos mod BLOCK_SIZE = i mod BLOCK_SIZE)" for t l pos
  proof -
    have lim: "i < BLOCK_SIZE * length ?T" if "i \<in> {?s..<current_len sq'}" for i using that fits len(2) by simp
    have pok0: "pool_ok (pool m)" and T0: "set ?T \<subseteq> {..<capacity (pool m)}" using pok good(2) by (simp_all add: pl)
    note inj = cell_inj [OF pok0 that(1) T0 that(2) lay that(3) lim]
      and inj' = cell_inj(3) [OF pok0 T0 that(1) lay that(2) lim that(3)]
    have "k_cell (pool m) t l pos \<notin> k_cell (pool m) ?T layer ` {?s..<current_len sq'}"
      by (rule notin_imageI) (metis no inj(1))
    moreover have "v_cell (pool m) t l pos \<notin> v_cell (pool m) ?T layer ` {?s..<current_len sq'}"
      by (rule notin_imageI) (metis no inj(2))
    moreover have "k_cell (pool m) t l pos \<notin> v_cell (pool m) ?T layer ` {?s..<current_len sq'}"
      by (rule notin_imageI) (metis inj(3))
    moreover have "v_cell (pool m) t l pos \<notin> k_cell (pool m) ?T layer ` {?s..<current_len sq'}"
      by (rule notin_imageI) (metis inj')
    ultimately show ?thesis by (intro conjI N) simp_all
  qed
  show thesis
    by (rule that [OF sq len tab pl ok' E]) (intro allI impI keep; blast)
qed

text \<open>The rows of a sequence, given that its table was extended and the cells of a prefix kept.\<close>

lemma stored_prefix:
  assumes "sequences m h = Some sq" "sequences m' h = Some sq'" and "roomy sq" "j \<le> current_len sq" "j \<le> current_len sq'"
    and "block_table sq' = block_table sq @ bs" "pool m' = (pool m)\<lparr>free_list := fl\<rparr>"
    and "\<And>pos. pos < j \<Longrightarrow> cell_of rows b' (k_cell (pool m) (block_table sq') l pos) = cell_of rows b (k_cell (pool m) (block_table sq') l pos)
        \<and> cell_of rows b' (v_cell (pool m) (block_table sq') l pos) = cell_of rows b (v_cell (pool m) (block_table sq') l pos)"
  shows "take j (stored rows b' m' h l) = take j (stored rows b m h l)"
proof -
  have "pos < BLOCK_SIZE * length (block_table sq)" if "pos < j" for pos
    using that assms(4) roomy_len [OF assms(3)] by linarith
  then have "cell_of rows b' (k_cell (pool m) (block_table sq') l pos) = cell_of rows b (k_cell (pool m) (block_table sq) l pos)
      \<and> cell_of rows b' (v_cell (pool m) (block_table sq') l pos) = cell_of rows b (v_cell (pool m) (block_table sq) l pos)"
    if "pos < j" for pos using assms(8) [OF that] cell_append that unfolding assms(6) by metis
  then show ?thesis
    using assms(4,5) by (simp add: stored_Some [OF assms(1)] stored_Some [OF assms(2)] assms(7) take_map min_def)
qed

lemma append_stores:
  assumes laws: "row_laws be rows" and ok: "paged_ok m"
    and lay: "layer < pool_layers (pool m)" and sh: "t_shape keys = n # rest"
    and src: "t_id keys \<notin> tensor_ids (k_blocks (pool m) @ v_blocks (pool m))"
      "t_id vals \<notin> tensor_ids (k_blocks (pool m) @ v_blocks (pool m))"
    and app: "append_kv be h layer keys vals m b = Some (Inr (), m', b')"
  shows "stored rows b' m' h layer
      = take (length (stored rows b m h layer) - (if layer = 0 then 0 else n)) (stored rows b m h layer)
        @ map (\<lambda>i. (rows b (t_id keys) i, rows b (t_id vals) i)) [0..<n]"
    and "l < pool_layers (pool m) \<Longrightarrow> l \<noteq> layer \<Longrightarrow>
      take (length (stored rows b m h l)) (stored rows b' m' h l) = stored rows b m h l"
    and "k \<noteq> h \<Longrightarrow> l < pool_layers (pool m) \<Longrightarrow> stored rows b' m' k l = stored rows b m k l"
proof -
  obtain sq sq' bs fl where sq: "sequences m h = Some sq" "sequences m' = (sequences m)(h \<mapsto> sq')"
    and len: "current_len sq' = current_len sq + (if layer = 0 then n else 0)" "n \<le> current_len sq'"
    and tab: "block_table sq' = block_table sq @ bs" and pl: "pool m' = (pool m)\<lparr>free_list := fl\<rparr>" and ok': "paged_ok m'"
    and E: "\<forall>pos \<in> {current_len sq' - n..<current_len sq'}.
        cell_of rows b' (k_cell (pool m) (block_table sq') layer pos) = rows b (t_id keys) (pos - (current_len sq' - n))
        \<and> cell_of rows b' (v_cell (pool m) (block_table sq') layer pos) = rows b (t_id vals) (pos - (current_len sq' - n))"
    and keep0: "\<forall>t l pos. set t \<subseteq> {..<capacity (pool m)} \<longrightarrow> l < pool_layers (pool m) \<longrightarrow> pos < BLOCK_SIZE * length t \<longrightarrow>
        (\<forall>i \<in> {current_len sq' - n..<current_len sq'}. \<not> (t ! (pos div BLOCK_SIZE) = block_table sq' ! (i div BLOCK_SIZE)
           \<and> l = layer \<and> pos mod BLOCK_SIZE = i mod BLOCK_SIZE)) \<longrightarrow>
        cell_of rows b' (k_cell (pool m) t l pos) = cell_of rows b (k_cell (pool m) t l pos)
        \<and> cell_of rows b' (v_cell (pool m) t l pos) = cell_of rows b (v_cell (pool m) t l pos)"
    by (rule append_cells [OF assms])
  note keep = keep0 [rule_format]
  have sq': "sequences m' h = Some sq'" using sq(2) by simp
  let ?T = "block_table sq'" and ?s = "current_len sq' - n"
  have good: "distinct ?T" "set ?T \<subseteq> {..<capacity (pool m)}" and fit: "current_len sq' \<le> BLOCK_SIZE * length ?T"
    using paged_okD [OF ok' sq'] roomy_len by (auto simp: pl)
  note old = paged_okD(3) [OF ok sq(1)]
  have s: "?s = length (stored rows b m h layer) - (if layer = 0 then 0 else n)" "?s \<le> current_len sq"
    using len by (auto simp: stored_Some [OF sq(1)])
  have "take ?s (stored rows b' m' h layer) = take ?s (stored rows b m h layer)"
  proof (rule stored_prefix [OF sq(1) sq' old s(2) _ tab pl keep [OF good(2) lay]])
    fix pos i assume p: "pos < ?s" "i \<in> {?s..<current_len sq'}"
    then have "pos < BLOCK_SIZE * length ?T" "i < BLOCK_SIZE * length ?T" "pos \<noteq> i" using fit by auto
    then show "\<not> (?T ! (pos div BLOCK_SIZE) = ?T ! (i div BLOCK_SIZE) \<and> layer = layer \<and> pos mod BLOCK_SIZE = i mod BLOCK_SIZE)"
      using good(1) by (auto simp: nth_eq_iff_index_eq div_block_less intro: pos_eqI)
  qed (use fit in auto)
  moreover have "drop ?s (stored rows b' m' h layer) = map (\<lambda>i. (rows b (t_id keys) i, rows b (t_id vals) i)) [0..<n]"
  proof (rule nth_equalityI)
    fix i assume "i < length (drop ?s (stored rows b' m' h layer))"
    then have i: "i < n" using len(2) by (simp add: stored_Some [OF sq'])
    obtain s0 where s0: "current_len sq' = s0 + n" using len(2) by (metis le_add_diff_inverse2)
    show "drop ?s (stored rows b' m' h layer) ! i = map (\<lambda>i. (rows b (t_id keys) i, rows b (t_id vals) i)) [0..<n] ! i"
      using bspec [OF E, of "?s + i"] i by (simp add: stored_Some [OF sq'] pl s0)
  qed (use len(2) in \<open>simp add: stored_Some [OF sq']\<close>)
  ultimately show "stored rows b' m' h layer
      = take (length (stored rows b m h layer) - (if layer = 0 then 0 else n)) (stored rows b m h layer)
        @ map (\<lambda>i. (rows b (t_id keys) i, rows b (t_id vals) i)) [0..<n]"
    unfolding s(1) [symmetric] by (metis append_take_drop_id)
  show "take (length (stored rows b m h l)) (stored rows b' m' h l) = stored rows b m h l"
    if "l < pool_layers (pool m)" "l \<noteq> layer"
  proof -
    have "take (current_len sq) (stored rows b' m' h l) = take (current_len sq) (stored rows b m h l)"
      by (rule stored_prefix [OF sq(1) sq' old _ _ tab pl keep [OF good(2) that(1)]]) (use len(1) fit that(2) in auto)
    then show ?thesis by (simp add: stored_Some [OF sq(1)])
  qed
  show "stored rows b' m' k l = stored rows b m k l" if "k \<noteq> h" "l < pool_layers (pool m)"
  proof (cases "sequences m k")
    case None
    then show ?thesis using that sq(2) by (simp add: stored_def)
  next
    case (Some q)
    then have q': "sequences m' k = Some q" using that sq(2) by simp
    have apart: "set (block_table q) \<inter> set ?T = {}" using paged_ok_disjoint [OF ok' q' sq' that(1)] .
    note qk = paged_okD [OF ok Some]
    have "take (current_len q) (stored rows b' m' k l) = take (current_len q) (stored rows b m k l)"
    proof (rule stored_prefix [OF Some q' qk(3) _ _ _ pl keep [OF qk(2) that(2)]])
      fix pos i assume p: "pos < current_len q" "i \<in> {?s..<current_len sq'}"
      show "\<not> (block_table q ! (pos div BLOCK_SIZE) = ?T ! (i div BLOCK_SIZE) \<and> l = layer \<and> pos mod BLOCK_SIZE = i mod BLOCK_SIZE)"
        using apart nth_mem [OF div_block_less, of pos "block_table q"] nth_mem [OF div_block_less, of i ?T]
          p fit roomy_len [OF qk(3)] by (metis IntI atLeastLessThan_iff empty_iff order_less_le_trans)
    qed (use roomy_len [OF qk(3)] in auto)
    then show ?thesis by (simp add: stored_Some [OF Some] stored_Some [OF q'])
  qed
qed

subsection \<open>Panics\<close>

lemma write_rows_returns:
  assumes "pool_ok p" and "set table \<subseteq> {..<capacity p}" and "layer < pool_layers p" and "start + n \<le> BLOCK_SIZE * length table"
  shows "\<exists>r b'. write_rows be p table layer keys vals start n written b = Some (r, b')
    \<and> (copies_succeed be \<longrightarrow> r = Inr ())"
proof (induction "n - written" arbitrary: written b rule: less_induct)
  case less
  show ?case
  proof (cases "written < n")
    case False
    then show ?thesis by (subst write_rows.simps) simp
  next
    case True
    define gp where "gp = start + written"
    define w where "w = min (n - written) (BLOCK_SIZE - gp mod BLOCK_SIZE)"
    define bid where "bid = table ! (gp div BLOCK_SIZE)"
    have bi: "gp div BLOCK_SIZE < length table" using True assms(4) by (intro div_block_less) (simp add: gp_def)
    have bid: "bid < capacity p" using assms(2) nth_mem [OF bi] by (auto simp: bid_def)
    note T = pool_tensor [OF assms(1) bid assms(3)]
    have "n - (written + w) < n - written" using True by (simp add: w_def BLOCK_SIZE_def)
    note IH = less.hyps [OF this]
    obtain r1 b1 where c1: "be_copy_rows be keys (k_blocks p ! bid ! layer) written (gp mod BLOCK_SIZE) w b = (r1, b1)"
      by fastforce
    obtain r2 b2 where c2: "be_copy_rows be vals (v_blocks p ! bid ! layer) written (gp mod BLOCK_SIZE) w b1 = (r2, b2)"
      by fastforce
    have eq: "write_rows be p table layer keys vals start n written b = (case r1 of Inl e \<Rightarrow> Some (Inl e, b1)
        | Inr _ \<Rightarrow> (case r2 of Inl e \<Rightarrow> Some (Inl e, b2)
            | Inr _ \<Rightarrow> write_rows be p table layer keys vals start n (written + w) b2))"
      using True bi T c1 c2
      by (subst write_rows.simps) (simp add: Let_def gp_def [symmetric] bid_def [symmetric] w_def [symmetric] split: sum.splits)
    have "r1 = Inr () \<and> r2 = Inr ()" if "copies_succeed be"
      using that c1 c2 unfolding copies_succeed_def by (metis fst_conv)
    then show ?thesis using IH [of b2] unfolding eq by (cases r1; cases r2) auto
  qed
qed

text \<open>Appends on good states never panic, given a layer of the model, keys with a leading dimension and,
  past layer 0, rows that the sequence already counts.\<close>

lemma append_returns:
  assumes ok: "paged_ok m" and lay: "layer < pool_layers (pool m)" and sh: "t_shape keys = n # rest"
    and len: "\<And>sq. sequences m h = Some sq \<Longrightarrow> layer \<noteq> 0 \<Longrightarrow> n \<le> current_len sq"
  shows "append_kv be h layer keys vals m b \<noteq> None"
proof (cases "sequences m h")
  case None
  then show ?thesis by (simp add: append_kv_def)
next
  case (Some sq)
  have pok: "pool_ok (pool m)" using ok by (simp add: paged_ok_def)
  note good = paged_okD [OF ok Some]
  show ?thesis
  proof (cases "layer = 0")
    case False
    have "current_len sq - n + n \<le> BLOCK_SIZE * length (block_table sq)"
      using roomy_len [OF good(3)] len [OF Some False] by simp
    from write_rows_returns [OF pok good(2) lay this, of be keys vals 0 b]
    show ?thesis using Some sh False len [OF Some False] by (auto simp: append_kv_def)
  next
    case True
    obtain r fl table where g: "grow (bytes_per_block (pool m)) (free_list (pool m)) (block_table sq)
        (last_block_fill sq) n = (r, fl, table)"
      by (cases "grow (bytes_per_block (pool m)) (free_list (pool m)) (block_table sq) (last_block_fill sq) n")
    have f: "last_block_fill sq \<le> BLOCK_SIZE" using good(3) by (simp add: roomy_def)
    from grow_effect [OF g f] obtain bs where bs: "free_list (pool m) = fl @ rev bs" "table = block_table sq @ bs" by blast
    have "set (free_list (pool m)) \<subseteq> {..<capacity (pool m)}"
      using ok unfolding paged_ok_def ledger_inv_def paged_ledger_def by auto
    then have tab: "set table \<subseteq> {..<capacity (pool m)}" using bs good(2) by auto
    show ?thesis
    proof (cases r)
      case (Inl e)
      then show ?thesis using Some sh True g by (simp add: append_kv_def grow_blocks_grow)
    next
      case (Inr fill)
      have "roomy \<lparr>block_table = table, last_block_fill = fill, current_len = current_len sq + n\<rparr>"
        using grow_roomy [OF g good(3)] Inr by simp
      from roomy_len [OF this] have "current_len sq + n \<le> BLOCK_SIZE * length table" by simp
      from write_rows_returns [OF _ _ _ this, of "(pool m)\<lparr>free_list := fl\<rparr>" layer be keys vals 0 b]
      show ?thesis using Some sh True g Inr pok tab lay by (auto simp: append_kv_def grow_blocks_grow)
    qed
  qed
qed

subsection \<open>Creating and destroying a pool\<close>

text \<open>The tensors of \<open>new\<close> are fresh and distinct; on an error the ones allocated so far are those listed.\<close>

definition fresh_tensors :: "('b \<Rightarrow> u64 set) \<Rightarrow> 'b \<Rightarrow> device_tensor list \<Rightarrow> 'b \<Rightarrow> bool" where
  "fresh_tensors live b ts b' \<longleftrightarrow> distinct (map t_id ts) \<and> t_id ` set ts \<inter> live b = {} \<and> live b' = live b \<union> t_id ` set ts"

lemma exI2: "P x y \<Longrightarrow> \<exists>x y. P x y"
  by blast

lemma fresh_tensors_trans:
  assumes "fresh_tensors live b ts b1" and "fresh_tensors live b1 us b2"
  shows "fresh_tensors live b (ts @ us) b2"
proof -
  define A B where "A = t_id ` set ts" and "B = t_id ` set us"
  have "A \<inter> live b = {}" "live b1 = live b \<union> A" "B \<inter> live b1 = {}" "live b2 = live b1 \<union> B"
    using assms by (simp_all add: fresh_tensors_def A_def B_def)
  then have "A \<inter> B = {} \<and> (A \<union> B) \<inter> live b = {} \<and> live b2 = live b \<union> (A \<union> B)" by blast
  then show ?thesis using assms by (simp add: fresh_tensors_def A_def B_def image_Un)
qed

lemma fresh_tensors_cong:
  "fresh_tensors live b ts b' \<Longrightarrow> set ts = set us \<Longrightarrow> distinct (map t_id ts) = distinct (map t_id us)
    \<Longrightarrow> fresh_tensors live b us b'"
  by (simp add: fresh_tensors_def)

lemma fresh_tensors_swap:
  assumes "fresh_tensors live b ((ks @ vs) @ ks' @ vs') b'"
  shows "fresh_tensors live b ((ks @ ks') @ vs @ vs') b'"
  using assms
proof (rule fresh_tensors_cong)
  show "distinct (map t_id ((ks @ vs) @ ks' @ vs')) = distinct (map t_id ((ks @ ks') @ vs @ vs'))"
    unfolding map_append distinct_append set_append by blast
qed auto

lemma alloc_layers_fresh:
  assumes laws: "heap_laws be live" and "alloc_layers be shape n kl vl b = (e, kl', vl', b')"
  shows "\<exists>ks vs. kl' = kl @ ks \<and> vl' = vl @ vs \<and> fresh_tensors live b (ks @ vs) b'
    \<and> (e = None \<longrightarrow> length ks = n \<and> length vs = n)"
  using assms(2)
proof (induction n arbitrary: kl vl b)
  case 0
  then show ?case by (auto simp: fresh_tensors_def)
next
  case (Suc n)
  note live = heap_lawsD [OF laws]
  obtain r1 b1 where a1: "be_alloc be shape FP16 b = (r1, b1)" by fastforce
  obtain r2 b2 where a2: "be_alloc be shape FP16 b1 = (r2, b2)" by fastforce
  show ?case
  proof (cases r1; cases r2)
    fix k v assume r: "r1 = Inr k" "r2 = Inr v"
    then have "alloc_layers be shape n (kl @ [k]) (vl @ [v]) b2 = (e, kl', vl', b')" using Suc.prems a1 a2 by simp
    from Suc.IH [OF this] obtain ks vs where *: "kl' = kl @ k # ks" "vl' = vl @ v # vs" "fresh_tensors live b2 (ks @ vs) b'"
      "e = None \<longrightarrow> length ks = n \<and> length vs = n" by auto
    have "fresh_tensors live b ([k] @ [v]) b2"
      using live(1) [of shape FP16 b k b1] live(1) [of shape FP16 b1 v b2] a1 a2 r by (auto simp: fresh_tensors_def)
    from fresh_tensors_swap [OF fresh_tensors_trans [OF this *(3)]] have "fresh_tensors live b ((k # ks) @ (v # vs)) b'"
      by simp
    then show ?thesis using * by (intro exI2 [of _ "k # ks" "v # vs"]) simp
  next
    fix k e2 assume r: "r1 = Inr k" "r2 = Inl e2"
    have k: "t_id k \<notin> live b" "live b2 = insert (t_id k) (live b)"
      using live(1) [of shape FP16 b k b1] live(2) [of shape FP16 b1 e2 b2] a1 a2 r by auto
    have "live (snd (be_free be k b2)) = live b" using live(3) [of k b2] k by simp
    then show ?thesis using Suc.prems a1 a2 r by (auto simp: fresh_tensors_def)
  next
    fix e1 e2 assume "r1 = Inl e1" "r2 = Inl e2"
    then show ?thesis using Suc.prems a1 live(2) [of shape FP16 b e1 b1] by (auto simp: fresh_tensors_def)
  next
    fix e1 v assume "r1 = Inl e1" "r2 = Inr v"
    then show ?thesis using Suc.prems a1 live(2) [of shape FP16 b e1 b1] by (auto simp: fresh_tensors_def)
  qed
qed

lemma alloc_blocks_fresh:
  assumes laws: "heap_laws be live" and "alloc_blocks be shape layers n kbs vbs b = (e, kbs', vbs', b')"
  shows "\<exists>ks vs. kbs' = kbs @ ks \<and> vbs' = vbs @ vs \<and> fresh_tensors live b (concat (ks @ vs)) b'
    \<and> (e = None \<longrightarrow> length ks = n \<and> length vs = n \<and> (\<forall>ts \<in> set (ks @ vs). length ts = layers))"
  using assms(2)
proof (induction n arbitrary: kbs vbs b)
  case 0
  then show ?case by (auto simp: fresh_tensors_def)
next
  case (Suc n)
  obtain e1 kl vl b1 where a: "alloc_layers be shape layers [] [] b = (e1, kl, vl, b1)"
    by (cases "alloc_layers be shape layers [] [] b")
  then have f: "fresh_tensors live b (kl @ vl) b1" "e1 = None \<longrightarrow> length kl = layers \<and> length vl = layers"
    using alloc_layers_fresh [OF laws a] by auto
  show ?case
  proof (cases e1)
    case None
    then have "alloc_blocks be shape layers n (kbs @ [kl]) (vbs @ [vl]) b1 = (e, kbs', vbs', b')" using Suc.prems a by simp
    from Suc.IH [OF this] obtain ks vs where *: "kbs' = kbs @ kl # ks" "vbs' = vbs @ vl # vs"
      "fresh_tensors live b1 (concat (ks @ vs)) b'"
      "e = None \<longrightarrow> length ks = n \<and> length vs = n \<and> (\<forall>ts \<in> set (ks @ vs). length ts = layers)" by auto
    from fresh_tensors_swap [OF fresh_tensors_trans [OF f(1) *(3) [unfolded concat_append]]]
    have "fresh_tensors live b (concat ((kl # ks) @ (vl # vs))) b'" by simp
    then show ?thesis using * f(2) None by (intro exI2 [of _ "kl # ks" "vl # vs"]) auto
  next
    case (Some e')
    then show ?thesis using Suc.prems a f by (intro exI2 [of _ "[kl]" "[vl]"]) auto
  qed
qed

lemma new_pool_fresh:
  assumes laws: "heap_laws be live" and "new_pool be n layers kvh hdim b = (Inr p, b')"
  shows "pool_ok p" and "fresh_tensors live b (concat (k_blocks p @ v_blocks p)) b'"
    and "free_list p = rev [0..<n]" "capacity p = n" "pool_layers p = layers"
proof -
  obtain e kbs vbs b1 where a: "alloc_blocks be [BLOCK_SIZE, kvh, hdim] layers n [] [] b = (e, kbs, vbs, b1)"
    by (cases "alloc_blocks be [BLOCK_SIZE, kvh, hdim] layers n [] [] b")
  have e: "e = None" and p: "p = \<lparr>k_blocks = kbs, v_blocks = vbs, free_list = rev [0..<n], capacity = n,
      pool_layers = layers, pool_kv_heads = kvh, pool_head_dim = hdim\<rparr>" "b' = b1"
    using assms(2) a by (cases e; simp add: new_pool_def)+
  from alloc_blocks_fresh [OF laws a] e have f: "fresh_tensors live b (concat (kbs @ vbs)) b1"
    "length kbs = n" "length vbs = n" "\<forall>ts \<in> set (kbs @ vbs). length ts = layers" by auto
  then show "fresh_tensors live b (concat (k_blocks p @ v_blocks p)) b'" by (simp add: p)
  have "distinct (map t_id (concat (kbs @ vbs)))" using f(1) by (simp add: fresh_tensors_def)
  then show "pool_ok p" using f(2-4) by (simp add: pool_ok_def p)
qed (use assms(2) in \<open>auto simp: new_pool_def split: prod.splits option.splits\<close>)

lemma new_manager_ok:
  assumes "heap_laws be live" and "new_manager be n layers kvh hdim b = (Inr m, b')"
  shows "paged_ok m" and "capacity (pool m) = n" and "fresh_tensors live b (concat (k_blocks (pool m) @ v_blocks (pool m))) b'"
proof -
  obtain p b1 where p: "new_pool be n layers kvh hdim b = (Inr p, b1)" "m = \<lparr>pool = p, sequences = Map.empty, next_id = 0\<rparr>" "b' = b1"
    using assms(2) by (auto simp: new_manager_def dbind_eq_Inr)
  note f = new_pool_fresh [OF assms(1) p(1)]
  have "ledger_inv (paged_ledger m)" using f by (auto simp: p paged_ledger_def ledger_inv_def owned_def)
  moreover have "all_roomy (paged_ledger m)" by (simp add: p paged_ledger_def all_roomy_def)
  ultimately show "paged_ok m" using f(1) by (simp add: paged_ok_def p)
  show "capacity (pool m) = n" "fresh_tensors live b (concat (k_blocks (pool m) @ v_blocks (pool m))) b'"
    using f by (simp_all add: p)
qed

end
