(* ===== verification/Paged_Correct.thy ===== *)
theory Paged_Correct
  imports Paged_Store
begin

text \<open>
  The properties of the paged cache.
\<close>

abbreviation paged_run :: "'b backend \<Rightarrow> paged_manager \<Rightarrow> paged_manager \<Rightarrow> bool" where
  "paged_run be \<equiv> mreach paged_ledger alloc_seq free_seq (paged_append be)"

lemma run_pool:
  assumes "paged_run be m0 m"
  shows "\<exists>fl. pool m = (pool m0)\<lparr>free_list := fl\<rparr>"
  using assms
proof (induction rule: mreach.induct)
  case mr_start
  then show ?case by (intro exI [of _ "free_list (pool m0)"]) simp
next
  case (mr_step m m')
  have "\<exists>fl. pool m' = (pool m)\<lparr>free_list := fl\<rparr>" using mr_step.hyps(2)
  proof cases
    case (ms_alloc r)
    then show ?thesis by (auto simp: alloc_seq_def alloc_block_def Let_def split: if_splits intro: exI [of _ "free_list (pool m)"])
  next
    case (ms_release h r)
    then show ?thesis
      by (auto simp: free_seq_def foldl_free_block split: option.splits intro: exI [of _ "free_list (pool m)"])
  next
    case (ms_append h)
    then obtain layer keys vals b r b' where "append_kv be h layer keys vals m b = Some (r, m', b')"
      unfolding paged_append_def by blast
    then show ?thesis by (rule append_pool)
  qed
  then show ?case using mr_step.IH by auto
qed

lemma run_ok: "paged_run be m0 m \<Longrightarrow> paged_ok m0 \<Longrightarrow> paged_ok m"
  using paged.mreach_inv [of be m0 m] paged.mreach_roomy [of be m0 m] run_pool [of be m0 m] by (auto simp: paged_ok_def)

text \<open>A manager of two blocks with one layer on the device \<open>ram\<close>, a sequence in it, and key and value
  rows outside the pool.\<close>

definition ram0 :: ram where
  "ram0 = \<lparr>ram_live = [], ram_next = 0, ram_room = 4, ram_rows = (\<lambda>t i. 100 * unat t + i)\<rparr>"

definition tiny_rows :: "u64 \<Rightarrow> usize \<Rightarrow> device_tensor" where
  "tiny_rows i n = \<lparr>t_id = i, t_shape = [n, 1, 1], t_dtype = FP16\<rparr>"

definition tiny_pool :: "usize list \<Rightarrow> block_pool" where
  "tiny_pool fl = \<lparr>k_blocks = [[tiny_rows 0 16], [tiny_rows 2 16]], v_blocks = [[tiny_rows 1 16], [tiny_rows 3 16]],
     free_list = fl, capacity = 2, pool_layers = 1, pool_kv_heads = 1, pool_head_dim = 1\<rparr>"

definition ram1 :: ram where
  "ram1 = ram0\<lparr>ram_live := [3, 2, 1, 0], ram_next := 4, ram_room := 0\<rparr>"

lemma two_blocks: "alloc_blocks be shape layers 2 = alloc_blocks be shape layers (Suc (Suc 0))"
  by (simp only: numeral_2_eq_2)

lemma three_blocks: "alloc_blocks be shape layers 3 = alloc_blocks be shape layers (Suc (Suc (Suc 0)))"
  by (simp only: numeral_3_eq_3)

lemma tiny_fails: "\<exists>e b. new_manager ram_backend 3 1 1 1 ram0 = (Inl e, b)"
  by (simp add: new_manager_def new_pool_def three_blocks ram_backend_def ram0_def)

lemma tiny_new:
  "new_manager ram_backend 2 1 1 1 ram0 = (Inr \<lparr>pool = tiny_pool [1, 0], sequences = Map.empty, next_id = 0\<rparr>, ram1)"
  by (simp add: new_manager_def new_pool_def two_blocks ram_backend_def ram0_def ram1_def tiny_pool_def tiny_rows_def BLOCK_SIZE_def
      upt_rec [of 0 2] upt_rec [of "Suc 0" 2])

abbreviation tiny0 :: paged_manager where
  "tiny0 \<equiv> \<lparr>pool = tiny_pool [1, 0], sequences = Map.empty, next_id = 0\<rparr>"

abbreviation tiny1 :: paged_manager where
  "tiny1 \<equiv> \<lparr>pool = tiny_pool [1], sequences = [0 \<mapsto> \<lparr>block_table = [0], last_block_fill = 0, current_len = 0\<rparr>], next_id = 1\<rparr>"

lemma tiny_alloc: "alloc_seq tiny0 = (Inr 0, tiny1)"
  by (simp add: alloc_seq_def alloc_block_def tiny_pool_def)

lemmas tiny_eval = append_kv_def tiny_pool_def grow_blocks.simps write_rows.simps BLOCK_SIZE_def alloc_block_def
  tiny_rows_def k_tensor_def v_tensor_def ram_backend_def

lemma tiny_append:
  "\<exists>b. append_kv ram_backend 0 0 (tiny_rows 8 20) (tiny_rows 9 20) tiny1 ram1 = Some (Inr (),
     \<lparr>pool = tiny_pool [], sequences = [0 \<mapsto> \<lparr>block_table = [0, 1], last_block_fill = 4, current_len = 20\<rparr>], next_id = 1\<rparr>, b)"
  by (simp add: tiny_eval)

lemma tiny_run: "paged_run ram_backend tiny0 tiny1"
  by (rule mr_step [OF mr_start ms_alloc [where alloc = alloc_seq, OF _ tiny_alloc]]) (simp add: paged_ledger_def)

lemma tiny_ok: "paged_ok tiny1"
  using run_ok [OF tiny_run] new_manager_ok(1) [OF ram_heap_laws tiny_new] by blast

subsection \<open>Properties\<close>

text \<open>C19: whatever sequence of allocations, appends and releases a manager has served, successful or
  not, every block of its pool belongs to exactly one owner, the free list or one sequence, no block is
  lost, tokens lie within the blocks of their sequence, and no two blocks or layers share a tensor.\<close>

theorem paged_blocks_one_owner:
  assumes "heap_laws be live" and "new_manager be n layers kvh hdim b = (Inr m0, b1)" and "paged_run be m0 m"
  shows "paged_ok m \<and> num_free_blocks m + card (\<Union>h. owned (paged_ledger m) h) = n"
proof -
  have ok: "paged_ok m" using run_ok [OF assms(3) new_manager_ok(1) [OF assms(1,2)]] .
  have "lg_capacity (paged_ledger m) = n"
    using run_pool [OF assms(3)] new_manager_ok(2) [OF assms(1,2)] by (auto simp: paged_ledger_def)
  then show ?thesis using ok free_count [of "paged_ledger m"]
    by (simp add: paged_ok_def num_free_blocks_def num_free_def paged_ledger_def)
qed

theorem paged_blocks_one_owner_witness:
  "paged_ok tiny1 \<and> num_free_blocks tiny1 + card (\<Union>h. owned (paged_ledger tiny1) h) = 2"
  using paged_blocks_one_owner [OF ram_heap_laws tiny_new tiny_run] .

text \<open>C17: an append that succeeds leaves the sequence storing, at that layer, what it stored before
  followed by the new key and value rows (past layer 0, whose append made the room, they replace the
  rows of the new positions); its other layers keep what they stored, and every other sequence stores
  what it did.\<close>

theorem append_stores_rows:
  assumes "row_laws be rows" and "paged_ok m" and "layer < pool_layers (pool m)" and "t_shape keys = n # rest"
    and "t_id keys \<notin> tensor_ids (k_blocks (pool m) @ v_blocks (pool m))"
    and "t_id vals \<notin> tensor_ids (k_blocks (pool m) @ v_blocks (pool m))"
    and "append_kv be h layer keys vals m b = Some (Inr (), m', b')"
  shows "stored rows b' m' h layer
      = take (length (stored rows b m h layer) - (if layer = 0 then 0 else n)) (stored rows b m h layer)
        @ map (\<lambda>i. (rows b (t_id keys) i, rows b (t_id vals) i)) [0..<n]
    \<and> (\<forall>l < pool_layers (pool m). l \<noteq> layer \<longrightarrow>
        take (length (stored rows b m h l)) (stored rows b' m' h l) = stored rows b m h l)
    \<and> (\<forall>k. \<forall>l < pool_layers (pool m). k \<noteq> h \<longrightarrow> stored rows b' m' k l = stored rows b m k l)"
  using append_stores [OF assms] by blast

theorem append_stores_rows_witness:
  "\<exists>m' b'. append_kv ram_backend 0 0 (tiny_rows 8 20) (tiny_rows 9 20) tiny1 ram1 = Some (Inr (), m', b')
     \<and> stored ram_rows b' m' 0 0 = map (\<lambda>i. (800 + i, 900 + i)) [0..<20]"
proof -
  obtain m' b' where a: "append_kv ram_backend 0 0 (tiny_rows 8 20) (tiny_rows 9 20) tiny1 ram1 = Some (Inr (), m', b')"
    using tiny_append by blast
  have "stored ram_rows b' m' 0 0 = stored ram_rows ram1 tiny1 0 0 @ map (\<lambda>i. (ram_rows ram1 8 i, ram_rows ram1 9 i)) [0..<20]"
    using append_stores_rows [OF ram_row_laws tiny_ok _ _ _ _ a]
    by (simp add: tiny_pool_def tiny_rows_def tensor_ids_def)
  then show ?thesis using a by (simp add: stored_def ram1_def ram0_def)
qed

text \<open>C23: an append at layer 0 to a sequence whose blocks but the last are full never panics on a device
  whose copies succeed, and succeeds exactly when the tokens of the sequence with the new ones fit in
  its blocks and the free ones; otherwise it reports that memory ran out, with the bytes of a block.\<close>

theorem append_needs_room:
  assumes "paged_ok m" and "sequences m h = Some sq" and "tight sq" and "copies_succeed be"
    and "0 < pool_layers (pool m)" and "t_shape keys = n # rest"
  shows "\<exists>r m' b'. append_kv be h 0 keys vals m b = Some (r, m', b')
    \<and> r = (if current_len sq + n \<le> BLOCK_SIZE * (length (block_table sq) + num_free_blocks m)
           then Inr () else Inl (OutOfMemory (bytes_per_block (pool m)) 0))"
proof -
  obtain r m' b' where a: "append_kv be h 0 keys vals m b = Some (r, m', b')"
    using append_returns [OF assms(1,5,6), of h be vals b] by (cases "append_kv be h 0 keys vals m b") auto
  have s: "lg_seqs (paged_ledger m) h = Some sq" and free: "length (lg_free (paged_ledger m)) = num_free_blocks m"
    using assms(2) by (simp_all add: paged_ledger_def num_free_blocks_def num_free_def)
  note room = extend_succeeds_iff [OF s assms(3), of "bytes_per_block (pool m)" n, unfolded free]
  have f: "last_block_fill sq \<le> BLOCK_SIZE" using assms(3) by (simp add: tight_def)
  from a show ?thesis
  proof (cases rule: append_kv_cases)
    case bad_handle
    then show ?thesis using assms(2) by simp
  next
    case (no_room sq' n' rest' e fl table)
    then have "\<not> is_ok (fst (ledger_extend (bytes_per_block (pool m)) h n (paged_ledger m)))"
      using assms by (simp add: ledger_extend_def paged_ledger_def is_ok_def)
    moreover have "e = OutOfMemory (bytes_per_block (pool m)) 0"
      using grow_effect [OF no_room(4)] no_room(1) assms(2) f by auto
    ultimately show ?thesis using a no_room(5) room by auto
  next
    case (first_layer sq' n' rest' fill fl table)
    then have g: "is_ok (fst (ledger_extend (bytes_per_block (pool m)) h n (paged_ledger m)))"
      using assms by (simp add: ledger_extend_def paged_ledger_def is_ok_def)
    have ok': "paged_ok m'" by (rule append_ok [OF assms(1) a])
    have sq': "sequences m' h = Some \<lparr>block_table = table, last_block_fill = fill, current_len = current_len sq + n\<rparr>"
      using first_layer assms by simp
    note good = paged_okD [OF ok' sq', simplified]
    have "current_len sq' + n' \<le> BLOCK_SIZE * length table" using roomy_len [OF good(3)] first_layer(1,2) assms(2,6) by simp
    moreover have "pool_ok (pool m')" using ok' by (simp add: paged_ok_def)
    moreover have "0 < pool_layers (pool m')" using first_layer(5) assms(5) by simp
    ultimately have "r = Inr ()"
      using write_rows_returns [of "pool m'" table 0 "current_len sq'" n' be keys vals 0 b] good(2) assms(4) first_layer(3,6) by auto
    then show ?thesis using a g room by auto
  qed simp
qed

theorem append_needs_room_witness:
  "(\<exists>m' b'. append_kv ram_backend 0 0 (tiny_rows 8 32) (tiny_rows 9 32) tiny1 ram1 = Some (Inr (), m', b'))
   \<and> (\<exists>m' b'. append_kv ram_backend 0 0 (tiny_rows 8 33) (tiny_rows 9 33) tiny1 ram1 = Some (Inl (OutOfMemory 64 0), m', b'))"
  using append_needs_room [OF tiny_ok _ _ ram_copies_succeed, of 0 "\<lparr>block_table = [0], last_block_fill = 0, current_len = 0\<rparr>"
      "tiny_rows 8 32" 32 "[1, 1]" "tiny_rows 9 32" ram1]
    append_needs_room [OF tiny_ok _ _ ram_copies_succeed, of 0 "\<lparr>block_table = [0], last_block_fill = 0, current_len = 0\<rparr>"
      "tiny_rows 8 33" 33 "[1, 1]" "tiny_rows 9 33" ram1]
  by (simp add: tight_def tiny_pool_def tiny_rows_def num_free_blocks_def num_free_def bytes_per_block_def BLOCK_SIZE_def)

text \<open>C24: a successful append to such a sequence counts the new tokens and leaves all its blocks but the
  last full, so that the sequence owns the blocks its tokens need and no more.\<close>

theorem append_keeps_tight:
  assumes "append_kv be h 0 keys vals m b = Some (Inr (), m', b')" and "t_shape keys = n # rest"
    and "sequences m h = Some sq" and "tight sq"
  shows "\<exists>sq'. sequences m' h = Some sq' \<and> tight sq' \<and> current_len sq' = current_len sq + n
    \<and> length (block_table sq') = max 1 (div_ceil (current_len sq + n) BLOCK_SIZE)"
  using assms(1)
proof (cases rule: append_kv_cases)
  case bad_handle
  then show ?thesis using assms(3) by simp
next
  case (first_layer sq' n' rest' fill fl table)
  have "ledger_extend (bytes_per_block (pool m)) h n (paged_ledger m) = (Inr (), paged_ledger m')"
    using first_layer assms(2,3) by (simp add: ledger_extend_def paged_ledger_def)
  from extend_tight [OF this _ assms(4)] assms(3) obtain s'
    where "sequences m' h = Some s'" "tight s'" "current_len s' = current_len sq + n"
    by (auto simp: paged_ledger_def)
  then show ?thesis using tight_table_length [of s'] by simp
qed simp_all

theorem append_keeps_tight_witness:
  "\<exists>m' b' sq'. append_kv ram_backend 0 0 (tiny_rows 8 20) (tiny_rows 9 20) tiny1 ram1 = Some (Inr (), m', b')
     \<and> sequences m' 0 = Some sq' \<and> tight sq' \<and> length (block_table sq') = 2"
proof -
  obtain m' b' where a: "append_kv ram_backend 0 0 (tiny_rows 8 20) (tiny_rows 9 20) tiny1 ram1 = Some (Inr (), m', b')"
    using tiny_append by blast
  from append_keeps_tight [OF a, of 20 "[1, 1]"] show ?thesis
    using a by (auto simp: tiny_rows_def tight_def BLOCK_SIZE_def div_ceil_def)
qed

text \<open>C25: the device memory of a manager is given back. Creating one either fails with every tensor it
  had allocated freed again, or succeeds, and destroying it after any run frees exactly its tensors
  without an error.\<close>

theorem pool_memory_returned:
  assumes "heap_laws be live"
  shows "(new_manager be n layers kvh hdim b = (Inl e, b1) \<longrightarrow> live b1 = live b)
    \<and> (new_manager be n layers kvh hdim b = (Inr m0, b1) \<and> paged_run be m0 m \<and> live b2 = live b1 \<longrightarrow>
        fst (destroy_manager be m b2) = Inr () \<and> live (snd (destroy_manager be m b2)) = live b)"
proof (intro conjI impI)
  assume "new_manager be n layers kvh hdim b = (Inl e, b1)"
  then have new: "new_pool be n layers kvh hdim b = (Inl e, b1)"
    by (cases "new_pool be n layers kvh hdim b"; cases "fst (new_pool be n layers kvh hdim b)") (auto simp: new_manager_def)
  obtain e' kbs vbs b' where a: "alloc_blocks be [BLOCK_SIZE, kvh, hdim] layers n [] [] b = (e', kbs, vbs, b')"
    by (cases "alloc_blocks be [BLOCK_SIZE, kvh, hdim] layers n [] [] b")
  have b1: "b1 = free_ignoring be (concat vbs) (free_ignoring be (concat kbs) b')"
    using new a by (cases e') (auto simp: new_pool_def)
  have "fresh_tensors live b (concat kbs @ concat vbs) b'" using alloc_blocks_fresh [OF assms a] by auto
  then have "(t_id ` set (concat kbs) \<union> t_id ` set (concat vbs)) \<inter> live b = {}"
    "live b' = live b \<union> (t_id ` set (concat kbs) \<union> t_id ` set (concat vbs))"
    unfolding fresh_tensors_def set_append image_Un by blast+
  then show "live b1 = live b" unfolding b1 free_ignoring_live [OF assms] by blast
next
  assume "new_manager be n layers kvh hdim b = (Inr m0, b1) \<and> paged_run be m0 m \<and> live b2 = live b1"
  then have new: "new_manager be n layers kvh hdim b = (Inr m0, b1)" and run: "paged_run be m0 m" and l: "live b2 = live b1"
    by simp_all
  have "k_blocks (pool m) = k_blocks (pool m0)" "v_blocks (pool m) = v_blocks (pool m0)" using run_pool [OF run] by auto
  then have f: "fresh_tensors live b (concat (k_blocks (pool m)) @ concat (v_blocks (pool m))) b2"
    using new_manager_ok(3) [OF assms new] l by (simp add: fresh_tensors_def)
  let ?K = "concat (k_blocks (pool m))" and ?V = "concat (v_blocks (pool m))"
  have d: "distinct (map t_id ?K)" "distinct (map t_id ?V)" "t_id ` set ?K \<inter> t_id ` set ?V = {}"
    and lv: "live b2 = live b \<union> (t_id ` set ?K \<union> t_id ` set ?V)" "(t_id ` set ?K \<union> t_id ` set ?V) \<inter> live b = {}"
    using f unfolding fresh_tensors_def map_append distinct_append set_append image_Un set_map by blast+
  have fk: "fst (free_each be ?K b2) = Inr ()" "live (snd (free_each be ?K b2)) = live b2 - t_id ` set ?K"
    using free_each_live [OF assms d(1), of b2] lv(1) by blast+
  have "t_id ` set ?V \<subseteq> live (snd (free_each be ?K b2))" unfolding fk(2) lv(1) using d(3) by blast
  from free_each_live [OF assms d(2) this] have fv: "fst (free_each be ?V (snd (free_each be ?K b2))) = Inr ()"
    "live (snd (free_each be ?V (snd (free_each be ?K b2)))) = live b2 - t_id ` set ?K - t_id ` set ?V"
    by (simp_all only: fk(2) simp_thms)
  have e: "destroy_manager be m b2 = free_each be ?V (snd (free_each be ?K b2))"
    using fk(1) by (cases "free_each be ?K b2") (simp add: destroy_manager_def destroy_pool_def)
  show "fst (destroy_manager be m b2) = Inr ()" "live (snd (destroy_manager be m b2)) = live b"
    unfolding e fv lv(1) using lv(2) by blast+
qed

theorem pool_memory_returned_witness:
  "set (ram_live (snd (destroy_manager ram_backend tiny1 ram1))) = {}
   \<and> set (ram_live (snd (new_manager ram_backend 3 1 1 1 ram0))) = {}"
proof
  show "set (ram_live (snd (destroy_manager ram_backend tiny1 ram1))) = {}"
    using pool_memory_returned [OF ram_heap_laws, of 2 1 1 1 ram0 undefined ram1 tiny0 tiny1 ram1] tiny_new tiny_run
    by (simp add: ram0_def)
  obtain e b1 where "new_manager ram_backend 3 1 1 1 ram0 = (Inl e, b1)"
    using tiny_fails by blast
  then show "set (ram_live (snd (new_manager ram_backend 3 1 1 1 ram0))) = {}"
    using pool_memory_returned [OF ram_heap_laws, of 3 1 1 1 ram0 e b1] by (simp add: ram0_def)
qed

text \<open>The number of blocks chosen for a pool is the largest whose blocks fit in the memory left after
  the reserve.\<close>

theorem pool_fits_budget:
  assumes "new_pool be (compute_num_blocks avail reserve layers kvh hdim) layers kvh hdim b = (Inr p, b')"
    and "0 < bytes_per_block p"
  shows "capacity p * bytes_per_block p \<le> avail - reserve \<and> avail - reserve < (capacity p + 1) * bytes_per_block p"
proof -
  have p: "capacity p = compute_num_blocks avail reserve layers kvh hdim" "pool_layers p = layers"
    "pool_kv_heads p = kvh" "pool_head_dim p = hdim"
    using assms(1) by (auto simp: new_pool_def split: prod.splits option.splits)
  then have "capacity p = (avail - reserve) div bytes_per_block p"
    using assms(2) by (simp add: compute_num_blocks_def bytes_per_block_def Let_def)
  then show ?thesis
    using dividend_less_div_times [OF assms(2), of "avail - reserve"] by (simp add: div_times_less_eq_dividend)
qed

theorem pool_fits_budget_witness:
  "\<exists>p. fst (new_pool ram_backend (compute_num_blocks 200 40 1 1 1) 1 1 1 ram0) = Inr p
     \<and> capacity p * bytes_per_block p \<le> 160 \<and> 160 < (capacity p + 1) * bytes_per_block p"
proof -
  have n: "compute_num_blocks 200 40 1 1 1 = 2" by (simp add: compute_num_blocks_def BLOCK_SIZE_def)
  obtain b where new: "new_pool ram_backend 2 1 1 1 ram0 = (Inr (tiny_pool [1, 0]), b)"
    using tiny_new by (auto simp: new_manager_def dbind_eq_Inr)
  from pool_fits_budget [of ram_backend 200 40 1 1 1 ram0 "tiny_pool [1, 0]" b] show ?thesis
    unfolding n new fst_conv by (intro exI [of _ "tiny_pool [1, 0]"]) (simp add: tiny_pool_def bytes_per_block_def BLOCK_SIZE_def)
qed


end
