(* ===== verification/Heartbeat_Tracker.thy ===== *)
theory Heartbeat_Tracker
  imports Registry
begin

text \<open>
  Worker health: the tracker of \<open>fracture-coordinator/src/heartbeat.rs\<close> and the round in which the
  coordinator's loop (\<open>bins/fracture-coordinator-cuda/src/distributed_loop.rs\<close>) judges its workers.
\<close>

definition DEFAULT_MAX_MISSED :: usize where
  "DEFAULT_MAX_MISSED = 3"

record heartbeat_tracker =
  pending_nonce :: "u64 option"
  missed_counts :: "string \<rightharpoonup> usize"

definition new_tracker :: heartbeat_tracker where
  "new_tracker = \<lparr>pending_nonce = None, missed_counts = Map.empty\<rparr>"

definition missed_count :: "heartbeat_tracker \<Rightarrow> string \<Rightarrow> usize" where
  "missed_count t nid = (case missed_counts t nid of None \<Rightarrow> 0 | Some n \<Rightarrow> n)"

definition set_pending_nonce :: "u64 \<Rightarrow> heartbeat_tracker \<Rightarrow> heartbeat_tracker" where
  "set_pending_nonce n t = t\<lparr>pending_nonce := Some n\<rparr>"

definition process_ack ::
    "string \<Rightarrow> heartbeat_ack_payload \<Rightarrow> nat \<Rightarrow> heartbeat_tracker \<Rightarrow> peer_registry
     \<Rightarrow> bool \<times> heartbeat_tracker \<times> peer_registry" where
  "process_ack nid ack now t reg = (case reg nid of
      None \<Rightarrow> (False, t, reg)
    | Some entry \<Rightarrow>
        if we_status entry = Dead then (False, t, reg)
        else (case pending_nonce t of
                None \<Rightarrow> (False, t, reg)
              | Some expected \<Rightarrow>
                  if nonce_echo ack \<noteq> expected then (False, t, reg)
                  else (True, t\<lparr>missed_counts := (missed_counts t)(nid \<mapsto> 0)\<rparr>,
                        record_heartbeat nid (ha_free_blocks ack) (ha_gpu_memory_used ack) now reg)))"

fun increment_missed :: "string list \<Rightarrow> usize \<Rightarrow> heartbeat_tracker \<Rightarrow> string list \<times> heartbeat_tracker" where
  "increment_missed [] max_missed t = ([], t)"
| "increment_missed (nid # ids) max_missed t =
     (let count = missed_count t nid + 1;
          (timed_out, t') = increment_missed ids max_missed (t\<lparr>missed_counts := (missed_counts t)(nid \<mapsto> count)\<rparr>)
      in (if count \<ge> max_missed then nid # timed_out else timed_out, t'))"

fun mark_dead_workers :: "string list \<Rightarrow> peer_registry \<Rightarrow> peer_registry" where
  "mark_dead_workers [] reg = reg"
| "mark_dead_workers (nid # ids) reg = mark_dead_workers ids (mark_dead nid reg)"

subsection \<open>A round\<close>

datatype poll_result = Ack heartbeat_ack_payload | LeaveIntentSeen | Nothing

definition handle_poll ::
    "nat \<Rightarrow> string \<times> poll_result \<Rightarrow> heartbeat_tracker \<times> peer_registry \<Rightarrow> heartbeat_tracker \<times> peer_registry" where
  "handle_poll now p s = (case (p, s) of ((nid, r), (t, reg)) \<Rightarrow>
     (case r of
        Ack ack \<Rightarrow> snd (process_ack nid ack now t reg)
      | LeaveIntentSeen \<Rightarrow> (t, mark_draining nid reg)
      | Nothing \<Rightarrow> (t, reg)))"

text \<open>What was polled is handled, then every worker of the pipeline is charged with a miss and those
  that reach the limit are marked dead. \<open>ks\<close> is the registry's iteration order.\<close>

definition judge_workers ::
    "string list \<Rightarrow> usize \<Rightarrow> nat \<Rightarrow> (string \<times> poll_result) list \<Rightarrow> heartbeat_tracker \<times> peer_registry
     \<Rightarrow> string list \<times> heartbeat_tracker \<times> peer_registry" where
  "judge_workers ks max_missed now polls s =
     (let (t1, reg1) = fold (handle_poll now) polls s;
          ready = pipeline_order ks reg1;
          (dead_ids, t2) = increment_missed ready max_missed t1
      in (dead_ids, t2, mark_dead_workers dead_ids reg1))"

subsection \<open>Counting\<close>

lemma missed_count_upd:
  "missed_count (t\<lparr>missed_counts := (missed_counts t)(n \<mapsto> c)\<rparr>) k = (if k = n then c else missed_count t k)"
  by (simp add: missed_count_def)

lemma increment_missed_spec:
  assumes "distinct ids" and "increment_missed ids mx t = (out, t')"
  shows "missed_count t' k = missed_count t k + (if k \<in> set ids then 1 else 0)"
    and "set out = {k \<in> set ids. mx \<le> missed_count t k + 1}"
    and "pending_nonce t' = pending_nonce t"
proof -
  have "missed_count t' k = missed_count t k + (if k \<in> set ids then 1 else 0)
    \<and> set out = {k \<in> set ids. mx \<le> missed_count t k + 1} \<and> pending_nonce t' = pending_nonce t"
    using assms
  proof (induction ids arbitrary: t out)
    case (Cons n ids)
    let ?t = "t\<lparr>missed_counts := (missed_counts t)(n \<mapsto> missed_count t n + 1)\<rparr>"
    obtain o1 t1 where i: "increment_missed ids mx ?t = (o1, t1)" by fastforce
    then have t1: "t1 = t'" and out: "out = (if mx \<le> missed_count t n + 1 then n # o1 else o1)"
      using Cons.prems(2) by (simp_all add: Let_def split: if_splits)
    have d: "distinct ids" and n: "n \<notin> set ids" using Cons.prems(1) by simp_all
    have IH: "missed_count t' k = missed_count ?t k + (if k \<in> set ids then 1 else 0)"
      "set o1 = {k \<in> set ids. mx \<le> missed_count ?t k + 1}" "pending_nonce t' = pending_nonce t"
      using Cons.IH [OF d i [unfolded t1]] by simp_all
    have "set o1 = {k \<in> set ids. mx \<le> missed_count t k + 1}"
      unfolding IH(2) missed_count_upd using n by (intro Collect_cong) (auto split: if_splits)
    then have "set out = {k \<in> set (n # ids). mx \<le> missed_count t k + 1}" unfolding out by auto
    moreover have "missed_count t' k = missed_count t k + (if k \<in> set (n # ids) then 1 else 0)"
      unfolding IH(1) missed_count_upd using n by (cases "k = n") simp_all
    ultimately show ?case using IH(3) by blast
  qed simp
  then show "missed_count t' k = missed_count t k + (if k \<in> set ids then 1 else 0)"
    "set out = {k \<in> set ids. mx \<le> missed_count t k + 1}" "pending_nonce t' = pending_nonce t" by blast+
qed

lemma mark_dead_workers_at:
  "mark_dead_workers ids reg nid
     = (if nid \<in> set ids then map_option (\<lambda>e. e\<lparr>we_status := Dead\<rparr>) (reg nid) else reg nid)"
  by (induction ids arbitrary: reg) (auto simp: mark_dead_def split: option.splits)

subsection \<open>Effect of the polls\<close>

lemma handle_poll_effect:
  obtains (none) "handle_poll now (nid, r) (t, reg) = (t, reg)"
  | (ack) e ack where "r = Ack ack" "reg nid = Some e" "we_status e \<noteq> Dead" "pending_nonce t = Some (nonce_echo ack)"
      "handle_poll now (nid, r) (t, reg) = (t\<lparr>missed_counts := (missed_counts t)(nid \<mapsto> 0)\<rparr>,
         record_heartbeat nid (ha_free_blocks ack) (ha_gpu_memory_used ack) now reg)"
  | (leave) "r = LeaveIntentSeen" "handle_poll now (nid, r) (t, reg) = (t, mark_draining nid reg)"
proof (cases r)
  case (Ack a)
  consider "snd (process_ack nid a now t reg) = (t, reg)"
    | e where "reg nid = Some e" "we_status e \<noteq> Dead" "pending_nonce t = Some (nonce_echo a)"
      "snd (process_ack nid a now t reg) = (t\<lparr>missed_counts := (missed_counts t)(nid \<mapsto> 0)\<rparr>,
         record_heartbeat nid (ha_free_blocks a) (ha_gpu_memory_used a) now reg)"
  proof (cases "(\<exists>e. reg nid = Some e \<and> we_status e \<noteq> Dead) \<and> pending_nonce t = Some (nonce_echo a)")
    case True
    then obtain e where "reg nid = Some e" "we_status e \<noteq> Dead" "pending_nonce t = Some (nonce_echo a)" by blast
    then show ?thesis using that(2) by (simp add: process_ack_def)
  next
    case False
    then show ?thesis using that(1) by (auto simp: process_ack_def split: option.splits)
  qed
  then show ?thesis using Ack none ack by cases (simp_all add: handle_poll_def)
next
  case LeaveIntentSeen
  then show ?thesis using leave by (simp add: handle_poll_def)
next
  case Nothing
  then show ?thesis using none by (simp add: handle_poll_def)
qed

text \<open>A property that the two effects keep holds after all polls.\<close>

lemma polls_keep:
  assumes "fold (handle_poll now) polls (t, reg) = (t', reg')" and "P t reg"
    and "\<And>t reg nid ack e. \<lbrakk>P t reg; (nid, Ack ack) \<in> set polls; reg nid = Some e; we_status e \<noteq> Dead\<rbrakk> \<Longrightarrow>
      P (t\<lparr>missed_counts := (missed_counts t)(nid \<mapsto> 0)\<rparr>) (record_heartbeat nid (ha_free_blocks ack) (ha_gpu_memory_used ack) now reg)"
    and "\<And>t reg nid. P t reg \<Longrightarrow> (nid, LeaveIntentSeen) \<in> set polls \<Longrightarrow> P t (mark_draining nid reg)"
  shows "P t' reg'"
proof -
  have "case_prod P (handle_poll now p s)" if p: "p \<in> set polls" and s: "case_prod P s" for p s
  proof -
    obtain nid r t reg where e: "p = (nid, r)" "s = (t, reg)" by (cases p; cases s)
    have P: "P t reg" using s e by simp
    show ?thesis unfolding e
    proof (cases rule: handle_poll_effect [of now nid r t reg])
      case none then show "case_prod P (handle_poll now (nid, r) (t, reg))" using P by simp
    next
      case (ack e' a)
      then show "case_prod P (handle_poll now (nid, r) (t, reg))" using assms(3) [OF P, of nid a e'] p e by simp
    next
      case leave
      then show "case_prod P (handle_poll now (nid, r) (t, reg))" using assms(4) [OF P, of nid] p e by simp
    qed
  qed
  then have "case_prod P (fold (handle_poll now) polls (t, reg))"
    using fold_invariant [of polls "\<lambda>p. p \<in> set polls" "case_prod P" "(t, reg)" "handle_poll now"] assms(2) by simp
  then show ?thesis using assms(1) by simp
qed

lemma polls_ok: "fold (handle_poll now) polls (t, reg) = (t', reg') \<Longrightarrow> reg_ok reg \<Longrightarrow> reg_ok reg'"
  by (erule polls_keep [where P = "\<lambda>t. reg_ok"]) (simp_all add: reg_ok_ops(4,6))

lemma polls_dom: "fold (handle_poll now) polls (t, reg) = (t', reg') \<Longrightarrow> dom reg' = dom reg"
  by (erule polls_keep [where P = "\<lambda>t r. dom r = dom reg"])
    (auto simp: record_heartbeat_def mark_draining_def split: option.splits)

lemma polls_nonce: "fold (handle_poll now) polls (t, reg) = (t', reg') \<Longrightarrow> pending_nonce t' = pending_nonce t"
  by (erule polls_keep [where P = "\<lambda>t' r. pending_nonce t' = pending_nonce t"]) simp_all

text \<open>Polls change neither the entry nor the count of a worker they do not come from.\<close>

lemma polls_other:
  "fold (handle_poll now) polls (t, reg) = (t', reg') \<Longrightarrow> k \<notin> fst ` set polls \<Longrightarrow>
     reg' k = reg k \<and> missed_count t' k = missed_count t k"
  by (erule polls_keep [where P = "\<lambda>t' r. r k = reg k \<and> missed_count t' k = missed_count t k"])
    (force simp: record_heartbeat_def mark_draining_def missed_count_def split: option.splits)+

subsection \<open>Rounds\<close>

lemma mark_dead_workers_dom: "dom (mark_dead_workers ids reg) = dom reg"
  by (auto simp: dom_def mark_dead_workers_at)

lemma mark_dead_workers_ok: "reg_ok reg \<Longrightarrow> reg_ok (mark_dead_workers ids reg)"
  by (auto simp: reg_ok_def mark_dead_workers_at split: if_splits)

definition serving :: "string \<Rightarrow> peer_registry \<Rightarrow> bool" where
  "serving k reg \<longleftrightarrow> (\<exists>e. reg k = Some e \<and> in_pipeline e)"

lemma judge_workers_spec:
  assumes "reg_ok reg" "lists_keys ks reg" and f: "fold (handle_poll now) polls (t, reg) = (t1, reg1)"
    and j: "judge_workers ks mx now polls (t, reg) = (dead_ids, t', reg')"
  shows "k \<in> set dead_ids \<longleftrightarrow> serving k reg1 \<and> mx \<le> missed_count t1 k + 1"
    and "missed_count t' k = missed_count t1 k + (if serving k reg1 then 1 else 0)"
    and "reg' = mark_dead_workers dead_ids reg1" and "reg_ok reg'" and "dom reg' = dom reg"
    and "pending_nonce t' = pending_nonce t"
proof -
  have ok: "reg_ok reg1" using polls_ok [OF f assms(1)] .
  have ks: "lists_keys ks reg1" using polls_dom [OF f] assms(2) by (simp add: lists_keys_def)
  have i: "increment_missed (pipeline_order ks reg1) mx t1 = (dead_ids, t')" and r: "reg' = mark_dead_workers dead_ids reg1"
    using j f by (auto simp: judge_workers_def Let_def split: prod.splits)
  note spec = increment_missed_spec [OF distinct_pipeline_order [OF ok ks] i, unfolded set_pipeline_order [OF ok ks]]
  show "k \<in> set dead_ids \<longleftrightarrow> serving k reg1 \<and> mx \<le> missed_count t1 k + 1" using spec(2) by (auto simp: serving_def)
  show "missed_count t' k = missed_count t1 k + (if serving k reg1 then 1 else 0)" using spec(1) by (simp add: serving_def)
  show "pending_nonce t' = pending_nonce t" using spec(3) polls_nonce [OF f] by simp
  show "reg' = mark_dead_workers dead_ids reg1" by (rule r)
  show "reg_ok reg'" "dom reg' = dom reg"
    using mark_dead_workers_ok [OF ok] mark_dead_workers_dom polls_dom [OF f] by (simp_all add: r)
qed

record heartbeat_round =
  hr_order :: "string list"
  hr_now :: nat
  hr_polls :: "(string \<times> poll_result) list"
  hr_nonce :: u64

definition run_round ::
    "usize \<Rightarrow> heartbeat_round \<Rightarrow> heartbeat_tracker \<times> peer_registry \<Rightarrow> heartbeat_tracker \<times> peer_registry" where
  "run_round mx rd s = (case judge_workers (hr_order rd) mx (hr_now rd) (hr_polls rd) s of
     (_, t, reg) \<Rightarrow> (set_pending_nonce (hr_nonce rd) t, reg))"

text \<open>A worker answers a round with the nonce sent in the round before, or is not heard of.\<close>

definition answers :: "string \<Rightarrow> heartbeat_tracker \<Rightarrow> heartbeat_round \<Rightarrow> bool" where
  "answers k t rd \<longleftrightarrow> distinct (map fst (hr_polls rd))
     \<and> (\<exists>ack. (k, Ack ack) \<in> set (hr_polls rd) \<and> pending_nonce t = Some (nonce_echo ack))"

definition silent :: "string \<Rightarrow> heartbeat_round \<Rightarrow> bool" where
  "silent k rd \<longleftrightarrow> k \<notin> fst ` set (hr_polls rd)"

lemma handle_poll_answer:
  assumes "reg k = Some e" "in_pipeline e" "pending_nonce t = Some (nonce_echo ack)"
    and "handle_poll now (k, Ack ack) (t, reg) = (t', reg')"
  shows "serving k reg' \<and> missed_count t' k = 0"
proof -
  have "we_status e \<noteq> Dead" using assms(2) by (simp add: in_pipeline_def)
  then have "t' = t\<lparr>missed_counts := (missed_counts t)(k \<mapsto> 0)\<rparr>"
    "reg' = record_heartbeat k (ha_free_blocks ack) (ha_gpu_memory_used ack) now reg"
    using assms by (simp_all add: handle_poll_def process_ack_def)
  then show ?thesis using assms(1,2) by (simp add: serving_def record_heartbeat_def in_pipeline_def missed_count_def)
qed

lemma polls_answer:
  assumes "distinct (map fst polls)" "(k, Ack ack) \<in> set polls" "serving k reg"
    and "pending_nonce t = Some (nonce_echo ack)" "fold (handle_poll now) polls (t, reg) = (t', reg')"
  shows "serving k reg' \<and> missed_count t' k = 0"
proof -
  from assms(2) obtain xs ys where p: "polls = xs @ (k, Ack ack) # ys" by (meson split_list)
  have out: "k \<notin> fst ` set xs" "k \<notin> fst ` set ys" using assms(1) unfolding p by (auto simp: image_iff)
  obtain t1 reg1 where 1: "fold (handle_poll now) xs (t, reg) = (t1, reg1)" by fastforce
  obtain t2 reg2 where 2: "handle_poll now (k, Ack ack) (t1, reg1) = (t2, reg2)" by fastforce
  have 3: "fold (handle_poll now) ys (t2, reg2) = (t', reg')" using assms(5) 1 2 unfolding p by simp
  obtain e where "reg1 k = Some e" "in_pipeline e" using assms(3) polls_other [OF 1 out(1)] by (auto simp: serving_def)
  moreover have "pending_nonce t1 = Some (nonce_echo ack)" using polls_nonce [OF 1] assms(4) by simp
  ultimately have "serving k reg2 \<and> missed_count t2 k = 0" using handle_poll_answer [OF _ _ _ 2] by blast
  then show ?thesis using polls_other [OF 3 out(2)] by (simp add: serving_def)
qed

text \<open>One round, for one worker of the pipeline.\<close>

lemma round_step:
  assumes ok: "reg_ok reg" "lists_keys (hr_order rd) reg" "serving k reg"
    and run: "run_round mx rd (t, reg) = (t', reg')"
  shows "reg_ok reg'" "dom reg' = dom reg" "pending_nonce t' = Some (hr_nonce rd)"
    and "answers k t rd \<Longrightarrow> missed_count t' k = 1 \<and> (serving k reg' \<longleftrightarrow> 1 < mx)"
    and "silent k rd \<Longrightarrow> missed_count t' k = missed_count t k + 1 \<and> (serving k reg' \<longleftrightarrow> missed_count t k + 1 < mx)"
    and "\<not> serving k reg' \<Longrightarrow> answers k t rd \<or> silent k rd \<Longrightarrow> (\<exists>e. reg' k = Some e \<and> we_status e = Dead)"
proof -
  obtain t1 reg1 where f: "fold (handle_poll (hr_now rd)) (hr_polls rd) (t, reg) = (t1, reg1)" by fastforce
  obtain dead t2 reg2 where j2: "judge_workers (hr_order rd) mx (hr_now rd) (hr_polls rd) (t, reg) = (dead, t2, reg2)"
    by (metis prod_cases3)
  have j: "judge_workers (hr_order rd) mx (hr_now rd) (hr_polls rd) (t, reg) = (dead, t2, reg')"
    and t': "t' = set_pending_nonce (hr_nonce rd) t2"
    using run j2 by (simp_all add: run_round_def)
  note J = judge_workers_spec [OF ok(1,2) f j]
  show "reg_ok reg'" "dom reg' = dom reg" "pending_nonce t' = Some (hr_nonce rd)"
    using J(4,5) by (simp_all add: t' set_pending_nonce_def)
  have out: "missed_count t' k = missed_count t1 k + 1"
    "serving k reg' \<longleftrightarrow> missed_count t1 k + 1 < mx"
    "serving k reg' \<or> (\<exists>e. reg' k = Some e \<and> we_status e = Dead)" if sv: "serving k reg1"
  proof -
    show "missed_count t' k = missed_count t1 k + 1"
      using J(2) [of k] sv by (simp add: t' set_pending_nonce_def missed_count_def)
    obtain e where e: "reg1 k = Some e" "in_pipeline e" using sv by (auto simp: serving_def)
    have d: "k \<in> set dead \<longleftrightarrow> mx \<le> missed_count t1 k + 1" using J(1) [of k] sv by blast
    have "(serving k reg' \<longleftrightarrow> missed_count t1 k + 1 < mx) \<and> (serving k reg' \<or> (\<exists>e. reg' k = Some e \<and> we_status e = Dead))"
    proof (cases "k \<in> set dead")
      case True
      then have r: "reg' k = Some (e\<lparr>we_status := Dead\<rparr>)" using e(1) unfolding J(3) mark_dead_workers_at by simp
      then have "\<not> serving k reg'" by (simp add: serving_def in_pipeline_def)
      then show ?thesis using d True r by simp
    next
      case False
      then have "reg' k = Some e" using e(1) unfolding J(3) mark_dead_workers_at by simp
      then have "serving k reg'" using e(2) by (simp add: serving_def)
      then show ?thesis using d False by simp
    qed
    then show "serving k reg' \<longleftrightarrow> missed_count t1 k + 1 < mx" "serving k reg' \<or> (\<exists>e. reg' k = Some e \<and> we_status e = Dead)"
      by blast+
  qed
  have a: "serving k reg1 \<and> missed_count t1 k = 0" if "answers k t rd"
  proof -
    from that obtain ack where "distinct (map fst (hr_polls rd))" "(k, Ack ack) \<in> set (hr_polls rd)"
      "pending_nonce t = Some (nonce_echo ack)" unfolding answers_def by blast
    then show ?thesis using polls_answer [OF _ _ ok(3) _ f] by blast
  qed
  have s: "serving k reg1 \<and> missed_count t1 k = missed_count t k" if "silent k rd"
    using polls_other [OF f, of k] that ok(3) by (simp add: silent_def serving_def)
  show "missed_count t' k = 1 \<and> (serving k reg' \<longleftrightarrow> 1 < mx)" if "answers k t rd"
    using a [OF that] out(1,2) by simp
  show "missed_count t' k = missed_count t k + 1 \<and> (serving k reg' \<longleftrightarrow> missed_count t k + 1 < mx)" if "silent k rd"
    using s [OF that] out(1,2) by simp
  show "\<exists>e. reg' k = Some e \<and> we_status e = Dead" if "\<not> serving k reg'" "answers k t rd \<or> silent k rd"
    using out(3) a s that by blast
qed

definition is_dead :: "string \<Rightarrow> peer_registry \<Rightarrow> bool" where
  "is_dead k reg \<longleftrightarrow> (\<exists>e. reg k = Some e \<and> we_status e = Dead)"

lemma dead_not_serving: "is_dead k reg \<Longrightarrow> \<not> serving k reg"
  by (auto simp: is_dead_def serving_def in_pipeline_def)

lemma round_dead:
  assumes "reg_ok reg" "lists_keys (hr_order rd) reg" "is_dead k reg" "silent k rd"
    and run: "run_round mx rd (t, reg) = (t', reg')"
  shows "is_dead k reg' \<and> reg_ok reg' \<and> dom reg' = dom reg"
proof -
  obtain t1 reg1 where f: "fold (handle_poll (hr_now rd)) (hr_polls rd) (t, reg) = (t1, reg1)" by fastforce
  obtain dead t2 reg2 where j2: "judge_workers (hr_order rd) mx (hr_now rd) (hr_polls rd) (t, reg) = (dead, t2, reg2)"
    by (metis prod_cases3)
  then have j: "judge_workers (hr_order rd) mx (hr_now rd) (hr_polls rd) (t, reg) = (dead, t2, reg')"
    using run by (simp add: run_round_def)
  note J = judge_workers_spec [OF assms(1,2) f j]
  have "is_dead k reg1" using polls_other [OF f, of k] assms(3,4) by (simp add: silent_def is_dead_def)
  then have "is_dead k reg'" unfolding J(3) by (auto simp: is_dead_def mark_dead_workers_at)
  then show ?thesis using J(4,5) by blast
qed

lemma silent_rounds:
  assumes "reg_ok reg" "serving k reg \<or> is_dead k reg"
    and "\<forall>rd \<in> set rds. lists_keys (hr_order rd) reg \<and> silent k rd"
  shows "is_dead k (snd (fold (run_round mx) rds (t, reg)))
    \<longleftrightarrow> is_dead k reg \<or> rds \<noteq> [] \<and> mx \<le> missed_count t k + length rds"
  using assms
proof (induction rds arbitrary: t reg)
  case (Cons rd rds)
  obtain t' reg' where r: "run_round mx rd (t, reg) = (t', reg')" by fastforce
  have ks: "lists_keys (hr_order rd) reg" and sil: "silent k rd" using Cons.prems(3) by simp_all
  have keys: "\<forall>rd \<in> set rds. lists_keys (hr_order rd) reg' \<and> silent k rd" if "dom reg' = dom reg"
    using Cons.prems(3) that by (simp add: lists_keys_def)
  show ?case
  proof (cases "is_dead k reg")
    case True
    note d = round_dead [OF Cons.prems(1) ks True sil r]
    then have "is_dead k (snd (fold (run_round mx) rds (t', reg')))"
      using Cons.IH [of reg' t', THEN iffD2] keys by blast
    then show ?thesis using r True by simp
  next
    case False
    then have sv: "serving k reg" using Cons.prems(2) by blast
    note s = round_step [OF Cons.prems(1) ks sv r]
    have c: "missed_count t' k = missed_count t k + 1" "serving k reg' \<longleftrightarrow> missed_count t k + 1 < mx" using s(5) sil by simp_all
    have "serving k reg' \<or> is_dead k reg'" using s(6) sil unfolding is_dead_def by blast
    from Cons.IH [OF s(1) this keys [OF s(2)], of t']
    have "is_dead k (snd (fold (run_round mx) rds (t', reg')))
      \<longleftrightarrow> is_dead k reg' \<or> rds \<noteq> [] \<and> mx \<le> missed_count t k + 1 + length rds" by (simp add: c)
    moreover have "is_dead k reg' \<longleftrightarrow> mx \<le> missed_count t k + 1"
      using c(2) s(6) sil dead_not_serving [of k reg'] unfolding is_dead_def not_less [symmetric] by blast
    ultimately have "is_dead k (snd (fold (run_round mx) rds (t', reg'))) \<longleftrightarrow> mx \<le> missed_count t k + Suc (length rds)"
      by (cases rds) (simp_all, linarith)
    then show ?thesis using r False by simp
  qed
qed simp

fun answers_all :: "string \<Rightarrow> heartbeat_tracker \<Rightarrow> heartbeat_round list \<Rightarrow> bool" where
  "answers_all k t [] = True"
| "answers_all k t (rd # rds) \<longleftrightarrow> answers k t rd \<and> answers_all k (set_pending_nonce (hr_nonce rd) t) rds"

lemma answers_all_nonce: "pending_nonce t = pending_nonce u \<Longrightarrow> answers_all k t rds = answers_all k u rds"
proof (induction rds arbitrary: t u)
  case (Cons rd rds)
  have "answers_all k (set_pending_nonce (hr_nonce rd) t) rds = answers_all k (set_pending_nonce (hr_nonce rd) u) rds"
    by (rule Cons.IH) (simp add: set_pending_nonce_def)
  then show ?case using Cons.prems by (simp add: answers_def)
qed simp

subsection \<open>Properties\<close>



text \<open>A pipeline of one worker.\<close>

definition lone_worker :: worker_entry where
  "lone_worker = \<lparr>we_capabilities = \<lparr>node_id = ''w'', gpu_model = [], gpu_memory_available = 0, compute_capability = (0, 0),
       decode_ms_per_layer = 0, prefill_ms_per_layer_128 = 0\<rparr>,
     we_writer = \<lparr>w_sent = [], w_room = None\<rparr>, we_reader = [],
     we_assignment = Some \<lparr>la_node_id = ''w'', la_start = 0, la_end = 4, la_role = Head, expected_decode_ms = 0,
       weight_memory_gb = 0, cache_memory_gb = 0\<rparr>,
     we_last_heartbeat = 0, we_status = Ready, we_free_blocks = 0, we_gpu_memory_used = 0\<rparr>"

definition lone_ack :: heartbeat_round where
  "lone_ack = \<lparr>hr_order = [''w''], hr_now = 5, hr_polls = [(''w'', Ack \<lparr>timestamp_echo = 0, nonce_echo = 7,
     ha_gpu_memory_used = 0, active_sequences = 0, ha_free_blocks = 9\<rparr>)], hr_nonce = 7\<rparr>"

definition lone_silence :: heartbeat_round where
  "lone_silence = \<lparr>hr_order = [''w''], hr_now = 10, hr_polls = [], hr_nonce = 8\<rparr>"

lemma lone_facts:
  "reg_ok [''w'' \<mapsto> lone_worker]" "serving ''w'' [''w'' \<mapsto> lone_worker]"
  "lists_keys (hr_order lone_ack) [''w'' \<mapsto> lone_worker]" "lists_keys (hr_order lone_silence) [''w'' \<mapsto> lone_worker]"
  "silent ''w'' lone_silence" "pending_nonce t = Some 7 \<Longrightarrow> answers ''w'' t lone_ack"
  by (simp_all add: reg_ok_def serving_def in_pipeline_def lists_keys_def silent_def answers_def
      lone_worker_def lone_ack_def lone_silence_def)

lemma lone_nonce: "hr_nonce lone_ack = 7"
  by (simp add: lone_ack_def)



end
