(* ===== verification/Seq_State.thy ===== *)
theory Seq_State
  imports Core
begin

text \<open>
  The coordinator's record of its sequences (\<open>fracture-coordinator/src/state.rs\<close>) and their life cycle.
\<close>

datatype sequence_status = Prefilling | Decoding | Complete | SeqError

record sequence_state =
  ss_seq_id :: u64
  ss_status :: sequence_status
  ss_current_pos :: usize
  ss_max_tokens :: usize
  ss_generated :: "u32 list"
  ss_cache_on :: "string list"

record state_manager =
  sq_sequences :: "u64 \<rightharpoonup> sequence_state"
  sq_next_id :: u64

definition new_state_manager :: state_manager where
  "new_state_manager = \<lparr>sq_sequences = Map.empty, sq_next_id = 1\<rparr>"

definition create_seq :: "usize \<Rightarrow> usize \<Rightarrow> string list \<Rightarrow> state_manager \<Rightarrow> u64 \<times> state_manager" where
  "create_seq prompt_len max_tokens node_ids m =
     (let i = sq_next_id m
      in (i, m\<lparr>sq_next_id := sq_next_id m + 1, sq_sequences := (sq_sequences m)(i \<mapsto>
            \<lparr>ss_seq_id = i, ss_status = Prefilling, ss_current_pos = prompt_len, ss_max_tokens = max_tokens,
             ss_generated = [], ss_cache_on = node_ids\<rparr>)\<rparr>))"

definition get_seq :: "u64 \<Rightarrow> state_manager \<Rightarrow> sequence_state result" where
  "get_seq i m = ok_or (sq_sequences m i) (Pipeline ''unknown sequence: {seq_id}'')"

text \<open>\<open>get_mut\<close>: change a sequence in place, or fail and leave it.\<close>

definition with_seq ::
    "u64 \<Rightarrow> (sequence_state \<Rightarrow> sequence_state result) \<Rightarrow> state_manager \<Rightarrow> unit result \<times> state_manager" where
  "with_seq i f m = (case get_seq i m of
      Inl e \<Rightarrow> (Inl e, m)
    | Inr s \<Rightarrow> (case f s of
          Inl e \<Rightarrow> (Inl e, m)
        | Inr s' \<Rightarrow> (Inr (), m\<lparr>sq_sequences := (sq_sequences m)(i \<mapsto> s')\<rparr>)))"

definition begin_decoding :: "u64 \<Rightarrow> state_manager \<Rightarrow> unit result \<times> state_manager" where
  "begin_decoding i = with_seq i (\<lambda>s.
     if ss_status s \<noteq> Prefilling then Inl (Pipeline ''seq {seq_id}: cannot transition to Decoding from {:?}'')
     else Inr (s\<lparr>ss_status := Decoding\<rparr>))"

definition record_token :: "u64 \<Rightarrow> u32 \<Rightarrow> state_manager \<Rightarrow> unit result \<times> state_manager" where
  "record_token i token = with_seq i (\<lambda>s.
     if ss_status s \<noteq> Decoding then Inl (Pipeline ''seq {seq_id}: cannot record token in {:?} state'')
     else Inr (s\<lparr>ss_generated := ss_generated s @ [token], ss_current_pos := ss_current_pos s + 1\<rparr>))"

definition complete_seq :: "u64 \<Rightarrow> state_manager \<Rightarrow> unit result \<times> state_manager" where
  "complete_seq i = with_seq i (\<lambda>s.
     if ss_status s \<noteq> Decoding then Inl (Pipeline ''seq {seq_id}: cannot complete from {:?} (must be Decoding)'')
     else Inr (s\<lparr>ss_status := Complete\<rparr>))"

definition mark_error :: "u64 \<Rightarrow> state_manager \<Rightarrow> unit result \<times> state_manager" where
  "mark_error i = with_seq i (\<lambda>s. case ss_status s of
       Prefilling \<Rightarrow> Inr (s\<lparr>ss_status := SeqError\<rparr>)
     | Decoding \<Rightarrow> Inr (s\<lparr>ss_status := SeqError\<rparr>)
     | _ \<Rightarrow> Inl (Pipeline ''seq {seq_id}: cannot mark error from {:?} (must be Prefilling or Decoding)''))"

definition remove_seq :: "u64 \<Rightarrow> state_manager \<Rightarrow> sequence_state option \<times> state_manager" where
  "remove_seq i m = (sq_sequences m i, m\<lparr>sq_sequences := (sq_sequences m)(i := None)\<rparr>)"

definition is_at_limit :: "u64 \<Rightarrow> state_manager \<Rightarrow> bool result" where
  "is_at_limit i m = rbind (get_seq i m) (\<lambda>s. Inr (ss_max_tokens s \<le> length (ss_generated s)))"

text \<open>\<open>ks\<close> is the iteration order of the map.\<close>

definition active_sequences_count :: "u64 list \<Rightarrow> state_manager \<Rightarrow> usize" where
  "active_sequences_count ks m = length (filter (\<lambda>i. case sq_sequences m i of None \<Rightarrow> False
     | Some s \<Rightarrow> ss_status s = Prefilling \<or> ss_status s = Decoding) ks)"

subsection \<open>Life cycle\<close>

datatype seq_op =
    CreateSeq usize usize "string list"
  | BeginDecoding u64
  | RecordToken u64 u32
  | CompleteSeq u64
  | MarkError u64
  | RemoveSeq u64

fun seq_step :: "seq_op \<Rightarrow> state_manager \<Rightarrow> state_manager" where
  "seq_step (CreateSeq p mt ns) m = snd (create_seq p mt ns m)"
| "seq_step (BeginDecoding i) m = snd (begin_decoding i m)"
| "seq_step (RecordToken i t) m = snd (record_token i t m)"
| "seq_step (CompleteSeq i) m = snd (complete_seq i m)"
| "seq_step (MarkError i) m = snd (mark_error i m)"
| "seq_step (RemoveSeq i) m = snd (remove_seq i m)"

text \<open>The states a sequence may move to.\<close>

inductive evolves :: "sequence_status \<Rightarrow> sequence_status \<Rightarrow> bool" where
  ev_refl: "evolves s s"
| ev_decode: "evolves Prefilling Decoding"
| ev_complete: "evolves Prefilling Complete"
| ev_error: "evolves Prefilling SeqError"
| ev_finish: "evolves Decoding Complete"
| ev_fail: "evolves Decoding SeqError"

inductive_simps evolves_from_Complete [simp]: "evolves Complete s"
inductive_simps evolves_from_Error [simp]: "evolves SeqError s"
inductive_simps evolves_from_Prefilling [simp]: "evolves Prefilling s"
inductive_simps evolves_from_Decoding [simp]: "evolves Decoding s"

lemma evolves_trans: "evolves a b \<Longrightarrow> evolves b c \<Longrightarrow> evolves a c"
  by (cases a; cases b) auto

text \<open>What a sequence keeps: its identity and limits, the tokens it has, and the position that counts
  them; and once it is complete or failed it does not change.\<close>

definition extends :: "sequence_state \<Rightarrow> sequence_state \<Rightarrow> bool" where
  "extends s s' \<longleftrightarrow> ss_seq_id s' = ss_seq_id s \<and> ss_max_tokens s' = ss_max_tokens s \<and> ss_cache_on s' = ss_cache_on s
     \<and> evolves (ss_status s) (ss_status s')
     \<and> (\<exists>ts. ss_generated s' = ss_generated s @ ts \<and> ss_current_pos s' = ss_current_pos s + length ts
          \<and> (ts \<noteq> [] \<longrightarrow> ss_status s \<noteq> Complete \<and> ss_status s \<noteq> SeqError \<and> ss_status s' \<noteq> Prefilling))"

lemma extends_refl [simp]: "extends s s"
  by (simp add: extends_def ev_refl)

lemma extends_trans:
  assumes "extends a b" "extends b c"
  shows "extends a c"
proof -
  obtain ts us where ts: "ss_generated b = ss_generated a @ ts" "ss_current_pos b = ss_current_pos a + length ts"
      "ts \<noteq> [] \<longrightarrow> ss_status a \<noteq> Complete \<and> ss_status a \<noteq> SeqError \<and> ss_status b \<noteq> Prefilling"
    and us: "ss_generated c = ss_generated b @ us" "ss_current_pos c = ss_current_pos b + length us"
      "us \<noteq> [] \<longrightarrow> ss_status b \<noteq> Complete \<and> ss_status b \<noteq> SeqError \<and> ss_status c \<noteq> Prefilling"
    and ev: "evolves (ss_status a) (ss_status b)" "evolves (ss_status b) (ss_status c)"
    using assms unfolding extends_def by blast
  have "ts @ us \<noteq> [] \<longrightarrow> ss_status a \<noteq> Complete \<and> ss_status a \<noteq> SeqError \<and> ss_status c \<noteq> Prefilling"
    using ts(3) us(3) ev by (cases "ss_status a"; cases "ss_status b") auto
  then show ?thesis using assms ts us evolves_trans [OF ev] unfolding extends_def by (intro conjI exI [of _ "ts @ us"]) auto
qed

definition ids_below :: "state_manager \<Rightarrow> bool" where
  "ids_below m \<longleftrightarrow> (\<forall>i s. sq_sequences m i = Some s \<longrightarrow> i < sq_next_id m)"

lemma with_seq_extends:
  assumes "\<And>s s'. f s = Inr s' \<Longrightarrow> extends s s'"
  shows "sq_sequences m i = Some s \<Longrightarrow> \<exists>s'. sq_sequences (snd (with_seq j f m)) i = Some s' \<and> extends s s'"
    and "ids_below m \<Longrightarrow> ids_below (snd (with_seq j f m))" and "sq_next_id (snd (with_seq j f m)) = sq_next_id m"
proof -
  have c: "snd (with_seq j f m) = m \<or> (\<exists>t t'. sq_sequences m j = Some t \<and> extends t t'
      \<and> snd (with_seq j f m) = m\<lparr>sq_sequences := (sq_sequences m)(j \<mapsto> t')\<rparr>)"
    using assms by (auto simp: with_seq_def get_seq_def ok_or_def split: option.splits sum.splits)
  then show "sq_sequences m i = Some s \<Longrightarrow> \<exists>s'. sq_sequences (snd (with_seq j f m)) i = Some s' \<and> extends s s'" by auto
  show "ids_below m \<Longrightarrow> ids_below (snd (with_seq j f m))" "sq_next_id (snd (with_seq j f m)) = sq_next_id m"
    using c by (auto simp: ids_below_def split: if_splits)
qed

lemmas op_defs = begin_decoding_def record_token_def complete_seq_def mark_error_def

lemma op_extends:
  "(if ss_status s \<noteq> Prefilling then Inl e else Inr (s\<lparr>ss_status := Decoding\<rparr>)) = Inr s' \<Longrightarrow> extends s s'"
  "(if ss_status s \<noteq> Decoding then Inl e else Inr (s\<lparr>ss_generated := ss_generated s @ [t], ss_current_pos := ss_current_pos s + 1\<rparr>)) = Inr s' \<Longrightarrow> extends s s'"
  "(if ss_status s \<noteq> Decoding then Inl e else Inr (s\<lparr>ss_status := Complete\<rparr>)) = Inr s' \<Longrightarrow> extends s s'"
  "(case ss_status s of Prefilling \<Rightarrow> Inr (s\<lparr>ss_status := SeqError\<rparr>) | Decoding \<Rightarrow> Inr (s\<lparr>ss_status := SeqError\<rparr>) | _ \<Rightarrow> Inl e) = Inr s'
    \<Longrightarrow> extends s s'"
  by (auto simp: extends_def ev_refl split: if_splits sequence_status.splits)

lemma step_extends:
  assumes "sq_sequences m i = Some s" "op \<noteq> RemoveSeq i" "ids_below m" "sq_next_id m \<noteq> - 1"
  shows "(\<exists>s'. sq_sequences (seq_step op m) i = Some s' \<and> extends s s') \<and> ids_below (seq_step op m)
    \<and> unat (sq_next_id (seq_step op m)) \<le> unat (sq_next_id m) + 1"
proof (cases op)
  case (CreateSeq p mt ns)
  have up: "sq_next_id m < sq_next_id m + 1" using assms(4) by (simp add: not_le [symmetric] inc_less_eq_self_iff_eq)
  have "i \<noteq> sq_next_id m" using assms(1,3) by (auto simp: ids_below_def)
  then show ?thesis using assms(1,3) up CreateSeq
    by (auto simp: create_seq_def ids_below_def Let_def intro: less_trans simp: unat_word_ariths)
next
  case (RemoveSeq j)
  then show ?thesis using assms by (auto simp: remove_seq_def ids_below_def)
qed (use assms(1,3) in \<open>simp_all add: op_defs with_seq_extends [OF op_extends(1)] with_seq_extends [OF op_extends(2)]
      with_seq_extends [OF op_extends(3)] with_seq_extends [OF op_extends(4)]\<close>)

text \<open>C32: whatever operations the coordinator performs, in whatever order and however many of them are
  refused, a sequence it does not remove keeps its identity and limits, its tokens are only appended to
  and its position counts them, its status moves only forward, and once complete or failed it stays as
  it is. The ids of sequences are not reused while the 64-bit counter lasts.\<close>

theorem sequence_lifecycle:
  assumes "sq_sequences m i = Some s" and "ids_below m" and "RemoveSeq i \<notin> set ops"
    and "unat (sq_next_id m) + length ops < 2 ^ 64"
  shows "\<exists>s'. sq_sequences (fold seq_step ops m) i = Some s' \<and> extends s s'"
  using assms
proof (induction ops arbitrary: m s)
  case (Cons op ops)
  have "sq_next_id m \<noteq> - 1"
  proof
    assume "sq_next_id m = - 1"
    then have "unat (sq_next_id m) = 2 ^ 64 - 1" by (simp add: unsigned_minus_1_eq_mask mask_eq_exp_minus_1)
    then show False using Cons.prems(4) by simp
  qed
  with Cons.prems obtain s1 where s1: "sq_sequences (seq_step op m) i = Some s1" "extends s s1"
      and b: "ids_below (seq_step op m)" "unat (sq_next_id (seq_step op m)) \<le> unat (sq_next_id m) + 1"
    using step_extends [of m i s op] by auto
  have "\<exists>s'. sq_sequences (fold seq_step ops (seq_step op m)) i = Some s' \<and> extends s1 s'"
    using Cons.IH [OF s1(1) b(1)] Cons.prems(3,4) b(2) by simp
  then show ?case using extends_trans [OF s1(2)] by auto
qed auto

theorem sequence_lifecycle_witness:
  "\<exists>s'. sq_sequences (fold seq_step [BeginDecoding 1, RecordToken 1 7, CompleteSeq 1, RecordToken 1 8]
      (snd (create_seq 3 5 [] new_state_manager))) 1 = Some s' \<and> ss_generated s' = [7] \<and> ss_current_pos s' = 4
      \<and> ss_status s' = Complete"
  using sequence_lifecycle [of "snd (create_seq 3 5 [] new_state_manager)" 1
      "\<lparr>ss_seq_id = 1, ss_status = Prefilling, ss_current_pos = 3, ss_max_tokens = 5, ss_generated = [], ss_cache_on = []\<rparr>"
      "[BeginDecoding 1, RecordToken 1 7, CompleteSeq 1, RecordToken 1 8]"]
  by (simp add: create_seq_def new_state_manager_def ids_below_def op_defs with_seq_def get_seq_def extends_def)

end
