(* ===== verification/Gguf.thy ===== *)
theory Gguf
  imports Stream_Codec F32 "HOL-Library.Char_ord"
begin

unbundle bit_operations_syntax

text \<open>
  The GGUF v3 parser of \<open>fracture-gguf/src/parser.rs\<close>. The cursor is the list of bytes not read yet;
  a read that runs off the end is an I/O error. Capacities passed to \<open>with_capacity\<close> do not show.
\<close>

definition GGUF_MAGIC :: u32 where
  "GGUF_MAGIC = 0x46554747"

definition GGUF_VERSION :: u32 where
  "GGUF_VERSION = 3"

datatype gguf_metadata_type = TUint8 | TInt8 | TUint16 | TInt16 | TUint32 | TInt32 | TFloat32 | TBool | TString | TArray
  | TUint64 | TInt64 | TFloat64

definition metadata_type_from_u32 :: "u32 \<Rightarrow> gguf_metadata_type result" where
  "metadata_type_from_u32 v =
     (if v = 0 then Inr TUint8 else if v = 1 then Inr TInt8 else if v = 2 then Inr TUint16 else if v = 3 then Inr TInt16
      else if v = 4 then Inr TUint32 else if v = 5 then Inr TInt32 else if v = 6 then Inr TFloat32 else if v = 7 then Inr TBool
      else if v = 8 then Inr TString else if v = 9 then Inr TArray else if v = 10 then Inr TUint64 else if v = 11 then Inr TInt64
      else if v = 12 then Inr TFloat64 else Inl (GgufParse ''unknown metadata type: {v}''))"

datatype gguf_dtype = GF32 | GF16 | Q4_0 | Q4_1 | Q5_0 | Q5_1 | Q8_0 | Q8_1 | Q2K | Q3K | Q4K | Q5K | Q6K | Iq2Xxs | Iq2Xs
  | Iq3Xxs | Iq1S | Iq4Nl | Iq3S | Iq2S | Iq4Xs | GI8 | GI16 | GI32 | GI64 | GF64 | Iq1M | GBf16

definition gguf_dtype_from_u32 :: "u32 \<Rightarrow> gguf_dtype result" where
  "gguf_dtype_from_u32 v =
     (if v = 0 then Inr GF32 else if v = 1 then Inr GF16 else if v = 2 then Inr Q4_0 else if v = 3 then Inr Q4_1
      else if v = 6 then Inr Q5_0 else if v = 7 then Inr Q5_1 else if v = 8 then Inr Q8_0 else if v = 9 then Inr Q8_1
      else if v = 10 then Inr Q2K else if v = 11 then Inr Q3K else if v = 12 then Inr Q4K else if v = 13 then Inr Q5K
      else if v = 14 then Inr Q6K else if v = 15 then Inr Iq2Xxs else if v = 16 then Inr Iq2Xs else if v = 17 then Inr Iq3Xxs
      else if v = 18 then Inr Iq1S else if v = 19 then Inr Iq4Nl else if v = 20 then Inr Iq3S else if v = 21 then Inr Iq2S
      else if v = 22 then Inr Iq4Xs else if v = 23 then Inr GI8 else if v = 24 then Inr GI16 else if v = 25 then Inr GI32
      else if v = 26 then Inr GI64 else if v = 27 then Inr GF64 else if v = 28 then Inr Iq1M else if v = 30 then Inr GBf16
      else Inl (GgufParse ''unknown tensor dtype: {v}''))"

fun to_fracture_dtype :: "gguf_dtype \<Rightarrow> dtype result" where
  "to_fracture_dtype GF32 = Inr FP32"
| "to_fracture_dtype GF16 = Inr FP16"
| "to_fracture_dtype GBf16 = Inr BF16"
| "to_fracture_dtype GI8 = Inr INT8"
| "to_fracture_dtype _ = Inl (UnsupportedDType ''GGUF dtype {:?} not yet supported'')"

text \<open>Signed values are kept as their bits.\<close>

datatype metadata_value = Uint8 u8 | Int8 u8 | Uint16 u16 | Int16 u16 | Uint32 u32 | Int32 u32 | Float32 f32 | MBool bool
  | MString string | MArray "metadata_value list" | Uint64 u64 | Int64 u64 | Float64 f64

fun as_u32 :: "metadata_value \<Rightarrow> u32 option" where
  "as_u32 (Uint32 v) = Some v"
| "as_u32 (Uint64 v) = Some (ucast v)"
| "as_u32 (Int32 v) = Some v"
| "as_u32 (Uint16 v) = Some (ucast v)"
| "as_u32 (Uint8 v) = Some (ucast v)"
| "as_u32 _ = None"

fun as_u64 :: "metadata_value \<Rightarrow> u64 option" where
  "as_u64 (Uint64 v) = Some v"
| "as_u64 (Uint32 v) = Some (ucast v)"
| "as_u64 (Int64 v) = Some v"
| "as_u64 (Int32 v) = Some (scast v)"
| "as_u64 _ = None"

fun as_f64 :: "metadata_value \<Rightarrow> f64 option" where
  "as_f64 (Float64 v) = Some v"
| "as_f64 (Float32 v) = Some (f64_of_f32 v)"
| "as_f64 _ = None"

fun as_str :: "metadata_value \<Rightarrow> string option" where
  "as_str (MString s) = Some s"
| "as_str _ = None"

record tensor_info =
  ti_name :: string
  ti_shape :: "usize list"
  ti_dtype :: dtype
  ti_offset :: u64
  ti_gguf_dtype :: u32

record gguf_header =
  gh_config :: model_config
  gh_metadata :: "string \<rightharpoonup> metadata_value"
  gh_tensors :: "tensor_info list"
  gh_tensor_data_offset :: usize

subsection \<open>Reading\<close>

text \<open>\<open>read_u8\<close> to \<open>read_u64::<LittleEndian>\<close>, and their signed and floating-point companions.\<close>

definition read_word :: "nat \<Rightarrow> byte list \<Rightarrow> ('a::len word \<times> byte list) result" where
  "read_word k bs = (case read_exact k bs of None \<Rightarrow> Inl (Io UnexpectedEof) | Some (xs, r) \<Rightarrow> Inr (from_le xs, r))"

text \<open>\<open>String::from_utf8\<close>: the byte sequences of Unicode scalar values, shortest form only.\<close>

definition continuation :: "byte \<Rightarrow> bool" where
  "continuation b \<longleftrightarrow> 0x80 \<le> unat b \<and> unat b \<le> 0xBF"

fun utf8_valid :: "byte list \<Rightarrow> bool" where
  "utf8_valid [] = True"
| "utf8_valid (b # bs) =
     (let n = unat b
      in if n < 0x80 then utf8_valid bs
         else if 0xC2 \<le> n \<and> n \<le> 0xDF
         then (case bs of c # r \<Rightarrow> continuation c \<and> utf8_valid r | _ \<Rightarrow> False)
         else if 0xE0 \<le> n \<and> n \<le> 0xEF
         then (case bs of c # d # r \<Rightarrow> continuation c \<and> continuation d \<and> (n = 0xE0 \<longrightarrow> 0xA0 \<le> unat c)
                 \<and> (n = 0xED \<longrightarrow> unat c \<le> 0x9F) \<and> utf8_valid r | _ \<Rightarrow> False)
         else if 0xF0 \<le> n \<and> n \<le> 0xF4
         then (case bs of c # d # e # r \<Rightarrow> continuation c \<and> continuation d \<and> continuation e \<and> (n = 0xF0 \<longrightarrow> 0x90 \<le> unat c)
                 \<and> (n = 0xF4 \<longrightarrow> unat c \<le> 0x8F) \<and> utf8_valid r | _ \<Rightarrow> False)
         else False)"

definition string_of_bytes :: "byte list \<Rightarrow> string" where
  "string_of_bytes bs = map (\<lambda>b. char_of (unat b)) bs"

definition read_gguf_string :: "byte list \<Rightarrow> (string \<times> byte list) result" where
  "read_gguf_string bs = rbind (read_word 8 bs) (\<lambda>(len :: u64, r).
     if unat len > length r then Inl (GgufParse ''string length {len} exceeds remaining input {remaining}'')
     else (case read_exact (unat len) r of
             None \<Rightarrow> Inl (Io UnexpectedEof)
           | Some (buf, r') \<Rightarrow> if utf8_valid buf then Inr (string_of_bytes buf, r')
                              else Inl (GgufParse ''invalid UTF-8 in string: {e}'')))"

lemma read_word_shorter: "read_word k bs = Inr (w, r) \<Longrightarrow> length bs = length r + k"
  by (auto simp: read_word_def read_exact_Some split: option.splits)

lemma read_string_shorter: "read_gguf_string bs = Inr (s, r) \<Longrightarrow> length bs = length r + 8 + length s"
  by (auto simp: read_gguf_string_def rbind_eq_Inr read_exact_Some string_of_bytes_def
      split: if_splits option.splits dest!: read_word_shorter)

abbreviation wrap_value :: "('a \<Rightarrow> metadata_value) \<Rightarrow> 'a \<times> byte list \<Rightarrow> (metadata_value \<times> byte list) result" where
  "wrap_value c \<equiv> (\<lambda>(v, r). Inr (c v, r))"

function read_typed_value :: "byte list \<Rightarrow> gguf_metadata_type \<Rightarrow> (metadata_value \<times> byte list) result"
  and read_values :: "nat \<Rightarrow> byte list \<Rightarrow> gguf_metadata_type \<Rightarrow> (metadata_value list \<times> byte list) result" where
  "read_typed_value bs ty = (case ty of
      TUint8 \<Rightarrow> rbind (read_word 1 bs) (wrap_value Uint8)
    | TInt8 \<Rightarrow> rbind (read_word 1 bs) (wrap_value Int8)
    | TUint16 \<Rightarrow> rbind (read_word 2 bs) (wrap_value Uint16)
    | TInt16 \<Rightarrow> rbind (read_word 2 bs) (wrap_value Int16)
    | TUint32 \<Rightarrow> rbind (read_word 4 bs) (wrap_value Uint32)
    | TInt32 \<Rightarrow> rbind (read_word 4 bs) (wrap_value Int32)
    | TFloat32 \<Rightarrow> rbind (read_word 4 bs) (wrap_value Float32)
    | TBool \<Rightarrow> rbind (read_word 1 bs) (wrap_value (\<lambda>b :: u8. MBool (b \<noteq> 0)))
    | TString \<Rightarrow> rbind (read_gguf_string bs) (wrap_value MString)
    | TUint64 \<Rightarrow> rbind (read_word 8 bs) (wrap_value Uint64)
    | TInt64 \<Rightarrow> rbind (read_word 8 bs) (wrap_value Int64)
    | TFloat64 \<Rightarrow> rbind (read_word 8 bs) (wrap_value Float64)
    | TArray \<Rightarrow> rbind (read_word 4 bs) (\<lambda>(elem_type_code, r).
        rbind (metadata_type_from_u32 elem_type_code) (\<lambda>elem_type.
        rbind (read_word 8 r) (\<lambda>(len :: u64, r').
        rbind (read_values (unat len) r' elem_type) (wrap_value MArray)))))"
| "read_values n bs ty =
     (if n = 0 then Inr ([], bs)
      else rbind (read_typed_value bs ty) (\<lambda>(v, r).
           rbind (read_values (n - 1) r ty) (\<lambda>(vs, r'). Inr (v # vs, r'))))"
  by pat_completeness auto

termination
proof -
  have shorter:
    "read_typed_value_read_values_dom (Inl (bs, ty)) \<Longrightarrow> read_typed_value bs ty = Inr (v, r) \<Longrightarrow> length r \<le> length bs"
    "read_typed_value_read_values_dom (Inr (n, bs, ty)) \<Longrightarrow> read_values n bs ty = Inr (vs, r) \<Longrightarrow> length r \<le> length bs"
    for bs ty v r n vs
  proof (induction bs ty and n bs ty arbitrary: v r and vs r rule: read_typed_value_read_values.pinduct)
    case (1 bs ty)
    show ?case
    proof (cases "ty = TArray")
      case True
      from 1(3) obtain c t len r1 r2 vs where *: "read_word 4 bs = Inr (c, r1)" "metadata_type_from_u32 c = Inr t"
        "read_word 8 r1 = Inr (len :: u64, r2)" "read_values (unat len) r2 t = Inr (vs, r)"
        unfolding read_typed_value.psimps [OF 1(1)] by (auto simp: True rbind_eq_Inr)
      show ?thesis using 1(2) [OF True *(1) refl *(2,3) refl *(4)] *(1,3) by (auto dest!: read_word_shorter)
    next
      case False
      then show ?thesis using 1(3) unfolding read_typed_value.psimps [OF 1(1)]
        by (cases ty) (auto simp: rbind_eq_Inr dest!: read_word_shorter read_string_shorter)
    qed
  next
    case (2 n bs ty)
    show ?case
    proof (cases "n = 0")
      case False
      with 2(4) obtain v r1 vs' where *: "read_typed_value bs ty = Inr (v, r1)" "read_values (n - 1) r1 ty = Inr (vs', r)"
        by (auto simp: read_values.psimps [OF 2(1)] rbind_eq_Inr)
      show ?thesis using 2(2) [OF False *(1)] 2(3) [OF False *(1) refl *(2)] by simp
    next
      case True
      then show ?thesis using 2(4) unfolding read_values.psimps [OF 2(1)] by simp
    qed
  qed
  show ?thesis
  proof (relation "inv_image (less_than <*lex*> less_than) (\<lambda>x. case x of Inl (bs, ty) \<Rightarrow> (length bs, 0) | Inr (n, bs, ty) \<Rightarrow> (length bs, Suc n))", goal_cases)
    case 1
    then show ?case by (simp add: wf_inv_image wf_lex_prod)
  next
    case (4 n bs ty x v r)
    then show ?case using shorter(1) [of bs ty v r] by auto
  qed (auto dest!: read_word_shorter)
qed

declare read_typed_value.simps [simp del] read_values.simps [simp del]

definition read_metadata_value :: "byte list \<Rightarrow> (metadata_value \<times> byte list) result" where
  "read_metadata_value bs = rbind (read_word 4 bs) (\<lambda>(type_code, r).
     rbind (metadata_type_from_u32 type_code) (\<lambda>ty. read_typed_value r ty))"

definition get_alignment :: "(string \<rightharpoonup> metadata_value) \<Rightarrow> usize" where
  "get_alignment metadata = (case Option.bind (metadata ''general.alignment'') as_u32 of Some v \<Rightarrow> unat v | None \<Rightarrow> 32)"

definition align_offset :: "usize \<Rightarrow> usize \<Rightarrow> usize" where
  "align_offset off alignment =
     (if alignment = 0 then off
      else unat ((word_of_nat (min (off + (alignment - 1)) (2 ^ 64 - 1)) :: u64) AND NOT (word_of_nat (alignment - 1))))"

subsection \<open>The model configuration\<close>

definition get_u32 :: "(string \<rightharpoonup> metadata_value) \<Rightarrow> string \<Rightarrow> usize result" where
  "get_u32 metadata key = ok_or (map_option unat (Option.bind (metadata key) as_u32)) (GgufParse ''missing metadata key: {key}'')"

definition get_f64 :: "(string \<rightharpoonup> metadata_value) \<Rightarrow> string \<Rightarrow> f64 \<Rightarrow> f64" where
  "get_f64 metadata key dflt = (case Option.bind (metadata key) as_f64 of Some v \<Rightarrow> v | None \<Rightarrow> dflt)"

definition get_vocab_size :: "(string \<rightharpoonup> metadata_value) \<Rightarrow> string \<Rightarrow> usize result" where
  "get_vocab_size metadata arch =
     (case metadata ''tokenizer.ggml.tokens'' of
        Some (MArray arr) \<Rightarrow> Inr (length arr)
      | _ \<Rightarrow> ok_or (map_option unat (Option.bind (metadata (arch @ ''.vocab_size'')) as_u32))
               (GgufParse ''cannot determine vocab_size''))"

definition extract_model_config :: "(string \<rightharpoonup> metadata_value) \<Rightarrow> model_config result" where
  "extract_model_config metadata =
     (let arch = (case Option.bind (metadata ''general.architecture'') as_str of Some s \<Rightarrow> s | None \<Rightarrow> ''llama'')
      in rbind (get_u32 metadata (arch @ ''.embedding_length'')) (\<lambda>hsize.
         rbind (get_u32 metadata (arch @ ''.block_count'')) (\<lambda>nlayers.
         rbind (get_u32 metadata (arch @ ''.attention.head_count'')) (\<lambda>nq.
         rbind (get_u32 metadata (arch @ ''.attention.head_count_kv'')) (\<lambda>nkv.
         rbind (get_u32 metadata (arch @ ''.feed_forward_length'')) (\<lambda>isize.
         rbind (get_vocab_size metadata arch) (\<lambda>vsize.
         rbind (ensure (nq \<noteq> 0) (GgufParse ''{arch}.attention.head_count must be > 0'')) (\<lambda>_.
         let config = \<lparr>hidden_size = hsize, num_layers = nlayers, num_q_heads = nq, num_kv_heads = nkv, head_dim = hsize div nq,
               intermediate_size = isize, vocab_size = vsize,
               rope_theta = get_f64 metadata (arch @ ''.rope.freq_base'') 0x411E848000000000,
               rms_norm_eps = get_f64 metadata (arch @ ''.attention.layer_norm_rms_epsilon'') 0x3EE4F8B588E368F1,
               max_seq_len = (case Option.bind (metadata (arch @ ''.context_length'')) as_u32 of Some v \<Rightarrow> unat v | None \<Rightarrow> 8192)\<rparr>
         in rbind (validate_config config) (\<lambda>_. Inr config)))))))))"

subsection \<open>The header\<close>

definition read_entry :: "byte list \<Rightarrow> ((string \<times> metadata_value) \<times> byte list) result" where
  "read_entry bs = rbind (read_gguf_string bs) (\<lambda>(key, r). rbind (read_metadata_value r) (\<lambda>(val, r'). Inr ((key, val), r')))"

definition read_tensor_info :: "byte list \<Rightarrow> (tensor_info \<times> byte list) result" where
  "read_tensor_info bs =
     rbind (read_gguf_string bs) (\<lambda>(name, r1).
     rbind (read_word 4 r1) (\<lambda>(ndims :: u32, r2).
     rbind (read_many (read_word 8) (unat ndims) r2) (\<lambda>(dims :: u64 list, r3).
     rbind (read_word 4 r3) (\<lambda>(dtype_code, r4).
     rbind (gguf_dtype_from_u32 dtype_code) (\<lambda>gd.
     rbind (to_fracture_dtype gd) (\<lambda>d.
     rbind (read_word 8 r4) (\<lambda>(off, r5).
       Inr (\<lparr>ti_name = name, ti_shape = rev (map unat dims), ti_dtype = d, ti_offset = off, ti_gguf_dtype = dtype_code\<rparr>, r5))))))))"

definition metadata_of :: "(string \<times> metadata_value) list \<Rightarrow> (string \<rightharpoonup> metadata_value)" where
  "metadata_of kvs = foldl (\<lambda>m (k, v). m(k \<mapsto> v)) Map.empty kvs"

definition parse_header_bytes :: "byte list \<Rightarrow> gguf_header result" where
  "parse_header_bytes bytes =
     rbind (read_word 4 bytes) (\<lambda>(magic, r1).
     rbind (ensure (magic = GGUF_MAGIC) (GgufParse ''invalid magic: expected 0x{GGUF_MAGIC:08X}, got 0x{magic:08X}'')) (\<lambda>_.
     rbind (read_word 4 r1) (\<lambda>(version, r2).
     rbind (ensure (version = GGUF_VERSION) (GgufParse ''unsupported GGUF version: {version} (only v3 supported)'')) (\<lambda>_.
     rbind (read_word 8 r2) (\<lambda>(tensor_count :: u64, r3).
     rbind (read_word 8 r3) (\<lambda>(metadata_kv_count :: u64, r4).
     rbind (read_many read_entry (unat metadata_kv_count) r4) (\<lambda>(kvs, r5).
     rbind (read_many read_tensor_info (unat tensor_count) r5) (\<lambda>(tensors, r6).
     let metadata = metadata_of kvs;
         current_pos = length bytes - length r6
     in rbind (extract_model_config metadata) (\<lambda>config.
        Inr \<lparr>gh_config = config, gh_metadata = metadata, gh_tensors = tensors,
             gh_tensor_data_offset = align_offset current_pos (get_alignment metadata)\<rparr>)))))))))"

subsection \<open>The format\<close>

text \<open>What a GGUF v3 file holds, byte for byte.\<close>

definition bytes_of_string :: "string \<Rightarrow> byte list" where
  "bytes_of_string s = map (\<lambda>c. word_of_nat (of_char c)) s"

definition enc_string :: "string \<Rightarrow> byte list" where
  "enc_string s = le_bytes 8 (word_of_nat (length s) :: u64) @ bytes_of_string s"

definition string_ok :: "string \<Rightarrow> bool" where
  "string_ok s \<longleftrightarrow> length s < 2 ^ 64 \<and> utf8_valid (bytes_of_string s)"

fun type_code :: "gguf_metadata_type \<Rightarrow> u32" where
  "type_code TUint8 = 0" | "type_code TInt8 = 1" | "type_code TUint16 = 2" | "type_code TInt16 = 3" | "type_code TUint32 = 4"
| "type_code TInt32 = 5" | "type_code TFloat32 = 6" | "type_code TBool = 7" | "type_code TString = 8" | "type_code TArray = 9"
| "type_code TUint64 = 10" | "type_code TInt64 = 11" | "type_code TFloat64 = 12"

fun value_type :: "metadata_value \<Rightarrow> gguf_metadata_type" where
  "value_type (Uint8 _) = TUint8" | "value_type (Int8 _) = TInt8" | "value_type (Uint16 _) = TUint16"
| "value_type (Int16 _) = TInt16" | "value_type (Uint32 _) = TUint32" | "value_type (Int32 _) = TInt32"
| "value_type (Float32 _) = TFloat32" | "value_type (MBool _) = TBool" | "value_type (MString _) = TString"
| "value_type (MArray _) = TArray" | "value_type (Uint64 _) = TUint64" | "value_type (Int64 _) = TInt64"
| "value_type (Float64 _) = TFloat64"

definition elem_type :: "metadata_value list \<Rightarrow> gguf_metadata_type" where
  "elem_type vs = (case vs of [] \<Rightarrow> TUint8 | v # _ \<Rightarrow> value_type v)"

fun enc_value :: "metadata_value \<Rightarrow> byte list" where
  "enc_value (Uint8 v) = le_bytes 1 v"
| "enc_value (Int8 v) = le_bytes 1 v"
| "enc_value (Uint16 v) = le_bytes 2 v"
| "enc_value (Int16 v) = le_bytes 2 v"
| "enc_value (Uint32 v) = le_bytes 4 v"
| "enc_value (Int32 v) = le_bytes 4 v"
| "enc_value (Float32 v) = le_bytes 4 v"
| "enc_value (MBool b) = [if b then 1 else 0]"
| "enc_value (MString s) = enc_string s"
| "enc_value (MArray vs) = le_bytes 4 (type_code (elem_type vs)) @ le_bytes 8 (word_of_nat (length vs) :: u64) @ concat (map enc_value vs)"
| "enc_value (Uint64 v) = le_bytes 8 v"
| "enc_value (Int64 v) = le_bytes 8 v"
| "enc_value (Float64 v) = le_bytes 8 v"

fun value_ok :: "metadata_value \<Rightarrow> bool" where
  "value_ok (MString s) = string_ok s"
| "value_ok (MArray vs) = (length vs < 2 ^ 64 \<and> (\<forall>v \<in> set vs. value_type v = elem_type vs \<and> value_ok v))"
| "value_ok _ = True"

definition enc_entry :: "string \<times> metadata_value \<Rightarrow> byte list" where
  "enc_entry = (\<lambda>(k, v). enc_string k @ le_bytes 4 (type_code (value_type v)) @ enc_value v)"

definition enc_tensor_info :: "tensor_info \<Rightarrow> byte list" where
  "enc_tensor_info t = enc_string (ti_name t) @ le_bytes 4 (word_of_nat (length (ti_shape t)) :: u32)
     @ concat (map (\<lambda>n. le_bytes 8 (word_of_nat n :: u64)) (rev (ti_shape t))) @ le_bytes 4 (ti_gguf_dtype t) @ le_bytes 8 (ti_offset t)"

definition tensor_info_ok :: "tensor_info \<Rightarrow> bool" where
  "tensor_info_ok t \<longleftrightarrow> string_ok (ti_name t) \<and> length (ti_shape t) < 2 ^ 32 \<and> (\<forall>n \<in> set (ti_shape t). n < 2 ^ 64)
     \<and> rbind (gguf_dtype_from_u32 (ti_gguf_dtype t)) to_fracture_dtype = Inr (ti_dtype t)"

definition enc_header :: "(string \<times> metadata_value) list \<Rightarrow> tensor_info list \<Rightarrow> byte list" where
  "enc_header kvs ts = le_bytes 4 GGUF_MAGIC @ le_bytes 4 GGUF_VERSION @ le_bytes 8 (word_of_nat (length ts) :: u64)
     @ le_bytes 8 (word_of_nat (length kvs) :: u64) @ concat (map enc_entry kvs) @ concat (map enc_tensor_info ts)"

end
