(* ===== verification/Gguf_Correct.thy ===== *)
theory Gguf_Correct
  imports Gguf
begin

text \<open>
  What the GGUF parser reads: the contents of a well-formed file, and no more than the bytes that are there.
\<close>

subsection \<open>Reading back what the format writes\<close>

lemma unat_of_nat_eq: "n < 2 ^ LENGTH('a) \<Longrightarrow> unat (word_of_nat n :: 'a::len word) = n"
  by (simp add: unat_of_nat)

lemma read_word_write: "LENGTH('a) \<le> 8 * k \<Longrightarrow> read_word k (le_bytes k (w :: 'a::len word) @ r) = Inr (w, r)"
  by (simp add: read_word_def from_le_le_bytes)

lemma string_of_bytes_of_string: "string_of_bytes (bytes_of_string s) = s"
proof -
  have "char_of (unat (word_of_nat (of_char c) :: byte)) = c" for c by (simp add: unat_of_nat)
  then show ?thesis by (simp add: string_of_bytes_def bytes_of_string_def comp_def)
qed

lemma read_string_write: "string_ok s \<Longrightarrow> read_gguf_string (enc_string s @ r) = Inr (s, r)"
  using string_of_bytes_of_string [of s]
  by (simp add: read_gguf_string_def enc_string_def read_word_write string_ok_def unat_of_nat_eq bytes_of_string_def)

lemma from_type_code [simp]: "metadata_type_from_u32 (type_code t) = Inr t"
  by (cases t) (simp_all add: metadata_type_from_u32_def)

lemma read_values_write:
  assumes "\<forall>v \<in> set vs. \<forall>r. read_typed_value (enc_value v @ r) t = Inr (v, r)"
  shows "read_values (length vs) (concat (map enc_value vs) @ r) t = Inr (vs, r)"
  using assms by (induction vs) (simp_all add: read_values.simps [where bs = "x @ y" for x y] read_values.simps [where n = 0])

lemma read_value_write:
  "value_ok v \<Longrightarrow> read_typed_value (enc_value v @ r) (value_type v) = Inr (v, r)"
proof (induction v arbitrary: r)
  case (MArray vs)
  have "read_values (length vs) (concat (map enc_value vs) @ r) (elem_type vs) = Inr (vs, r)"
    by (rule read_values_write) (use MArray in auto)
  then show ?case using MArray.prems by (simp add: read_typed_value.simps read_word_write unat_of_nat_eq)
next
  case (MBool b)
  have "read_word 1 (x # r) = Inr (x, r)" for x :: byte
    using read_word_write [of 1 x r] by (simp add: le_bytes_def)
  then show ?case by (simp add: read_typed_value.simps)
qed (simp_all add: read_typed_value.simps read_word_write read_string_write)

interpretation dims: stream_codec "le_bytes 8 :: u64 \<Rightarrow> byte list" "read_word 8" "\<lambda>_. True"
  by unfold_locales (simp add: read_word_write)

definition entry_ok :: "string \<times> metadata_value \<Rightarrow> bool" where
  "entry_ok = (\<lambda>(k, v). string_ok k \<and> value_ok v)"

interpretation gguf_entry: stream_codec enc_entry read_entry entry_ok
  by unfold_locales (auto simp: enc_entry_def read_entry_def entry_ok_def read_metadata_value_def read_string_write read_word_write read_value_write)

interpretation gguf_tensor: stream_codec enc_tensor_info read_tensor_info tensor_info_ok
proof
  fix t rest assume ok: "tensor_info_ok t"
  let ?ds = "map (word_of_nat :: nat \<Rightarrow> u64) (rev (ti_shape t))"
  have "read_many (read_word 8) (length ?ds) (concat (map (le_bytes 8) ?ds) @ r) = Inr (?ds, r)" for r
    by (rule dims.read_write_many) simp
  then have d: "read_many (read_word 8) (length (ti_shape t)) (concat (map (\<lambda>n. le_bytes 8 (word_of_nat n :: u64)) (rev (ti_shape t))) @ r)
      = Inr (?ds, r)" for r by (simp add: comp_def)
  have "map (\<lambda>n. unat (word_of_nat n :: u64)) (ti_shape t) = ti_shape t"
    using ok by (auto simp: tensor_info_ok_def unat_of_nat_eq intro: map_idI)
  moreover obtain gd where "gguf_dtype_from_u32 (ti_gguf_dtype t) = Inr gd" "to_fracture_dtype gd = Inr (ti_dtype t)"
    using ok by (auto simp: tensor_info_ok_def rbind_eq_Inr)
  moreover have "string_ok (ti_name t)" "unat (word_of_nat (length (ti_shape t)) :: u32) = length (ti_shape t)"
    using ok by (simp_all add: tensor_info_ok_def unat_of_nat_eq)
  ultimately show "read_tensor_info (enc_tensor_info t @ rest) = Inr (t, rest)"
    by (simp add: read_tensor_info_def enc_tensor_info_def read_string_write read_word_write d rev_map comp_def)
qed

subsection \<open>Reading no more than there is\<close>

text \<open>The values that a value is built from, and how deep its arrays are nested.\<close>

fun nodes :: "metadata_value \<Rightarrow> nat" where
  "nodes (MArray vs) = Suc (sum_list (map nodes vs))"
| "nodes _ = 1"

fun array_depth :: "metadata_value \<Rightarrow> nat" where
  "array_depth (MArray vs) = Suc (foldr (\<lambda>v. max (array_depth v)) vs 0)"
| "array_depth _ = 0"

lemma read_value_bounded:
  "read_typed_value bs ty = Inr (v, r) \<Longrightarrow> length r + nodes v \<le> length bs \<and> length r + 12 * array_depth v \<le> length bs"
  "read_values n bs ty = Inr (vs, r) \<Longrightarrow> length vs = n \<and> length r + sum_list (map nodes vs) \<le> length bs
     \<and> length r + 12 * foldr (\<lambda>v. max (array_depth v)) vs 0 \<le> length bs"
proof (induction bs ty and n bs ty arbitrary: v r and vs r rule: read_typed_value_read_values.induct)
  case (1 bs ty)
  show ?case
  proof (cases "ty = TArray")
    case True
    from 1(2) obtain c t len r1 r2 vs where *: "read_word 4 bs = Inr (c, r1)" "metadata_type_from_u32 c = Inr t"
      "read_word 8 r1 = Inr (len :: u64, r2)" "read_values (unat len) r2 t = Inr (vs, r)" "v = MArray vs"
      unfolding read_typed_value.simps [of bs] by (auto simp: True rbind_eq_Inr)
    show ?thesis using 1(1) [OF True *(1) refl *(2,3) refl *(4)] *(1,3,5) by (auto dest!: read_word_shorter)
  next
    case False
    then show ?thesis using 1(2) unfolding read_typed_value.simps [of bs]
      by (cases ty) (auto simp: rbind_eq_Inr dest!: read_word_shorter read_string_shorter)
  qed
next
  case (2 n bs ty)
  show ?case
  proof (cases "n = 0")
    case False
    with 2(3) obtain v r1 vs' where *: "read_typed_value bs ty = Inr (v, r1)" "read_values (n - 1) r1 ty = Inr (vs', r)"
        "vs = v # vs'"
      unfolding read_values.simps [of n] by (auto simp: rbind_eq_Inr)
    show ?thesis using 2(1) [OF False *(1)] 2(2) [OF False *(1) refl *(2)] *(3) False by auto
  next
    case True
    then show ?thesis using 2(3) unfolding read_values.simps [of n] by simp
  qed
qed

lemma read_many_bounded:
  assumes "\<And>bs x r. rd bs = Inr (x, r) \<Longrightarrow> length r + k \<le> length bs" and "read_many rd n bs = Inr (xs, r)"
  shows "length xs = n \<and> length r + k * n \<le> length bs"
  using assms(2)
proof (induction n arbitrary: bs xs)
  case (Suc n)
  then obtain x r1 ys where x: "rd bs = Inr (x, r1)" "read_many rd n r1 = Inr (ys, r)" "xs = x # ys"
    by (auto simp: rbind_eq_Inr)
  show ?case using assms(1) [OF x(1)] Suc.IH [OF x(2)] x(3) by simp
qed simp

lemma read_word_bounded: "read_word k bs = Inr (w, r) \<Longrightarrow> length r + k \<le> length bs"
  by (simp add: read_word_shorter)

lemma nodes_pos [simp]: "0 < nodes v"
  by (cases v) simp_all

lemma read_entry_bounded: "read_entry bs = Inr (x, r) \<Longrightarrow> length r + 13 \<le> length bs"
proof -
  assume "read_entry bs = Inr (x, r)"
  then obtain k r1 c r2 ty v where *: "read_gguf_string bs = Inr (k, r1)" "read_word 4 r1 = Inr (c :: u32, r2)"
    "read_typed_value r2 ty = Inr (v, r)"
    by (auto simp: read_entry_def read_metadata_value_def rbind_eq_Inr)
  from read_string_shorter [OF *(1)] read_word_shorter [OF *(2)] read_value_bounded(1) [OF *(3)] nodes_pos [of v]
  show ?thesis by linarith
qed

lemma read_tensor_info_bounded: "read_tensor_info bs = Inr (t, r) \<Longrightarrow> length r + 24 \<le> length bs"
proof -
  assume "read_tensor_info bs = Inr (t, r)"
  then obtain s r1 nd r2 ds r3 c r4 off where *: "read_gguf_string bs = Inr (s, r1)" "read_word 4 r1 = Inr (nd :: u32, r2)"
    "read_many (read_word 8) (unat nd) r2 = Inr (ds :: u64 list, r3)" "read_word 4 r3 = Inr (c :: u32, r4)" "read_word 8 r4 = Inr (off :: u64, r)"
    by (auto simp: read_tensor_info_def rbind_eq_Inr)
  have "length ds = unat nd \<and> length r3 + 8 * unat nd \<le> length r2"
    by (rule read_many_bounded [OF _ *(3)]) (erule read_word_bounded)
  with read_string_shorter [OF *(1)] read_word_shorter [OF *(2)] read_word_shorter [OF *(4)] read_word_shorter [OF *(5)]
  show ?thesis by linarith
qed

text \<open>A successful parse, step by step.\<close>

lemma parsed:
  assumes "parse_header_bytes bytes = Inr h"
  obtains tc kc r4 kvs r5 r6 where
    "tc = (from_le (take 8 (drop 8 bytes)) :: u64)" "kc = (from_le (take 8 (drop 16 bytes)) :: u64)" "length bytes = length r4 + 24"
    "read_many read_entry (unat kc) r4 = Inr (kvs, r5)" "read_many read_tensor_info (unat tc) r5 = Inr (gh_tensors h, r6)"
    "extract_model_config (metadata_of kvs) = Inr (gh_config h)" "gh_metadata h = metadata_of kvs"
    "gh_tensor_data_offset h = align_offset (length bytes - length r6) (get_alignment (gh_metadata h))"
proof -
  from assms obtain m r1 v r2 tc r3 kc r4 kvs r5 ts r6 cfg where
    *: "read_word 4 bytes = Inr (m :: u32, r1)" "read_word 4 r1 = Inr (v :: u32, r2)" "read_word 8 r2 = Inr (tc :: u64, r3)"
      "read_word 8 r3 = Inr (kc :: u64, r4)"
    and **: "read_many read_entry (unat kc) r4 = Inr (kvs, r5)" "read_many read_tensor_info (unat tc) r5 = Inr (ts, r6)"
      "extract_model_config (metadata_of kvs) = Inr cfg"
      "h = \<lparr>gh_config = cfg, gh_metadata = metadata_of kvs, gh_tensors = ts,
             gh_tensor_data_offset = align_offset (length bytes - length r6) (get_alignment (metadata_of kvs))\<rparr>"
    by (auto simp: parse_header_bytes_def rbind_eq_Inr ensure_eq_Inr Let_def)
  from * have "r1 = drop 4 bytes" "r2 = drop 8 bytes" "r3 = drop 16 bytes"
    by (auto simp: read_word_def read_exact_def split: option.splits if_splits)
  with * have "tc = from_le (take 8 (drop 8 bytes))" "kc = from_le (take 8 (drop 16 bytes))"
    by (auto simp: read_word_def read_exact_def split: option.splits if_splits)
  moreover have "length bytes = length r4 + 24" using * by (auto dest!: read_word_shorter)
  ultimately show thesis using that ** by simp
qed

lemma extracted_config_ok: "extract_model_config m = Inr cfg \<Longrightarrow> config_ok cfg"
  by (auto simp: extract_model_config_def Let_def rbind_eq_Inr dest!: validate_config_ok)

lemma read_many_all:
  assumes "\<And>bs x r. rd bs = Inr (x, r) \<Longrightarrow> P x" and "read_many rd n bs = Inr (xs, r)"
  shows "\<forall>x \<in> set xs. P x"
  using assms(2)
proof (induction n arbitrary: bs xs)
  case (Suc n)
  then obtain x r1 ys where x: "rd bs = Inr (x, r1)" "read_many rd n r1 = Inr (ys, r)" "xs = x # ys"
    by (auto simp: rbind_eq_Inr)
  show ?case using assms(1) [OF x(1)] Suc.IH [OF x(2)] x(3) by simp
qed simp

lemma read_tensor_dtype:
  "read_tensor_info bs = Inr (t, r) \<Longrightarrow> rbind (gguf_dtype_from_u32 (ti_gguf_dtype t)) to_fracture_dtype = Inr (ti_dtype t)"
  by (auto simp: read_tensor_info_def rbind_eq_Inr)

subsection \<open>Alignment\<close>

lemma and_not_mask: "(x :: 'a::len word) AND NOT (mask k) = x - take_bit k x"
proof -
  have "x - take_bit k x = x AND NOT (take_bit k x)"
    by (rule disjunctive_diff) (simp add: bit_simps)
  also have "\<dots> = x AND NOT (mask k)" by (rule bit_eqI) (auto simp: bit_simps)
  finally show ?thesis by simp
qed

lemma align_power_of_two:
  assumes "k < 64" and "off + 2 ^ k \<le> 2 ^ 64"
  shows "align_offset off (2 ^ k) = (off + (2 ^ k - 1)) div 2 ^ k * 2 ^ k"
proof -
  let ?n = "off + (2 ^ k - 1)" and ?w = "word_of_nat (off + (2 ^ k - 1)) :: u64"
  have p: "0 < (2::nat) ^ k" by simp
  then have n: "?n < 2 ^ 64" using assms(2) by linarith
  have m: "(word_of_nat (2 ^ k - 1) :: u64) = mask k" by (simp add: mask_eq_exp_minus_1 of_nat_diff)
  have u: "unat ?w = ?n" using n by (simp add: unat_of_nat_eq)
  have "unat (take_bit k ?w) = take_bit k (unat ?w)" by (rule unsigned_take_bit_eq)
  then have t: "unat (take_bit k ?w) = ?n mod 2 ^ k" unfolding u take_bit_eq_mod .
  have "min ?n (2 ^ 64 - 1) = ?n" using n by simp
  then have "align_offset off (2 ^ k) = unat (?w - take_bit k ?w)"
    unfolding align_offset_def m by (simp add: and_not_mask)
  also have "\<dots> = ?n - ?n mod 2 ^ k"
    by (subst unat_sub) (simp_all only: word_le_nat_alt u t mod_less_eq_dividend)
  finally show ?thesis by (simp add: minus_mod_eq_div_mult)
qed

subsection \<open>The header as a whole\<close>

lemma parse_enc_header:
  assumes "\<forall>kv \<in> set kvs. entry_ok kv" and "\<forall>t \<in> set ts. tensor_info_ok t" and "length kvs < 2 ^ 64" and "length ts < 2 ^ 64"
  shows "parse_header_bytes (enc_header kvs ts @ rest) = rbind (extract_model_config (metadata_of kvs)) (\<lambda>config.
    Inr \<lparr>gh_config = config, gh_metadata = metadata_of kvs, gh_tensors = ts,
         gh_tensor_data_offset = align_offset (length (enc_header kvs ts)) (get_alignment (metadata_of kvs))\<rparr>)"
proof -
  have "unat (word_of_nat (length kvs) :: u64) = length kvs" "unat (word_of_nat (length ts) :: u64) = length ts"
    using assms(3,4) by (simp_all add: unat_of_nat_eq)
  then show ?thesis
    using gguf_entry.read_write_many [OF assms(1)] gguf_tensor.read_write_many [OF assms(2)]
    by (simp add: parse_header_bytes_def enc_header_def read_word_write Let_def)
qed

subsection \<open>A small file\<close>

definition small_metadata :: "(string \<times> metadata_value) list" where
  "small_metadata = [(''llama.embedding_length'', Uint32 8), (''llama.block_count'', Uint32 2), (''llama.attention.head_count'', Uint8 4),
     (''llama.attention.head_count_kv'', Uint64 2), (''llama.feed_forward_length'', Int32 16),
     (''tokenizer.ggml.tokens'', MArray [MString ''a'', MString ''b'']), (''general.alignment'', Uint32 16)]"

definition small_tensor :: tensor_info where
  "small_tensor = \<lparr>ti_name = ''w'', ti_shape = [2, 8], ti_dtype = FP16, ti_offset = 64, ti_gguf_dtype = 1\<rparr>"

definition small_config :: model_config where
  "small_config = \<lparr>hidden_size = 8, num_layers = 2, num_q_heads = 4, num_kv_heads = 2, head_dim = 2, intermediate_size = 16, vocab_size = 2,
     rope_theta = 0x411E848000000000, rms_norm_eps = 0x3EE4F8B588E368F1, max_seq_len = 8192\<rparr>"

lemma small_metadata_ok: "\<forall>kv \<in> set small_metadata. entry_ok kv"
  by (simp add: small_metadata_def entry_ok_def string_ok_def bytes_of_string_def elem_type_def continuation_def)

lemma small_tensor_ok: "tensor_info_ok small_tensor"
  by (simp add: tensor_info_ok_def small_tensor_def gguf_dtype_from_u32_def string_ok_def bytes_of_string_def)

lemma small_config_extracted: "extract_model_config (metadata_of small_metadata) = Inr small_config"
  by code_simp

subsection \<open>Properties\<close>

text \<open>C16: a well-formed GGUF header is read back as it was written: every metadata entry and tensor
  descriptor, whatever follows it in the file, with the configuration extracted from the metadata and the
  tensor data located after the header at the alignment the file asks for.\<close>

theorem gguf_header_roundtrip:
  assumes "\<forall>kv \<in> set kvs. entry_ok kv" and "\<forall>t \<in> set ts. tensor_info_ok t" and "length kvs < 2 ^ 64" and "length ts < 2 ^ 64"
  shows "parse_header_bytes (enc_header kvs ts @ rest) = rbind (extract_model_config (metadata_of kvs)) (\<lambda>config.
    Inr \<lparr>gh_config = config, gh_metadata = metadata_of kvs, gh_tensors = ts,
         gh_tensor_data_offset = align_offset (length (enc_header kvs ts)) (get_alignment (metadata_of kvs))\<rparr>)"
  by (rule parse_enc_header [OF assms])

theorem gguf_header_roundtrip_witness:
  "\<exists>h. parse_header_bytes (enc_header small_metadata [small_tensor] @ [1, 2, 3]) = Inr h
     \<and> gh_config h = small_config \<and> gh_tensors h = [small_tensor]"
  using gguf_header_roundtrip [OF small_metadata_ok, of "[small_tensor]" "[1, 2, 3]"] small_tensor_ok
  by (simp add: small_config_extracted small_metadata_def [THEN arg_cong, of length])



text \<open>C33: a header that claims more entries or tensors than its bytes can hold is refused, and one that is
  accepted has a valid configuration and tensors of supported types only.\<close>

theorem gguf_header_sound:
  assumes "parse_header_bytes bytes = Inr h"
  shows "24 + 13 * unat (from_le (take 8 (drop 16 bytes)) :: u64) + 24 * unat (from_le (take 8 (drop 8 bytes)) :: u64) \<le> length bytes
    \<and> length (gh_tensors h) = unat (from_le (take 8 (drop 8 bytes)) :: u64)
    \<and> config_ok (gh_config h)
    \<and> (\<forall>t \<in> set (gh_tensors h). rbind (gguf_dtype_from_u32 (ti_gguf_dtype t)) to_fracture_dtype = Inr (ti_dtype t))"
  using assms
proof (rule parsed)
  fix tc kc :: u64 and r4 kvs r5 r6
  assume *: "tc = from_le (take 8 (drop 8 bytes))" "kc = from_le (take 8 (drop 16 bytes))" "length bytes = length r4 + 24"
    and e: "read_many read_entry (unat kc) r4 = Inr (kvs, r5)" and t: "read_many read_tensor_info (unat tc) r5 = Inr (gh_tensors h, r6)"
    and c: "extract_model_config (metadata_of kvs) = Inr (gh_config h)"
  have re: "length kvs = unat kc \<and> length r5 + 13 * unat kc \<le> length r4"
    by (rule read_many_bounded [OF _ e]) (erule read_entry_bounded)
  have rt: "length (gh_tensors h) = unat tc \<and> length r6 + 24 * unat tc \<le> length r5"
    by (rule read_many_bounded [OF _ t]) (erule read_tensor_info_bounded)
  have "\<forall>t \<in> set (gh_tensors h). rbind (gguf_dtype_from_u32 (ti_gguf_dtype t)) to_fracture_dtype = Inr (ti_dtype t)"
    by (rule read_many_all [OF _ t]) (erule read_tensor_dtype)
  then show ?thesis using re rt extracted_config_ok [OF c] unfolding *(1,2) [symmetric] *(3) by simp
qed

theorem gguf_header_sound_witness:
  "\<exists>h. parse_header_bytes (enc_header small_metadata [small_tensor]) = Inr h \<and> config_ok (gh_config h)"
proof -
  have "length small_metadata = 7" by (simp add: small_metadata_def)
  then obtain h where h: "parse_header_bytes (enc_header small_metadata [small_tensor]) = Inr h"
    using parse_enc_header [OF small_metadata_ok, of "[small_tensor]" "[]"] small_tensor_ok by (simp add: small_config_extracted)
  with gguf_header_sound [OF h] show ?thesis by blast
qed

text \<open>C35: the tensor data starts at the first multiple of the alignment that is not before the end of the
  header, when the alignment is a power of two; for another alignment the offset need not be a multiple.\<close>

theorem gguf_alignment:
  "(\<forall>k off. k < 64 \<longrightarrow> off + 2 ^ k \<le> 2 ^ 64 \<longrightarrow>
      off \<le> align_offset off (2 ^ k) \<and> align_offset off (2 ^ k) < off + 2 ^ k \<and> 2 ^ k dvd align_offset off (2 ^ k))
   \<and> align_offset 30 24 = 32 \<and> \<not> 24 dvd align_offset 30 24"
proof -
  have "off \<le> align_offset off (2 ^ k) \<and> align_offset off (2 ^ k) < off + 2 ^ k \<and> 2 ^ k dvd align_offset off (2 ^ k)"
    if "k < 64" "off + 2 ^ k \<le> 2 ^ 64" for k off :: nat
  proof -
    have p: "0 < (2::nat) ^ k" by simp
    have "(off + (2 ^ k - 1)) div 2 ^ k * 2 ^ k + (off + (2 ^ k - 1)) mod 2 ^ k = off + (2 ^ k - 1)" by (rule div_mult_mod_eq)
    moreover have "(off + (2 ^ k - 1)) mod 2 ^ k < 2 ^ k" using p by simp
    ultimately show ?thesis unfolding align_power_of_two [OF that] using p by (intro conjI dvd_triv_right) linarith+
  qed
  moreover have "align_offset 30 24 = 32 \<and> \<not> 24 dvd align_offset 30 24" by code_simp
  ultimately show ?thesis by blast
qed

theorem gguf_alignment_witness: "100 \<le> align_offset 100 (2 ^ 5) \<and> 2 ^ 5 dvd align_offset 100 (2 ^ 5)"
  using gguf_alignment [THEN conjunct1, rule_format, of 5 100] by simp

fun nested :: "nat \<Rightarrow> metadata_value" where
  "nested 0 = MArray []"
| "nested (Suc d) = MArray [nested d]"

text \<open>C36: nothing but the size of the file limits how deep the reader recurses: for every depth there is
  a file of twelve bytes per level that makes it nest so deep.\<close>

theorem gguf_nesting_unlimited:
  "length (enc_value (nested d)) = 12 * Suc d \<and> read_typed_value (enc_value (nested d)) TArray = Inr (nested d, [])
   \<and> array_depth (nested d) = Suc d"
proof -
  have "value_type (nested d) = TArray" for d by (cases d) simp_all
  moreover have "value_ok (nested d)" by (induction d) (simp_all add: elem_type_def)
  ultimately have "read_typed_value (enc_value (nested d)) TArray = Inr (nested d, [])"
    using read_value_write [of "nested d" "[]"] by simp
  moreover have "length (enc_value (nested d)) = 12 * Suc d \<and> array_depth (nested d) = Suc d" by (induction d) simp_all
  ultimately show ?thesis by blast
qed

end
