(* ===== verification/Batch_Scheduler.thy ===== *)
theory Batch_Scheduler
  imports Paged_Cache Registry
begin

text \<open>
  The engine's batch scheduler, \<open>fracture-engine/src/scheduler.rs\<close>: which sequences take part in the next
  forward pass. The channel to a client is a number; \<open>closed\<close> tells which clients are gone, and the events
  that are sent are returned. \<open>ks\<close> is the order in which the hash map of active sequences is traversed.
\<close>

datatype stop_reason = StopLength | StopToken

datatype generation_event = TokenEvent u32 | Finished stop_reason usize | ErrorEvent string

type_synonym channel = nat

record pending_request =
  pr_seq_id :: u64
  pr_prompt_tokens :: "u32 list"
  pr_max_tokens :: usize
  pr_temperature :: f32
  pr_top_k :: usize
  pr_top_p :: f32
  pr_seed :: "u64 option"
  pr_stop_tokens :: "u32 list"
  pr_event_tx :: channel

record active_sequence =
  aq_seq_id :: u64
  aq_handle :: u64
  aq_max_tokens :: usize
  aq_temperature :: f32
  aq_top_k :: usize
  aq_top_p :: f32
  aq_seed :: "u64 option"
  aq_stop_tokens :: "u32 list"
  aq_current_pos :: usize
  aq_generated_tokens :: "u32 list"
  aq_event_tx :: channel
  aq_remaining_prefill :: "u32 list"

record prefill_job =
  pj_seq_id :: u64
  pj_token_ids :: "u32 list"
  pj_positions :: "u32 list"
  pj_handle :: u64

record decode_job =
  dj_seq_id :: u64
  dj_token_id :: u32
  dj_position :: u32
  dj_handle :: u64

record scheduler_decision =
  prefills :: "prefill_job list"
  decodes :: "decode_job list"
  total_tokens :: usize

record batch_scheduler =
  prefill_queue :: "pending_request list"
  active :: "u64 \<rightharpoonup> active_sequence"
  max_batch_size :: usize
  max_batch_tokens :: usize
  max_prefill_tokens :: usize
  block_pool_reserve :: f32
  bs_next_seq_id :: u64

definition new_batch_scheduler :: "usize \<Rightarrow> usize \<Rightarrow> usize \<Rightarrow> f32 \<Rightarrow> batch_scheduler" where
  "new_batch_scheduler bsize tokens prefill reserve = \<lparr>prefill_queue = [], active = Map.empty, max_batch_size = bsize,
     max_batch_tokens = tokens, max_prefill_tokens = prefill, block_pool_reserve = reserve, bs_next_seq_id = 0\<rparr>"

text \<open>\<open>+= 1\<close> on a \<open>u64\<close>; the counter does not come near its end.\<close>

definition next_seq_id :: "batch_scheduler \<Rightarrow> u64 \<times> batch_scheduler" where
  "next_seq_id s = (bs_next_seq_id s, s\<lparr>bs_next_seq_id := bs_next_seq_id s + 1\<rparr>)"

definition enqueue :: "pending_request \<Rightarrow> batch_scheduler \<Rightarrow> batch_scheduler" where
  "enqueue req s = s\<lparr>prefill_queue := prefill_queue s @ [req]\<rparr>"

definition seqs_where :: "(active_sequence \<Rightarrow> bool) \<Rightarrow> u64 list \<Rightarrow> batch_scheduler \<Rightarrow> u64 list" where
  "seqs_where P ks s = map aq_seq_id (filter P (map (\<lambda>k. the (active s k)) ks))"

definition batch_full :: "batch_scheduler \<Rightarrow> scheduler_decision \<Rightarrow> bool" where
  "batch_full s d \<longleftrightarrow> length (decodes d) + length (prefills d) \<ge> max_batch_size s"

text \<open>Step 1: the decodes.\<close>

primrec schedule_decodes :: "(channel \<Rightarrow> bool) \<Rightarrow> batch_scheduler \<Rightarrow> u64 list \<Rightarrow> scheduler_decision \<Rightarrow> scheduler_decision" where
  "schedule_decodes closed s [] d = d"
| "schedule_decodes closed s (sid # sids) d =
     (if batch_full s d then d
      else if total_tokens d \<ge> max_batch_tokens s then d
      else case active s sid of
        None \<Rightarrow> schedule_decodes closed s sids d
      | Some q \<Rightarrow>
          if closed (aq_event_tx q) then schedule_decodes closed s sids d
          else schedule_decodes closed s sids (d\<lparr>
            decodes := decodes d @ [\<lparr>dj_seq_id = sid,
              dj_token_id = (case aq_generated_tokens q of [] \<Rightarrow> 0 | ts \<Rightarrow> last ts),
              dj_position = word_of_nat (aq_current_pos q), dj_handle = aq_handle q\<rparr>],
            total_tokens := total_tokens d + 1\<rparr>))"

text \<open>Step 2: chunks of the prompts begun earlier. \<open>pt\<close> counts the prefill tokens of the iteration.\<close>

definition no_room :: "batch_scheduler \<Rightarrow> scheduler_decision \<Rightarrow> usize \<Rightarrow> bool" where
  "no_room s d pt \<longleftrightarrow> batch_full s d \<or> max_batch_tokens s - total_tokens d = 0 \<or> max_prefill_tokens s - pt = 0"

definition chunk_size :: "batch_scheduler \<Rightarrow> scheduler_decision \<Rightarrow> usize \<Rightarrow> usize \<Rightarrow> usize" where
  "chunk_size s d pt len = min (min len (max_batch_tokens s - total_tokens d)) (max_prefill_tokens s - pt)"

definition add_prefill :: "prefill_job \<Rightarrow> usize \<Rightarrow> scheduler_decision \<Rightarrow> scheduler_decision" where
  "add_prefill j n d = d\<lparr>prefills := prefills d @ [j], total_tokens := total_tokens d + n\<rparr>"

definition chunk_job :: "usize \<Rightarrow> u64 \<Rightarrow> active_sequence \<Rightarrow> prefill_job" where
  "chunk_job n sid q = (let chunk = take n (aq_remaining_prefill q); start_pos = aq_current_pos q
     in \<lparr>pj_seq_id = sid, pj_token_ids = chunk, pj_positions = map word_of_nat [start_pos..<start_pos + length chunk],
         pj_handle = aq_handle q\<rparr>)"

definition advance :: "usize \<Rightarrow> active_sequence \<Rightarrow> active_sequence" where
  "advance n q = q\<lparr>aq_remaining_prefill := drop n (aq_remaining_prefill q),
     aq_current_pos := aq_current_pos q + length (take n (aq_remaining_prefill q))\<rparr>"

primrec schedule_chunks ::
    "u64 list \<Rightarrow> batch_scheduler \<Rightarrow> scheduler_decision \<Rightarrow> usize \<Rightarrow> batch_scheduler \<times> scheduler_decision \<times> usize" where
  "schedule_chunks [] s d pt = (s, d, pt)"
| "schedule_chunks (sid # sids) s d pt =
     (if no_room s d pt then (s, d, pt)
      else case active s sid of
        None \<Rightarrow> schedule_chunks sids s d pt
      | Some q \<Rightarrow>
          let n = chunk_size s d pt (length (aq_remaining_prefill q))
          in schedule_chunks sids (s\<lparr>active := (active s)(sid \<mapsto> advance n q)\<rparr>) (add_prefill (chunk_job n sid q) n d) (pt + n))"

text \<open>Step 3: new requests, as long as their blocks are available. The queue that is left is returned beside
  the scheduler.\<close>

definition admit_sequence :: "pending_request \<Rightarrow> u64 \<Rightarrow> usize \<Rightarrow> active_sequence" where
  "admit_sequence req h n = \<lparr>aq_seq_id = pr_seq_id req, aq_handle = h, aq_max_tokens = pr_max_tokens req,
     aq_temperature = pr_temperature req, aq_top_k = pr_top_k req, aq_top_p = pr_top_p req, aq_seed = pr_seed req,
     aq_stop_tokens = pr_stop_tokens req, aq_current_pos = n, aq_generated_tokens = [],
     aq_event_tx = pr_event_tx req, aq_remaining_prefill = drop n (pr_prompt_tokens req)\<rparr>"

definition admit_job :: "pending_request \<Rightarrow> u64 \<Rightarrow> usize \<Rightarrow> prefill_job" where
  "admit_job req h n = (let chunk = take n (pr_prompt_tokens req)
     in \<lparr>pj_seq_id = pr_seq_id req, pj_token_ids = chunk, pj_positions = map word_of_nat [0..<length chunk], pj_handle = h\<rparr>)"

primrec admit_requests ::
    "usize \<Rightarrow> pending_request list \<Rightarrow> batch_scheduler \<Rightarrow> paged_manager \<Rightarrow> scheduler_decision \<Rightarrow> usize
     \<Rightarrow> (batch_scheduler \<times> pending_request list) \<times> paged_manager \<times> scheduler_decision \<times> (channel \<times> generation_event) list" where
  "admit_requests available [] s cache d pt = ((s, []), cache, d, [])"
| "admit_requests available (req # queue) s cache d pt =
     (if no_room s d pt \<or> div_ceil (length (pr_prompt_tokens req)) 16 > available then ((s, req # queue), cache, d, [])
      else case alloc_seq cache of
        (Inl e, cache') \<Rightarrow>
          (case admit_requests available queue s cache' d pt of
             (sq, c, d', evs) \<Rightarrow> (sq, c, d', (pr_event_tx req, ErrorEvent ''cache allocation failed: {e}'') # evs))
      | (Inr h, cache') \<Rightarrow>
          let n = chunk_size s d pt (length (pr_prompt_tokens req))
          in admit_requests available queue (s\<lparr>active := (active s)(pr_seq_id req \<mapsto> admit_sequence req h n)\<rparr>) cache'
               (add_prefill (admit_job req h n) n d) (pt + n))"

definition reserved_blocks :: "batch_scheduler \<Rightarrow> paged_manager \<Rightarrow> usize" where
  "reserved_blocks s cache = f32_to_usize (f32_ceil (f32_mul (f32_of_usize (capacity (pool cache))) (block_pool_reserve s)))"

definition empty_decision :: scheduler_decision where
  "empty_decision = \<lparr>prefills = [], decodes = [], total_tokens = 0\<rparr>"

definition schedule_batch ::
    "(channel \<Rightarrow> bool) \<Rightarrow> u64 list \<Rightarrow> batch_scheduler \<Rightarrow> paged_manager
     \<Rightarrow> scheduler_decision \<times> batch_scheduler \<times> paged_manager \<times> (channel \<times> generation_event) list" where
  "schedule_batch closed ks s cache =
     (let free_blocks = num_free_blocks cache;
          d1 = schedule_decodes closed s (seqs_where (\<lambda>q. aq_remaining_prefill q = []) ks s) empty_decision;
          (s2, d2, pt) = schedule_chunks (seqs_where (\<lambda>q. aq_remaining_prefill q \<noteq> []) ks s) s d1 0;
          ((s3, queue), cache', d3, evs) =
            admit_requests (free_blocks - reserved_blocks s cache) (prefill_queue s2) s2 cache d2 pt
      in (d3, s3\<lparr>prefill_queue := queue\<rparr>, cache', evs))"

subsection \<open>Clean-up\<close>

definition finished_reason :: "active_sequence \<Rightarrow> stop_reason option" where
  "finished_reason q =
     (if length (aq_generated_tokens q) \<ge> aq_max_tokens q then Some StopLength
      else if aq_generated_tokens q \<noteq> [] \<and> last (aq_generated_tokens q) \<in> set (aq_stop_tokens q) then Some StopToken
      else None)"

definition cleanup_completed ::
    "(channel \<Rightarrow> bool) \<Rightarrow> u64 list \<Rightarrow> batch_scheduler
     \<Rightarrow> (u64 \<times> u64) list \<times> batch_scheduler \<times> (channel \<times> generation_event) list" where
  "cleanup_completed closed ks s =
     (let leaving = filter (\<lambda>k. let q = the (active s k) in finished_reason q \<noteq> None \<or> closed (aq_event_tx q)) ks
      in (map (\<lambda>k. (k, aq_handle (the (active s k)))) leaving,
          s\<lparr>active := foldl (\<lambda>m k. m(k := None)) (active s) leaving\<rparr>,
          concat (map (\<lambda>k. let q = the (active s k) in case finished_reason q of
             None \<Rightarrow> [] | Some r \<Rightarrow> [(aq_event_tx q, Finished r (length (aq_generated_tokens q)))]) leaving)))"

definition has_work :: "batch_scheduler \<Rightarrow> bool" where
  "has_work s \<longleftrightarrow> prefill_queue s \<noteq> [] \<or> active s \<noteq> Map.empty"

subsection \<open>The limits of a batch\<close>

definition prefill_tokens :: "scheduler_decision \<Rightarrow> nat" where
  "prefill_tokens d = sum_list (map (\<lambda>j. length (pj_token_ids j)) (prefills d))"

text \<open>What every step keeps, with \<open>pt\<close> the prefill tokens counted so far.\<close>

definition within_limits :: "batch_scheduler \<Rightarrow> scheduler_decision \<Rightarrow> usize \<Rightarrow> bool" where
  "within_limits s d pt \<longleftrightarrow> length (decodes d) + length (prefills d) \<le> max_batch_size s
     \<and> total_tokens d = length (decodes d) + prefill_tokens d \<and> total_tokens d \<le> max_batch_tokens s
     \<and> pt = prefill_tokens d \<and> pt \<le> max_prefill_tokens s"

lemma within_limits_active [simp]: "within_limits (s\<lparr>active := a\<rparr>) = within_limits s"
  by (simp add: within_limits_def fun_eq_iff)

lemma within_decode:
  assumes "within_limits s d 0" "\<not> batch_full s d" "total_tokens d < max_batch_tokens s"
  shows "within_limits s (d\<lparr>decodes := decodes d @ [j], total_tokens := total_tokens d + 1\<rparr>) 0"
  using assms by (simp add: within_limits_def batch_full_def prefill_tokens_def)

lemma within_prefill:
  assumes "within_limits s d pt" "\<not> no_room s d pt" "length (pj_token_ids j) = chunk_size s d pt len"
  shows "within_limits s (add_prefill j (chunk_size s d pt len) d) (pt + chunk_size s d pt len)"
  using assms by (auto simp: within_limits_def no_room_def batch_full_def prefill_tokens_def add_prefill_def chunk_size_def)

lemma chunk_size_le: "chunk_size s d pt len \<le> len"
  by (simp add: chunk_size_def)

lemma length_jobs [simp]:
  "length (pj_token_ids (chunk_job n sid q)) = min (length (aq_remaining_prefill q)) n"
  "length (pj_token_ids (admit_job req h n)) = min (length (pr_prompt_tokens req)) n"
  by (simp_all add: chunk_job_def admit_job_def Let_def)

lemma decodes_within: "within_limits s d 0 \<Longrightarrow> within_limits s (schedule_decodes closed s sids d) 0"
proof (induction sids arbitrary: d)
  case (Cons sid sids)
  show ?case
  proof (cases "batch_full s d \<or> total_tokens d \<ge> max_batch_tokens s")
    case False
    then show ?thesis using Cons.IH [OF Cons.prems] Cons.IH [OF within_decode [OF Cons.prems]] by (auto split: option.splits)
  qed (use Cons.prems in auto)
qed simp

text \<open>Scheduling changes the active sequences and the queue, never the limits.\<close>

definition same_setup :: "batch_scheduler \<Rightarrow> batch_scheduler \<Rightarrow> bool" where
  "same_setup s s' \<longleftrightarrow> (\<exists>a. s' = s\<lparr>active := a\<rparr>)"

lemma same_setup_refl [simp]: "same_setup s s"
  by (auto simp: same_setup_def intro: exI [of _ "active s"])

lemma same_setup_active: "same_setup (s\<lparr>active := a\<rparr>) s' \<Longrightarrow> same_setup s s'"
  by (auto simp: same_setup_def)

lemma chunks_within:
  assumes "within_limits s d pt" and "schedule_chunks sids s d pt = (s', d', pt')"
  shows "within_limits s' d' pt' \<and> same_setup s s'"
  using assms
proof (induction sids arbitrary: s d pt)
  case (Cons sid sids)
  show ?case
  proof (cases "no_room s d pt \<or> active s sid = None")
    case True
    then show ?thesis using Cons by (auto split: if_splits)
  next
    case False
    then obtain q where q: "active s sid = Some q" by blast
    let ?n = "chunk_size s d pt (length (aq_remaining_prefill q))"
    let ?s = "s\<lparr>active := (active s)(sid \<mapsto> advance ?n q)\<rparr>"
    have r: "schedule_chunks sids ?s (add_prefill (chunk_job ?n sid q) ?n d) (pt + ?n) = (s', d', pt')"
      using Cons.prems(2) False q by (simp add: Let_def)
    have w: "within_limits s (add_prefill (chunk_job ?n sid q) ?n d) (pt + ?n)"
      by (rule within_prefill [OF Cons.prems(1)]) (use False chunk_size_le [of s d pt "length (aq_remaining_prefill q)"] in auto)
    show ?thesis using Cons.IH [OF _ r] w same_setup_active by auto
  qed
qed auto

lemma admit_within:
  assumes "within_limits s d pt" and "admit_requests available queue s cache d pt = ((s', queue'), cache', d', evs)"
  shows "\<exists>pt'. within_limits s d' pt'"
  using assms
proof (induction queue arbitrary: s cache d pt evs)
  case (Cons req queue)
  obtain r cache1 where a: "alloc_seq cache = (r, cache1)" by fastforce
  let ?n = "chunk_size s d pt (length (pr_prompt_tokens req))"
  show ?case
  proof (cases "no_room s d pt \<or> div_ceil (length (pr_prompt_tokens req)) 16 > available")
    case True
    then show ?thesis using Cons.prems by auto
  next
    case False
    show ?thesis
    proof (cases r)
      case (Inl e)
      obtain sq c d1 evs1 where "admit_requests available queue s cache1 d pt = (sq, c, d1, evs1)" using prod_cases4 by blast
      then have "admit_requests available queue s cache1 d pt = ((s', queue'), cache', d', evs1)"
        using Cons.prems(2) False a Inl by simp
      then show ?thesis by (rule Cons.IH [OF Cons.prems(1)])
    next
      case (Inr h)
      let ?s = "s\<lparr>active := (active s)(pr_seq_id req \<mapsto> admit_sequence req h ?n)\<rparr>"
      have r: "admit_requests available queue ?s cache1 (add_prefill (admit_job req h ?n) ?n d) (pt + ?n) = ((s', queue'), cache', d', evs)"
        using Cons.prems(2) False a Inr by (simp add: Let_def)
      have w: "within_limits s (add_prefill (admit_job req h ?n) ?n d) (pt + ?n)"
        by (rule within_prefill [OF Cons.prems(1)]) (use False chunk_size_le [of s d pt "length (pr_prompt_tokens req)"] in auto)
      show ?thesis using Cons.IH [OF _ r] w by simp
    qed
  qed
qed auto

subsection \<open>What a job does to its sequence\<close>

text \<open>A job continues a prompt, or begins one.\<close>

definition continues :: "active_sequence \<Rightarrow> active_sequence \<Rightarrow> prefill_job \<Rightarrow> bool" where
  "continues q q' j \<longleftrightarrow> pj_token_ids j @ aq_remaining_prefill q' = aq_remaining_prefill q
     \<and> aq_current_pos q' = aq_current_pos q + length (pj_token_ids j)
     \<and> pj_positions j = map word_of_nat [aq_current_pos q..<aq_current_pos q'] \<and> pj_handle j = aq_handle q \<and> aq_handle q' = aq_handle q"

definition begins :: "pending_request \<Rightarrow> active_sequence \<Rightarrow> prefill_job \<Rightarrow> bool" where
  "begins req q' j \<longleftrightarrow> pj_seq_id j = pr_seq_id req \<and> pj_token_ids j @ aq_remaining_prefill q' = pr_prompt_tokens req
     \<and> aq_current_pos q' = length (pj_token_ids j)
     \<and> pj_positions j = map word_of_nat [0..<aq_current_pos q'] \<and> pj_handle j = aq_handle q'"

lemma chunk_job_continues: "continues q (advance n q) (chunk_job n sid q)"
  by (simp add: continues_def advance_def chunk_job_def Let_def)

lemma admit_job_begins: "n \<le> length (pr_prompt_tokens req) \<Longrightarrow> begins req (admit_sequence req h n) (admit_job req h n)"
  by (simp add: begins_def admit_sequence_def admit_job_def Let_def)

text \<open>The jobs \<open>js\<close> are the only changes between two states of the active sequences.\<close>

definition jobs_done :: "(u64 \<Rightarrow> active_sequence \<Rightarrow> prefill_job \<Rightarrow> bool) \<Rightarrow> (u64 \<rightharpoonup> active_sequence) \<Rightarrow> (u64 \<rightharpoonup> active_sequence)
    \<Rightarrow> prefill_job list \<Rightarrow> bool" where
  "jobs_done P a a' js \<longleftrightarrow> distinct (map pj_seq_id js)
     \<and> (\<forall>j \<in> set js. \<exists>q'. a' (pj_seq_id j) = Some q' \<and> P (pj_seq_id j) q' j)
     \<and> (\<forall>sid. sid \<notin> pj_seq_id ` set js \<longrightarrow> a' sid = a sid)"

lemma jobs_done_Nil [simp]: "jobs_done P a a []"
  by (simp add: jobs_done_def)

lemma jobs_done_Cons:
  assumes "jobs_done P (a(pj_seq_id j \<mapsto> q')) a' js" "P (pj_seq_id j) q' j" "pj_seq_id j \<notin> pj_seq_id ` set js"
  shows "jobs_done P a a' (j # js)"
  using assms by (auto simp: jobs_done_def)

lemma chunks_jobs:
  assumes "schedule_chunks sids s d pt = (s', d', pt')" and "distinct sids"
    and "\<forall>sid \<in> set sids. active s sid = a0 sid"
  shows "\<exists>js. prefills d' = prefills d @ js \<and> decodes d' = decodes d \<and> pj_seq_id ` set js \<subseteq> set sids
    \<and> jobs_done (\<lambda>sid q' j. \<exists>q. a0 sid = Some q \<and> continues q q' j) (active s) (active s') js"
  using assms
proof (induction sids arbitrary: s d pt)
  case (Cons sid sids)
  show ?case
  proof (cases "no_room s d pt \<or> active s sid = None")
    case True
    show ?thesis
    proof (cases "no_room s d pt")
      case True
      then show ?thesis using Cons.prems(1) by (intro exI [of _ "[]"]) simp
    next
      case False
      then have "schedule_chunks sids s d pt = (s', d', pt')" using Cons.prems(1) True by simp
      from Cons.IH [OF this] show ?thesis using Cons.prems(2,3) by fastforce
    qed
  next
    case False
    then obtain q where q: "active s sid = Some q" by blast
    let ?n = "chunk_size s d pt (length (aq_remaining_prefill q))"
    let ?s = "s\<lparr>active := (active s)(sid \<mapsto> advance ?n q)\<rparr>" and ?j = "chunk_job ?n sid q"
    have r: "schedule_chunks sids ?s (add_prefill ?j ?n d) (pt + ?n) = (s', d', pt')"
      using Cons.prems(1) False q by (simp add: Let_def)
    have "distinct sids" "sid \<notin> set sids" "\<forall>x \<in> set sids. active ?s x = a0 x" using Cons.prems(2,3) by auto
    then obtain js where js: "prefills d' = prefills (add_prefill ?j ?n d) @ js" "decodes d' = decodes (add_prefill ?j ?n d)"
      "pj_seq_id ` set js \<subseteq> set sids"
      "jobs_done (\<lambda>sid q' j. \<exists>q. a0 sid = Some q \<and> continues q q' j) (active ?s) (active s') js"
      using Cons.IH [OF r] by blast
    have id: "pj_seq_id ?j = sid" by (simp add: chunk_job_def Let_def)
    have a0: "a0 sid = Some q" using q Cons.prems(3) by simp
    have "jobs_done (\<lambda>sid q' j. \<exists>q. a0 sid = Some q \<and> continues q q' j) (active s) (active s') (?j # js)"
      by (rule jobs_done_Cons [where q' = "advance ?n q"]) (use js(3,4) id a0 \<open>sid \<notin> set sids\<close> chunk_job_continues in auto)
    moreover have "prefills d' = prefills d @ ?j # js" "decodes d' = decodes d" using js(1,2) by (simp_all add: add_prefill_def)
    moreover have "pj_seq_id ` set (?j # js) \<subseteq> set (sid # sids)" using js(3) id by auto
    ultimately show ?thesis by blast
  qed
qed simp

lemma admit_jobs:
  assumes "admit_requests available queue s cache d pt = ((s', queue'), cache', d', evs)" and "distinct (map pr_seq_id queue)"
    and "set queue \<subseteq> Q"
  shows "\<exists>js. prefills d' = prefills d @ js \<and> decodes d' = decodes d \<and> pj_seq_id ` set js \<subseteq> pr_seq_id ` set queue
    \<and> jobs_done (\<lambda>sid q' j. \<exists>req \<in> Q. begins req q' j) (active s) (active s') js"
  using assms
proof (induction queue arbitrary: s cache d pt evs)
  case (Cons req queue)
  obtain r cache1 where a: "alloc_seq cache = (r, cache1)" by fastforce
  let ?n = "chunk_size s d pt (length (pr_prompt_tokens req))"
  have rest: "distinct (map pr_seq_id queue)" "pr_seq_id req \<notin> pr_seq_id ` set queue" "set queue \<subseteq> Q" "req \<in> Q" using Cons.prems(2,3) by auto
  show ?case
  proof (cases "no_room s d pt \<or> div_ceil (length (pr_prompt_tokens req)) 16 > available")
    case True
    then show ?thesis using Cons.prems(1) by (intro exI [of _ "[]"]) auto
  next
    case False
    show ?thesis
    proof (cases r)
      case (Inl e)
      obtain sq c d1 evs1 where "admit_requests available queue s cache1 d pt = (sq, c, d1, evs1)" using prod_cases4 by blast
      then have "admit_requests available queue s cache1 d pt = ((s', queue'), cache', d', evs1)"
        using Cons.prems(1) False a Inl by simp
      from Cons.IH [OF this rest(1,3)] show ?thesis by fastforce
    next
      case (Inr h)
      let ?q = "admit_sequence req h ?n" and ?j = "admit_job req h ?n"
      let ?s = "s\<lparr>active := (active s)(pr_seq_id req \<mapsto> ?q)\<rparr>"
      have r: "admit_requests available queue ?s cache1 (add_prefill ?j ?n d) (pt + ?n) = ((s', queue'), cache', d', evs)"
        using Cons.prems(1) False a Inr by (simp add: Let_def)
      obtain js where js: "prefills d' = prefills (add_prefill ?j ?n d) @ js" "decodes d' = decodes (add_prefill ?j ?n d)"
        "pj_seq_id ` set js \<subseteq> pr_seq_id ` set queue"
        "jobs_done (\<lambda>sid q' j. \<exists>req \<in> Q. begins req q' j) (active ?s) (active s') js"
        using Cons.IH [OF r rest(1,3)] by blast
      have id: "pj_seq_id ?j = pr_seq_id req" by (simp add: admit_job_def Let_def)
      have "begins req ?q ?j" by (rule admit_job_begins [OF chunk_size_le])
      then have "jobs_done (\<lambda>sid q' j. \<exists>req \<in> Q. begins req q' j) (active s) (active s') (?j # js)"
        by (intro jobs_done_Cons [where q' = ?q]) (use js(3,4) id rest in auto)
      moreover have "prefills d' = prefills d @ ?j # js" "decodes d' = decodes d" using js(1,2) by (simp_all add: add_prefill_def)
      moreover have "pj_seq_id ` set (?j # js) \<subseteq> pr_seq_id ` set (req # queue)" using js(3) id by auto
      ultimately show ?thesis by blast
    qed
  qed
qed simp

lemma decode_jobs:
  "\<exists>js. decodes (schedule_decodes closed s sids d) = decodes d @ js \<and> prefills (schedule_decodes closed s sids d) = prefills d
    \<and> (\<forall>j \<in> set js. dj_seq_id j \<in> set sids \<and> (\<exists>q. active s (dj_seq_id j) = Some q \<and> \<not> closed (aq_event_tx q)
         \<and> dj_position j = word_of_nat (aq_current_pos q) \<and> dj_handle j = aq_handle q))"
proof (induction sids arbitrary: d)
  case (Cons sid sids)
  show ?case
  proof (cases "batch_full s d \<or> total_tokens d \<ge> max_batch_tokens s \<or> (\<forall>q. active s sid = Some q \<longrightarrow> closed (aq_event_tx q))")
    case True
    then have "schedule_decodes closed s (sid # sids) d = d \<or> schedule_decodes closed s (sid # sids) d = schedule_decodes closed s sids d"
      by (cases "active s sid") auto
    then show ?thesis
    proof
      assume "schedule_decodes closed s (sid # sids) d = d"
      then show ?thesis by (intro exI [of _ "[]"]) simp
    next
      assume skip: "schedule_decodes closed s (sid # sids) d = schedule_decodes closed s sids d"
      show ?thesis unfolding skip using Cons.IH [of d] by fastforce
    qed
  next
    case False
    then obtain q where q: "active s sid = Some q" "\<not> closed (aq_event_tx q)" by blast
    let ?j = "\<lparr>dj_seq_id = sid, dj_token_id = (case aq_generated_tokens q of [] \<Rightarrow> 0 | ts \<Rightarrow> last ts),
      dj_position = word_of_nat (aq_current_pos q), dj_handle = aq_handle q\<rparr>"
    let ?d = "d\<lparr>decodes := decodes d @ [?j], total_tokens := total_tokens d + 1\<rparr>"
    have step: "schedule_decodes closed s (sid # sids) d = schedule_decodes closed s sids ?d" using False q by simp
    obtain js where js: "decodes (schedule_decodes closed s sids ?d) = decodes ?d @ js"
      "prefills (schedule_decodes closed s sids ?d) = prefills ?d"
      "\<forall>j \<in> set js. dj_seq_id j \<in> set sids \<and> (\<exists>q. active s (dj_seq_id j) = Some q \<and> \<not> closed (aq_event_tx q)
         \<and> dj_position j = word_of_nat (aq_current_pos q) \<and> dj_handle j = aq_handle q)"
      using Cons.IH [of ?d] by blast
    show ?thesis unfolding step by (intro exI [of _ "?j # js"]) (use js q in auto)
  qed
qed simp

subsection \<open>A scheduler between iterations\<close>

text \<open>Sequences are filed under their ids, and a waiting request has an id of its own.\<close>

definition batch_ok :: "batch_scheduler \<Rightarrow> bool" where
  "batch_ok s \<longleftrightarrow> (\<forall>sid q. active s sid = Some q \<longrightarrow> aq_seq_id q = sid) \<and> distinct (map pr_seq_id (prefill_queue s))
     \<and> pr_seq_id ` set (prefill_queue s) \<inter> dom (active s) = {}"

lemma seqs_where_filter:
  assumes "batch_ok s" "lists_keys ks (active s)"
  shows "seqs_where P ks s = filter (\<lambda>k. P (the (active s k))) ks"
proof -
  have id: "aq_seq_id (the (active s k)) = k" if "k \<in> set ks" for k
    using that assms by (fastforce simp: batch_ok_def lists_keys_def)
  have "map (\<lambda>k. aq_seq_id (the (active s k))) (filter (\<lambda>k. P (the (active s k))) ks) = filter (\<lambda>k. P (the (active s k))) ks"
    by (rule map_idI) (use id in auto)
  then show ?thesis by (simp add: seqs_where_def filter_map comp_def)
qed

lemma scheduled:
  assumes "schedule_batch closed ks s cache = (d, s', cache', evs)"
  obtains d1 s2 d2 pt s3 queue where
    "d1 = schedule_decodes closed s (seqs_where (\<lambda>q. aq_remaining_prefill q = []) ks s) empty_decision"
    "schedule_chunks (seqs_where (\<lambda>q. aq_remaining_prefill q \<noteq> []) ks s) s d1 0 = (s2, d2, pt)"
    "admit_requests (num_free_blocks cache - reserved_blocks s cache) (prefill_queue s2) s2 cache d2 pt = ((s3, queue), cache', d, evs)"
    "s' = s3\<lparr>prefill_queue := queue\<rparr>"
proof -
  let ?d1 = "schedule_decodes closed s (seqs_where (\<lambda>q. aq_remaining_prefill q = []) ks s) empty_decision"
  obtain s2 d2 pt where c: "schedule_chunks (seqs_where (\<lambda>q. aq_remaining_prefill q \<noteq> []) ks s) s ?d1 0 = (s2, d2, pt)"
    using prod_cases3 by blast
  obtain sq c3 d3 evs3 where a: "admit_requests (num_free_blocks cache - reserved_blocks s cache) (prefill_queue s2) s2 cache d2 pt
      = (sq, c3, d3, evs3)" using prod_cases4 by blast
  have "(d3, (fst sq)\<lparr>prefill_queue := snd sq\<rparr>, c3, evs3) = (d, s', cache', evs)"
    using assms unfolding schedule_batch_def Let_def c prod.case a by (cases sq) simp
  then show thesis using that [OF refl c, of "fst sq" "snd sq"] a by simp
qed

lemma empty_within: "within_limits s empty_decision 0"
  by (simp add: within_limits_def empty_decision_def prefill_tokens_def)

subsection \<open>A small engine\<close>

definition request :: "u64 \<Rightarrow> nat \<Rightarrow> pending_request" where
  "request sid n = \<lparr>pr_seq_id = sid, pr_prompt_tokens = replicate n 7, pr_max_tokens = 4, pr_temperature = 0, pr_top_k = 0, pr_top_p = 0,
     pr_seed = None, pr_stop_tokens = [], pr_event_tx = 0\<rparr>"

definition small_cache :: paged_manager where
  "small_cache = \<lparr>pool = \<lparr>k_blocks = [], v_blocks = [], free_list = [0, 1], capacity = 2, pool_layers = 0, pool_kv_heads = 1,
     pool_head_dim = 1\<rparr>, sequences = Map.empty, next_id = 0\<rparr>"

definition busy :: batch_scheduler where
  "busy = (new_batch_scheduler 8 64 20 0)\<lparr>active := [1 \<mapsto> admit_sequence (request 1 24) 9 4], prefill_queue := [request 2 8]\<rparr>"

lemma busy_ok: "batch_ok busy" "lists_keys [1] (active busy)"
  by (auto simp: batch_ok_def busy_def new_batch_scheduler_def admit_sequence_def request_def lists_keys_def split: if_splits)

subsection \<open>Properties\<close>

text \<open>C37: a batch never exceeds its limits: the number of sequences, the tokens of the pass, of which a
  decode takes one and a prefill as many as its chunk has, and the prefill tokens.\<close>

theorem batch_within_limits:
  assumes "schedule_batch closed ks s cache = (d, s', cache', evs)"
  shows "length (decodes d) + length (prefills d) \<le> max_batch_size s
    \<and> total_tokens d = length (decodes d) + prefill_tokens d \<and> total_tokens d \<le> max_batch_tokens s
    \<and> prefill_tokens d \<le> max_prefill_tokens s"
  using assms
proof (rule scheduled)
  fix d1 s2 d2 pt s3 queue
  assume d1: "d1 = schedule_decodes closed s (seqs_where (\<lambda>q. aq_remaining_prefill q = []) ks s) empty_decision"
    and c: "schedule_chunks (seqs_where (\<lambda>q. aq_remaining_prefill q \<noteq> []) ks s) s d1 0 = (s2, d2, pt)"
    and a: "admit_requests (num_free_blocks cache - reserved_blocks s cache) (prefill_queue s2) s2 cache d2 pt = ((s3, queue), cache', d, evs)"
  have "within_limits s d1 0" unfolding d1 by (rule decodes_within [OF empty_within])
  from chunks_within [OF this c] have w: "within_limits s2 d2 pt" "same_setup s s2" by simp_all
  from admit_within [OF w(1) a] w(2) obtain pt' where "within_limits s d pt'" by (auto simp: same_setup_def)
  then show ?thesis by (simp add: within_limits_def)
qed

theorem batch_within_limits_witness:
  "\<exists>d s' cache' evs. schedule_batch (\<lambda>_. False) [1] busy small_cache = (d, s', cache', evs) \<and> total_tokens d \<le> 64"
proof -
  obtain d s' cache' evs where b: "schedule_batch (\<lambda>_. False) [1] busy small_cache = (d, s', cache', evs)" using prod_cases4 by blast
  have "max_batch_tokens busy = 64" by (simp add: busy_def new_batch_scheduler_def)
  with batch_within_limits [OF b] b show ?thesis by auto
qed

text \<open>C12: prompts are prefilled in order and without loss: every prefill job takes the next tokens of one
  prompt at the positions that follow those already done, into the cache of that sequence, whether it
  continues a prompt or begins one; other sequences stay as they are, and only sequences whose prompt is
  done are decoded.\<close>

theorem prefill_in_order:
  assumes "batch_ok s" and "lists_keys ks (active s)" and "schedule_batch closed ks s cache = (d, s', cache', evs)"
  shows "(\<forall>j \<in> set (prefills d). \<exists>q'. active s' (pj_seq_id j) = Some q'
           \<and> ((\<exists>q. active s (pj_seq_id j) = Some q \<and> continues q q' j) \<or> (\<exists>req \<in> set (prefill_queue s). begins req q' j)))
    \<and> distinct (map pj_seq_id (prefills d))
    \<and> (\<forall>sid. sid \<notin> pj_seq_id ` set (prefills d) \<longrightarrow> active s' sid = active s sid)
    \<and> (\<forall>j \<in> set (decodes d). \<exists>q. active s (dj_seq_id j) = Some q \<and> aq_remaining_prefill q = [] \<and> \<not> closed (aq_event_tx q)
         \<and> dj_position j = word_of_nat (aq_current_pos q) \<and> dj_handle j = aq_handle q)"
  using assms(3)
proof (rule scheduled)
  fix d1 s2 d2 pt s3 queue
  let ?dec = "seqs_where (\<lambda>q. aq_remaining_prefill q = []) ks s" and ?chk = "seqs_where (\<lambda>q. aq_remaining_prefill q \<noteq> []) ks s"
  assume d1: "d1 = schedule_decodes closed s ?dec empty_decision"
    and c: "schedule_chunks ?chk s d1 0 = (s2, d2, pt)"
    and a: "admit_requests (num_free_blocks cache - reserved_blocks s cache) (prefill_queue s2) s2 cache d2 pt = ((s3, queue), cache', d, evs)"
    and s': "s' = s3\<lparr>prefill_queue := queue\<rparr>"
  have "within_limits s d1 0" unfolding d1 by (rule decodes_within [OF empty_within])
  from chunks_within [OF this c] have q2: "prefill_queue s2 = prefill_queue s" by (auto simp: same_setup_def)
  have chk: "distinct ?chk" "set ?chk \<subseteq> dom (active s)"
    using assms(2) by (auto simp: seqs_where_filter [OF assms(1,2)] lists_keys_def)
  have "\<forall>sid \<in> set ?chk. active s sid = active s sid" by simp
  from chunks_jobs [OF c chk(1) this] obtain js1 where 1: "prefills d2 = prefills d1 @ js1" "decodes d2 = decodes d1"
    "pj_seq_id ` set js1 \<subseteq> set ?chk"
    "jobs_done (\<lambda>sid q' j. \<exists>q. active s sid = Some q \<and> continues q q' j) (active s) (active s2) js1" by (elim exE conjE)
  have "distinct (map pr_seq_id (prefill_queue s2))" using assms(1) by (simp add: q2 batch_ok_def)
  from admit_jobs [OF a this order_refl] obtain js2 where 2: "prefills d = prefills d2 @ js2" "decodes d = decodes d2"
    "pj_seq_id ` set js2 \<subseteq> pr_seq_id ` set (prefill_queue s)"
    "jobs_done (\<lambda>sid q' j. \<exists>req \<in> set (prefill_queue s). begins req q' j) (active s2) (active s3) js2"
    unfolding q2 by (elim exE conjE)
  from decode_jobs [of closed s ?dec empty_decision] obtain djs where 3: "decodes d1 = djs" "prefills d1 = []"
    "\<forall>j \<in> set djs. dj_seq_id j \<in> set ?dec \<and> (\<exists>q. active s (dj_seq_id j) = Some q
      \<and> \<not> closed (aq_event_tx q) \<and> dj_position j = word_of_nat (aq_current_pos q) \<and> dj_handle j = aq_handle q)"
    unfolding d1 [symmetric] by (elim exE conjE) (simp add: empty_decision_def)
  have ids: "pj_seq_id ` set js1 \<subseteq> dom (active s)" using 1(3) chk(2) by (rule order_trans)
  have disj: "pj_seq_id ` set js1 \<inter> pj_seq_id ` set js2 = {}" using ids 2(3) assms(1) unfolding batch_ok_def by blast
  have p: "prefills d = js1 @ js2" using 1(1) 2(1) 3(2) by simp
  have done1: "\<exists>q'. active s3 (pj_seq_id j) = Some q' \<and> (\<exists>q. active s (pj_seq_id j) = Some q \<and> continues q q' j)" if "j \<in> set js1" for j
  proof -
    have "pj_seq_id j \<notin> pj_seq_id ` set js2" using disj that by blast
    then have "active s3 (pj_seq_id j) = active s2 (pj_seq_id j)" using 2(4) by (simp add: jobs_done_def)
    then show ?thesis using 1(4) that by (simp add: jobs_done_def)
  qed
  have done2: "\<exists>q'. active s3 (pj_seq_id j) = Some q' \<and> (\<exists>req \<in> set (prefill_queue s). begins req q' j)" if "j \<in> set js2" for j
    using 2(4) that by (simp add: jobs_done_def)
  have dist: "distinct (map pj_seq_id (prefills d))" using 1(4) 2(4) disj by (simp add: p jobs_done_def)
  have other: "active s3 sid = active s sid" if "sid \<notin> pj_seq_id ` set (prefills d)" for sid
    using 1(4) 2(4) that by (simp add: p jobs_done_def image_Un)
  have dec: "\<exists>q. active s (dj_seq_id j) = Some q \<and> aq_remaining_prefill q = [] \<and> \<not> closed (aq_event_tx q)
      \<and> dj_position j = word_of_nat (aq_current_pos q) \<and> dj_handle j = aq_handle q" if "j \<in> set (decodes d)" for j
  proof -
    have "j \<in> set djs" using that 3(1) 1(2) 2(2) by simp
    with 3(3) obtain q where q: "dj_seq_id j \<in> set ?dec" "active s (dj_seq_id j) = Some q" "\<not> closed (aq_event_tx q)"
      "dj_position j = word_of_nat (aq_current_pos q)" "dj_handle j = aq_handle q" by blast
    then have "aq_remaining_prefill q = []" by (simp add: seqs_where_filter [OF assms(1,2)])
    then show ?thesis using q by simp
  qed
  have "\<exists>q'. active s' (pj_seq_id j) = Some q'
      \<and> ((\<exists>q. active s (pj_seq_id j) = Some q \<and> continues q q' j) \<or> (\<exists>req \<in> set (prefill_queue s). begins req q' j))"
    if "j \<in> set (prefills d)" for j
    using that done1 [of j] done2 [of j] by (auto simp: p s')
  then show ?thesis using dist other dec by (simp add: s')
qed

theorem prefill_in_order_witness:
  "\<exists>d s' cache' evs. schedule_batch (\<lambda>_. False) [1] busy small_cache = (d, s', cache', evs)
     \<and> (\<forall>j \<in> set (prefills d). \<exists>q'. active s' (pj_seq_id j) = Some q') \<and> distinct (map pj_seq_id (prefills d))"
proof -
  obtain d s' cache' evs where b: "schedule_batch (\<lambda>_. False) [1] busy small_cache = (d, s', cache', evs)" using prod_cases4 by blast
  from prefill_in_order [OF busy_ok b] b show ?thesis by blast
qed


end
