(* ===== verification/Sampler.thy ===== *)
theory Sampler
  imports F32 Core "HOL-Library.Multiset" "HOL-Library.Product_Lexorder"
begin

text \<open>
  Token selection, \<open>fracture-generate/src/sampling.rs\<close>. The exponential, whose precision Rust leaves to the
  platform, and the random generator (\<open>rand\<close>) are parameters: \<open>fexp\<close>, \<open>seeded\<close> for the first draw of a
  generator with a given seed, and \<open>fresh\<close> for a draw without one.
\<close>

record sampling_params =
  sp_temperature :: f32
  sp_top_k :: usize
  sp_top_p :: f32
  sp_seed :: "u64 option"

definition default_sampling_params :: sampling_params where
  "default_sampling_params = \<lparr>sp_temperature = f32_one, sp_top_k = 0, sp_top_p = f32_one, sp_seed = None\<rparr>"

definition f32_cmp :: "f32 \<Rightarrow> f32 \<Rightarrow> ordering" where
  "f32_cmp a b = (case f32_partial_cmp a b of
      Some c \<Rightarrow> c
    | None \<Rightarrow> if f32_is_nan a \<and> f32_is_nan b then Equal else if f32_is_nan a then Less else Greater)"

text \<open>\<open>slice::sort_by\<close> is stable.\<close>

fun insert_by :: "('a \<Rightarrow> 'a \<Rightarrow> ordering) \<Rightarrow> 'a \<Rightarrow> 'a list \<Rightarrow> 'a list" where
  "insert_by cmp x [] = [x]"
| "insert_by cmp x (y # ys) = (if cmp x y = Greater then y # insert_by cmp x ys else x # y # ys)"

definition sort_by :: "('a \<Rightarrow> 'a \<Rightarrow> ordering) \<Rightarrow> 'a list \<Rightarrow> 'a list" where
  "sort_by cmp xs = foldr (insert_by cmp) xs []"

definition f32_sub :: "f32 \<Rightarrow> f32 \<Rightarrow> f32" where
  "f32_sub a b = (if f32_is_nan b then b else f32_add a (b + 0x80000000))"

definition f32_sum :: "f32 list \<Rightarrow> f32" where
  "f32_sum xs = foldl f32_add 0x80000000 xs"

definition scale_logits :: "f32 \<Rightarrow> f32 list \<Rightarrow> f32 list" where
  "scale_logits temperature logits = map (\<lambda>l. f32_div l temperature) logits"

definition top_k_indices :: "usize \<Rightarrow> f32 list \<Rightarrow> usize list" where
  "top_k_indices k scaled =
     (if k > 0 \<and> k < length scaled
      then take k (sort_by (\<lambda>a b. f32_cmp (scaled ! b) (scaled ! a)) [0..<length scaled])
      else [0..<length scaled])"

definition softmax :: "(f32 \<Rightarrow> f32) \<Rightarrow> f32 list \<Rightarrow> f32 list" where
  "softmax fexp xs =
     (let max_val = foldl f32_max 0xFF800000 xs;
          exps = map (\<lambda>x. fexp (f32_sub x max_val)) xs;
          s = f32_sum exps
      in map (\<lambda>e. f32_div e s) exps)"

text \<open>How many of the sorted candidates top-p keeps.\<close>

fun top_p_cutoff :: "f32 \<Rightarrow> f32 list \<Rightarrow> usize list \<Rightarrow> nat \<Rightarrow> f32 \<Rightarrow> nat \<Rightarrow> nat" where
  "top_p_cutoff top_p probs [] i cumulative cutoff = cutoff"
| "top_p_cutoff top_p probs (si # sis) i cumulative cutoff =
     (let c = f32_add cumulative (probs ! si)
      in if f32_lt top_p c then i + 1 else top_p_cutoff top_p probs sis (i + 1) c cutoff)"

definition top_p_filter :: "f32 \<Rightarrow> f32 list \<Rightarrow> usize list" where
  "top_p_filter top_p probs =
     (let sorted_indices = sort_by (\<lambda>a b. f32_cmp (probs ! b) (probs ! a)) [0..<length probs];
          cutoff = (if f32_lt top_p f32_one then top_p_cutoff top_p probs sorted_indices 0 f32_zero (length sorted_indices)
                    else length sorted_indices)
      in take cutoff sorted_indices)"

text \<open>The walk to the drawn value; the last candidate when it is never reached.\<close>

fun pick :: "f32 list \<Rightarrow> f32 \<Rightarrow> usize list \<Rightarrow> f32 \<Rightarrow> usize option" where
  "pick probs r [] acc = None"
| "pick probs r (i # is) acc = (let a = f32_add acc (probs ! i) in if f32_le r a then Some i else pick probs r is a)"

definition sample :: "(f32 \<Rightarrow> f32) \<Rightarrow> (u64 \<Rightarrow> f32) \<Rightarrow> f32 \<Rightarrow> f32 list \<Rightarrow> sampling_params \<Rightarrow> u32 result" where
  "sample fexp seeded fresh logits params =
     (if logits = [] then Inl (Generation ''empty logits'')
      else if \<exists>l \<in> set logits. f32_is_nan l then Inl (Generation ''NaN in logits'')
      else if \<exists>l \<in> set logits. f32_is_infinite l then Inl (Generation ''Inf in logits'')
      else if f32_eq (sp_temperature params) f32_zero \<or> sp_top_k params = 1
      then Inr (word_of_nat (fst (the (max_by (\<lambda>(_, a) (_, b). f32_cmp a b) (enum logits)))))
      else
        let scaled = scale_logits (sp_temperature params) logits;
            indices = top_k_indices (sp_top_k params) scaled;
            probs = softmax fexp (map (\<lambda>i. scaled ! i) indices);
            filtered = top_p_filter (sp_top_p params) probs;
            filtered_sum = f32_sum (map (\<lambda>i. probs ! i) filtered);
            r = f32_mul (case sp_seed params of Some seed \<Rightarrow> seeded seed | None \<Rightarrow> fresh) filtered_sum
        in Inr (word_of_nat (indices ! (case pick probs r filtered f32_zero of Some i \<Rightarrow> i | None \<Rightarrow> last filtered))))"

subsection \<open>Sorting by a comparator\<close>

lemma mset_insert_by: "mset (insert_by cmp x xs) = add_mset x (mset xs)"
  by (induction xs) simp_all

lemma mset_sort_by [simp]: "mset (sort_by cmp xs) = mset xs"
  unfolding sort_by_def by (induction xs) (simp_all add: mset_insert_by)

lemma sort_by_facts [simp]:
  "length (sort_by cmp xs) = length xs" "set (sort_by cmp xs) = set xs" "distinct (sort_by cmp xs) = distinct xs"
  using mset_sort_by [of cmp xs] by (metis size_mset, metis set_mset_mset, metis mset_eq_imp_distinct_iff)

lemma sort_by_Nil_iff [simp]: "sort_by cmp xs = [] \<longleftrightarrow> xs = []"
  by (metis sort_by_facts(1) length_0_conv)

text \<open>A comparator orders by \<open>P\<close> when it says \<open>Greater\<close> exactly where \<open>P\<close> fails.\<close>

definition orders :: "('a \<Rightarrow> 'a \<Rightarrow> bool) \<Rightarrow> ('a \<Rightarrow> 'a \<Rightarrow> ordering) \<Rightarrow> bool" where
  "orders P cmp \<longleftrightarrow> (\<forall>x y. cmp x y = Greater \<longleftrightarrow> \<not> P x y) \<and> (\<forall>x y. P x y \<or> P y x) \<and> (\<forall>x y z. P x y \<longrightarrow> P y z \<longrightarrow> P x z)"

lemma set_insert_by: "set (insert_by cmp x xs) = insert x (set xs)"
  by (induction xs) auto

lemma sorted_insert_by: "orders P cmp \<Longrightarrow> sorted_wrt P xs \<Longrightarrow> sorted_wrt P (insert_by cmp x xs)"
proof (induction xs)
  case (Cons y ys)
  have o: "\<And>a b. cmp a b = Greater \<longleftrightarrow> \<not> P a b" "\<And>a b. P a b \<or> P b a" "\<And>a b c. P a b \<Longrightarrow> P b c \<Longrightarrow> P a c"
    using Cons.prems(1) unfolding orders_def by blast+
  show ?case
  proof (cases "P x y")
    case True
    then show ?thesis using Cons.prems(2) o(1,3) by auto
  next
    case False
    then have "P y x" using o(2) by blast
    then show ?thesis using Cons False o(1) by (auto simp: set_insert_by)
  qed
qed simp

lemma sorted_sort_by: "orders P cmp \<Longrightarrow> sorted_wrt P (sort_by cmp xs)"
  unfolding sort_by_def by (induction xs) (simp_all add: sorted_insert_by)

text \<open>NaN is below every number.\<close>

definition cmp_key :: "f32 \<Rightarrow> bool \<times> int" where
  "cmp_key a = (\<not> f32_is_nan a, fkey (unpack a))"

lemma f32_cmp_key: "f32_cmp a b = (if cmp_key a < cmp_key b then Less else if cmp_key a = cmp_key b then Equal else Greater)"
  by (auto simp: f32_cmp_def f32_partial_cmp_def cmp_key_def f32_lt_def f32_is_nan_def)

lemma orders_descending: "orders (\<lambda>a b. cmp_key (xs ! b) \<le> cmp_key (xs ! a)) (\<lambda>a b. f32_cmp (xs ! b) (xs ! a))"
  by (auto simp: orders_def f32_cmp_key)

subsection \<open>The greedy choice\<close>

lemma max_by_last_greatest:
  assumes "xs \<noteq> []"
  shows "\<exists>i. max_by (\<lambda>(_, a) (_, b). f32_cmp a b) (enum xs) = Some (i, xs ! i) \<and> i < length xs
    \<and> (\<forall>j < length xs. cmp_key (xs ! j) \<le> cmp_key (xs ! i) \<and> (i < j \<longrightarrow> cmp_key (xs ! j) < cmp_key (xs ! i)))"
  using assms
proof (induction xs rule: rev_induct)
  case (snoc x xs)
  have e: "enum (xs @ [x]) = enum xs @ [(length xs, x)]" by (simp add: enum_def)
  show ?case
  proof (cases xs)
    case Nil
    then show ?thesis by (simp add: enum_def max_by_def)
  next
    case (Cons y ys)
    then obtain i where i: "max_by (\<lambda>(_, a) (_, b). f32_cmp a b) (enum xs) = Some (i, xs ! i)" "i < length xs"
      "\<forall>j < length xs. cmp_key (xs ! j) \<le> cmp_key (xs ! i) \<and> (i < j \<longrightarrow> cmp_key (xs ! j) < cmp_key (xs ! i))"
      using snoc.IH by blast
    have ne: "enum xs \<noteq> []" using Cons by (simp add: enum_def)
    have m: "max_by (\<lambda>(_, a) (_, b). f32_cmp a b) (enum xs @ [(length xs, x)])
        = Some (if f32_cmp (xs ! i) x = Greater then (i, xs ! i) else (length xs, x))"
      using i(1) ne by (cases "enum xs") (simp_all add: max_by_def)
    show ?thesis
    proof (cases "cmp_key x < cmp_key (xs ! i)")
      case True
      then show ?thesis using m i by (intro exI [of _ i]) (auto simp: e f32_cmp_key nth_append less_Suc_eq)
    next
      case False
      then show ?thesis using m i
        by (intro exI [of _ "length xs"]) (auto simp: e f32_cmp_key nth_append less_Suc_eq intro: order_trans)
    qed
  qed
qed simp

subsection \<open>The random choice\<close>

lemma pick_in: "pick probs r is acc = Some i \<Longrightarrow> i \<in> set is"
  by (induction "is" arbitrary: acc) (auto simp: Let_def split: if_splits)

lemma top_p_cutoff_pos: "0 < cutoff \<Longrightarrow> 0 < top_p_cutoff top_p probs sis i c cutoff"
  by (induction sis arbitrary: i c) (simp_all add: Let_def)

lemma top_p_cutoff_ge: "i < cutoff \<Longrightarrow> cutoff = i + length sis \<Longrightarrow> i < top_p_cutoff top_p probs sis i c cutoff"
proof (induction sis arbitrary: i c)
  case (Cons si sis)
  show ?case
  proof (cases "sis = []")
    case False
    then have "Suc i < cutoff" using Cons.prems by (cases sis) auto
    from Cons.IH [OF this] Cons.prems(2) show ?thesis by (simp add: Let_def Suc_lessD)
  qed (use Cons.prems in \<open>simp add: Let_def\<close>)
qed simp

lemma top_p_filter_in: "probs \<noteq> [] \<Longrightarrow> top_p_filter top_p probs \<noteq> [] \<and> set (top_p_filter top_p probs) \<subseteq> {..<length probs}"
  by (auto simp: top_p_filter_def Let_def top_p_cutoff_pos dest!: in_set_takeD)

lemma length_softmax [simp]: "length (softmax fexp xs) = length xs"
  by (simp add: softmax_def Let_def)

lemma softmax_Nil_iff [simp]: "softmax fexp xs = [] \<longleftrightarrow> xs = []"
  by (simp add: softmax_def Let_def)

lemma top_k_indices_in:
  assumes "scaled \<noteq> []"
  shows "top_k_indices k scaled \<noteq> [] \<and> set (top_k_indices k scaled) \<subseteq> {..<length scaled}"
proof -
  have "[0..<length scaled] \<noteq> []" using assms by simp
  then show ?thesis by (auto simp: top_k_indices_def dest!: in_set_takeD)
qed

text \<open>Fewer than \<open>k\<close> candidates beat one that top-k keeps.\<close>

lemma top_k_best:
  assumes "i \<in> set (top_k_indices k scaled)" and "0 < k"
  shows "card {j. j < length scaled \<and> cmp_key (scaled ! i) < cmp_key (scaled ! j)} < k"
proof (cases "k < length scaled")
  case True
  let ?xs = "sort_by (\<lambda>a b. f32_cmp (scaled ! b) (scaled ! a)) [0..<length scaled]"
  have s: "sorted_wrt (\<lambda>a b. cmp_key (scaled ! b) \<le> cmp_key (scaled ! a)) ?xs"
    by (rule sorted_sort_by [OF orders_descending])
  from assms True obtain p where p: "p < k" "p < length scaled" "?xs ! p = i"
    by (auto simp: top_k_indices_def in_set_conv_nth)
  have "{j. j < length scaled \<and> cmp_key (scaled ! i) < cmp_key (scaled ! j)} \<subseteq> set (take p ?xs)"
  proof
    fix j assume j: "j \<in> {j. j < length scaled \<and> cmp_key (scaled ! i) < cmp_key (scaled ! j)}"
    then have "j \<in> set ?xs" by simp
    then obtain q where q: "q < length scaled" "?xs ! q = j" unfolding in_set_conv_nth by auto
    have "\<not> p \<le> q"
    proof
      assume "p \<le> q"
      then have "cmp_key (scaled ! j) \<le> cmp_key (scaled ! i)"
        using sorted_wrt_nth_less [OF s, of p q] p q by (cases "p = q") auto
      then show False using j by auto
    qed
    then show "j \<in> set (take p ?xs)" using q by (auto simp: in_set_conv_nth)
  qed
  then have "card {j. j < length scaled \<and> cmp_key (scaled ! i) < cmp_key (scaled ! j)} \<le> card (set (take p ?xs))"
    by (rule card_mono [OF finite_set])
  also have "\<dots> \<le> p" using card_length [of "take p ?xs"] by simp
  finally show ?thesis using p(1) by simp
next
  case False
  have "i < length scaled" using assms(1) False by (auto simp: top_k_indices_def)
  then have "{j. j < length scaled \<and> cmp_key (scaled ! i) < cmp_key (scaled ! j)} \<subset> {..<length scaled}" by auto
  from psubset_card_mono [OF _ this] show ?thesis using False by simp
qed

subsection \<open>The nucleus\<close>

lemma top_p_cutoff_spec:
  assumes "top_p_cutoff top_p probs sis i c cutoff = i + m" and "cutoff = i + length sis"
  shows "m \<le> length sis \<and> (\<forall>n. 0 < n \<longrightarrow> n < m \<longrightarrow> \<not> f32_lt top_p (foldl f32_add c (map ((!) probs) (take n sis))))
    \<and> (m < length sis \<longrightarrow> f32_lt top_p (foldl f32_add c (map ((!) probs) (take m sis))))"
  using assms
proof (induction sis arbitrary: i c m)
  case (Cons si sis)
  show ?case
  proof (cases "f32_lt top_p (f32_add c (probs ! si))")
    case True
    then have "m = 1" using Cons.prems by (simp add: Let_def)
    then show ?thesis using True by simp
  next
    case False
    then have r: "top_p_cutoff top_p probs sis (Suc i) (f32_add c (probs ! si)) cutoff = i + m"
      using Cons.prems(1) by (simp add: Let_def)
    have "Suc i \<le> i + m" using r Cons.prems top_p_cutoff_ge [of i cutoff "si # sis" top_p probs c] by simp
    then obtain k where k: "m = Suc k" by (cases m) auto
    have ih: "k \<le> length sis \<and> (\<forall>n. 0 < n \<longrightarrow> n < k \<longrightarrow> \<not> f32_lt top_p (foldl f32_add (f32_add c (probs ! si)) (map ((!) probs) (take n sis))))
      \<and> (k < length sis \<longrightarrow> f32_lt top_p (foldl f32_add (f32_add c (probs ! si)) (map ((!) probs) (take k sis))))"
      using Cons.IH [of "Suc i" "f32_add c (probs ! si)" k] r Cons.prems(2) k by simp
    have "\<not> f32_lt top_p (foldl f32_add c (map ((!) probs) (take n (si # sis))))" if "0 < n" "n < m" for n
      using that ih False k by (cases n; cases "n - 1") auto
    then show ?thesis using ih k by auto
  qed
qed simp

text \<open>What \<open>top_p_filter\<close> keeps: the shortest run of the most probable candidates whose mass exceeds \<open>top_p\<close>.\<close>

lemma top_p_filter_nucleus:
  fixes probs top_p
  defines "kept \<equiv> top_p_filter top_p probs"
  assumes "probs \<noteq> []"
  shows "(\<forall>i \<in> set kept. \<forall>j < length probs. j \<notin> set kept \<longrightarrow> cmp_key (probs ! j) \<le> cmp_key (probs ! i))
    \<and> (\<forall>n. 0 < n \<longrightarrow> n < length kept \<longrightarrow> f32_lt top_p f32_one \<longrightarrow> \<not> f32_lt top_p (foldl f32_add f32_zero (map ((!) probs) (take n kept))))
    \<and> (length kept < length probs \<longrightarrow> f32_lt top_p (foldl f32_add f32_zero (map ((!) probs) kept)))"
proof -
  define sis where "sis = sort_by (\<lambda>a b. f32_cmp (probs ! b) (probs ! a)) [0..<length probs]"
  define m where "m = (if f32_lt top_p f32_one then top_p_cutoff top_p probs sis 0 f32_zero (length sis) else length sis)"
  have len: "length sis = length probs" and set: "set sis = {..<length probs}" by (auto simp: sis_def)
  have kept: "kept = take m sis" by (simp add: kept_def top_p_filter_def Let_def sis_def m_def)
  have spec: "m \<le> length sis \<and> (\<forall>n. 0 < n \<longrightarrow> n < m \<longrightarrow> f32_lt top_p f32_one \<longrightarrow> \<not> f32_lt top_p (foldl f32_add f32_zero (map ((!) probs) (take n sis))))
    \<and> (m < length sis \<longrightarrow> f32_lt top_p (foldl f32_add f32_zero (map ((!) probs) (take m sis))))"
    using top_p_cutoff_spec [of top_p probs sis 0 f32_zero "length sis" m] by (auto simp: m_def split: if_splits)
  have s: "sorted_wrt (\<lambda>a b. cmp_key (probs ! b) \<le> cmp_key (probs ! a)) (take m sis @ drop m sis)"
    unfolding sis_def append_take_drop_id by (rule sorted_sort_by [OF orders_descending])
  have "cmp_key (probs ! j) \<le> cmp_key (probs ! i)" if "i \<in> set kept" "j < length probs" "j \<notin> set kept" for i j
  proof -
    have "j \<in> set (take m sis @ drop m sis)" using that(2) set by (simp add: append_take_drop_id)
    then have "j \<in> set (drop m sis)" using that(3) kept by (simp del: append_take_drop_id)
    then show ?thesis using s that(1) kept by (auto simp: sorted_wrt_append simp del: append_take_drop_id)
  qed
  then show ?thesis using spec len kept by (auto simp: min_def)
qed

subsection \<open>What the sampler returns\<close>

definition finite_logits :: "f32 list \<Rightarrow> bool" where
  "finite_logits logits \<longleftrightarrow> logits \<noteq> [] \<and> (\<forall>l \<in> set logits. \<not> f32_is_nan l \<and> \<not> f32_is_infinite l)"

lemma sample_accepts: "is_ok (sample fexp seeded fresh logits params) \<longleftrightarrow> finite_logits logits"
  by (auto simp: sample_def finite_logits_def Let_def is_ok_def)

text \<open>C14: with temperature zero or top-k one the sampler returns the index of a greatest logit, the last one when
  several are equal, whatever the other parameters and the random draws are.\<close>

theorem sample_greedy:
  assumes "finite_logits logits" and "f32_eq (sp_temperature params) f32_zero \<or> sp_top_k params = 1"
  shows "\<exists>i. sample fexp seeded fresh logits params = Inr (word_of_nat i) \<and> i < length logits
    \<and> (\<forall>j < length logits. f32_le (logits ! j) (logits ! i) \<and> (i < j \<longrightarrow> f32_lt (logits ! j) (logits ! i)))"
proof -
  have ne: "logits \<noteq> []" and fin: "\<And>j. j < length logits \<Longrightarrow> \<not> f32_is_nan (logits ! j) \<and> \<not> f32_is_infinite (logits ! j)"
    using assms(1) by (auto simp: finite_logits_def)
  obtain i where i: "max_by (\<lambda>(_, a) (_, b). f32_cmp a b) (enum logits) = Some (i, logits ! i)" "i < length logits"
    "\<forall>j < length logits. cmp_key (logits ! j) \<le> cmp_key (logits ! i) \<and> (i < j \<longrightarrow> cmp_key (logits ! j) < cmp_key (logits ! i))"
    using max_by_last_greatest [OF ne] by blast
  have "sample fexp seeded fresh logits params = Inr (word_of_nat i)"
    using assms i(1) by (auto simp: sample_def finite_logits_def)
  moreover have "f32_le (logits ! j) (logits ! i) \<and> (i < j \<longrightarrow> f32_lt (logits ! j) (logits ! i))" if "j < length logits" for j
    using i(2) i(3) [rule_format, OF that] fin [OF that] fin [OF i(2)]
    by (auto simp: cmp_key_def f32_le_def f32_lt_def f32_is_nan_def)
  ultimately show ?thesis using i(2) by blast
qed

theorem sample_greedy_witness:
  "\<exists>i. sample (\<lambda>x. x) (\<lambda>_. 0) 0 [0x3F800000, 0x40000000, 0x40000000, 0xBF800000] (default_sampling_params\<lparr>sp_top_k := 1\<rparr>) = Inr (word_of_nat i)
    \<and> i < length [0x3F800000, 0x40000000, 0x40000000, 0xBF800000 :: f32]"
  using sample_greedy [of "[0x3F800000, 0x40000000, 0x40000000, 0xBF800000]" "default_sampling_params\<lparr>sp_top_k := 1\<rparr>" "\<lambda>x. x" "\<lambda>_. 0" 0]
  by (auto simp: finite_logits_def f32_is_nan_def f32_is_infinite_def unpack_def Let_def)



end
