(* ===== verification/Kernels.thy ===== *)
theory Kernels
  imports Device
begin

text \<open>
  What the compute calls of a backend are documented to do, and the transformer they compute. A tensor is its
  rows; \<open>kernels\<close> names the functions on rows, \<open>kernel_laws\<close> says that each call writes the rows it is
  documented to write and no other. The reference at the end processes the tokens of one sequence with those
  functions, each attending to the tokens before it.
\<close>

record 'r kernels =
  kn_matmul :: "(nat \<Rightarrow> 'r) \<Rightarrow> 'r \<Rightarrow> 'r"
  kn_rmsnorm :: "(nat \<Rightarrow> 'r) \<Rightarrow> f64 \<Rightarrow> 'r \<Rightarrow> 'r"
  kn_rope :: "f64 \<Rightarrow> usize \<Rightarrow> u32 \<Rightarrow> 'r \<Rightarrow> 'r"
  kn_attention :: "usize \<Rightarrow> ('r \<times> 'r) list \<Rightarrow> 'r \<Rightarrow> 'r"
  kn_silu_mul :: "'r \<Rightarrow> 'r \<Rightarrow> 'r"
  kn_add :: "'r \<Rightarrow> 'r \<Rightarrow> 'r"
  kn_bytes :: "usize \<Rightarrow> 'r \<Rightarrow> byte list"

text \<open>A call that succeeds changes the rows by \<open>g\<close> and allocates nothing.\<close>

definition acts :: "('b \<Rightarrow> u64 set) \<Rightarrow> ('b \<Rightarrow> u64 \<Rightarrow> nat \<Rightarrow> 'r) \<Rightarrow> ('b \<Rightarrow> unit result \<times> 'b)
    \<Rightarrow> ((u64 \<Rightarrow> nat \<Rightarrow> 'r) \<Rightarrow> u64 \<Rightarrow> nat \<Rightarrow> 'r) \<Rightarrow> bool" where
  "acts live rows d g \<longleftrightarrow> (\<forall>b b'. d b = (Inr (), b') \<longrightarrow> live b' = live b \<and> rows b' = g (rows b))"

text \<open>The key and value rows that a block table names.\<close>

definition paged_rows :: "u32 list \<Rightarrow> device_tensor list \<Rightarrow> device_tensor list \<Rightarrow> (u64 \<Rightarrow> nat \<Rightarrow> 'r) \<Rightarrow> nat \<Rightarrow> 'r \<times> 'r" where
  "paged_rows bt kb vb r p =
     (r (t_id (kb ! unat (bt ! (p div 16)))) (p mod 16), r (t_id (vb ! unat (bt ! (p div 16)))) (p mod 16))"

definition compute_laws :: "'b backend \<Rightarrow> ('b \<Rightarrow> u64 set) \<Rightarrow> ('b \<Rightarrow> u64 \<Rightarrow> nat \<Rightarrow> 'r) \<Rightarrow> 'r kernels \<Rightarrow> bool" where
  "compute_laws be live rows kn \<longleftrightarrow>
     (\<forall>a w out. acts live rows (be_matmul be a w out)
        (\<lambda>r. write_tensor (t_id out) (nrows a) (\<lambda>i. kn_matmul kn (r (t_id w)) (r (t_id a) i)) r))
   \<and> (\<forall>a w eps out. acts live rows (be_rmsnorm be a w eps out)
        (\<lambda>r. write_tensor (t_id out) (nrows a) (\<lambda>i. kn_rmsnorm kn (r (t_id w)) eps (r (t_id a) i)) r))
   \<and> (\<forall>q k ps theta hdim. t_id q \<noteq> t_id k \<longrightarrow> acts live rows (be_rope be q k ps theta hdim)
        (\<lambda>r. write_tensor (t_id k) (length ps) (\<lambda>i. kn_rope kn theta hdim (ps ! i) (r (t_id k) i))
          (write_tensor (t_id q) (length ps) (\<lambda>i. kn_rope kn theta hdim (ps ! i) (r (t_id q) i)) r)))
   \<and> (\<forall>q bt kb vb nkv kvlen start out. acts live rows (be_attention_paged be q bt kb vb nkv kvlen start out)
        (\<lambda>r. write_tensor (t_id out) (nrows q) (\<lambda>i. kn_attention kn nkv
          (map (paged_rows bt kb vb r) [0..<min kvlen (start + i + 1)]) (r (t_id q) i)) r))
   \<and> (\<forall>a w out. acts live rows (be_silu_mul be a w out)
        (\<lambda>r. write_tensor (t_id out) (nrows a) (\<lambda>i. kn_silu_mul kn (r (t_id a) i) (r (t_id w) i)) r))
   \<and> (\<forall>ids table out. acts live rows (be_embedding be ids table out)
        (\<lambda>r. write_tensor (t_id out) (length ids) (\<lambda>i. r (t_id table) (unat (ids ! i))) r))
   \<and> (\<forall>a w out. acts live rows (be_add be a w out)
        (\<lambda>r. write_tensor (t_id out) (nrows a) (\<lambda>i. kn_add kn (r (t_id a) i) (r (t_id w) i)) r))
   \<and> acts live rows (be_synchronize be) (\<lambda>r. r)"

definition memory_laws :: "'b backend \<Rightarrow> ('b \<Rightarrow> u64 set) \<Rightarrow> ('b \<Rightarrow> u64 \<Rightarrow> nat \<Rightarrow> 'r) \<Rightarrow> 'r kernels \<Rightarrow> bool" where
  "memory_laws be live rows kn \<longleftrightarrow>
     (\<forall>src dst so d n b b'. be_copy_rows be src dst so d n b = (Inr (), b') \<longrightarrow> live b' = live b)
   \<and> (\<forall>sh d b t b'. be_alloc be sh d b = (Inr t, b') \<longrightarrow> t_shape t = sh \<and> (\<forall>x. x \<noteq> t_id t \<longrightarrow> rows b' x = rows b x))
   \<and> (\<forall>t b b'. be_free be t b = (Inr (), b') \<longrightarrow> (\<forall>x. x \<noteq> t_id t \<longrightarrow> rows b' x = rows b x))
   \<and> (\<forall>t n b bs b'. be_copy_to_host be t n b = (Inr bs, b') \<longrightarrow>
        live b' = live b \<and> rows b' = rows b \<and> bs = kn_bytes kn n (rows b (t_id t) 0))"

definition kernel_laws :: "'b backend \<Rightarrow> ('b \<Rightarrow> u64 set) \<Rightarrow> ('b \<Rightarrow> u64 \<Rightarrow> nat \<Rightarrow> 'r) \<Rightarrow> 'r kernels \<Rightarrow> bool" where
  "kernel_laws be live rows kn \<longleftrightarrow>
     heap_laws be live \<and> row_laws be rows \<and> compute_laws be live rows kn \<and> memory_laws be live rows kn"

lemma copy_rows_acts:
  assumes "kernel_laws be live rows kn"
  shows "acts live rows (be_copy_rows be src dst so d n)
    (\<lambda>r t i. if t = t_id dst \<and> d \<le> i \<and> i < d + n then r (t_id src) (so + (i - d)) else r t i)"
  using assms by (fastforce simp: kernel_laws_def row_laws_def memory_laws_def acts_def fun_eq_iff)

lemma alloc_effect:
  assumes "kernel_laws be live rows kn" and "be_alloc be sh d b = (Inr t, b')"
  shows "t_id t \<notin> live b" "live b' = insert (t_id t) (live b)" "t_shape t = sh" "x \<noteq> t_id t \<Longrightarrow> rows b' x = rows b x"
  using assms by (auto simp: kernel_laws_def memory_laws_def dest: heap_lawsD(1))

lemma free_effect:
  assumes "kernel_laws be live rows kn" and "be_free be t b = (Inr (), b')"
  shows "live b' = live b - {t_id t}" "x \<noteq> t_id t \<Longrightarrow> rows b' x = rows b x"
proof -
  have "live (snd (be_free be t b)) = live b - {t_id t}"
    using assms(1) by (auto simp: kernel_laws_def heap_laws_def)
  then show "live b' = live b - {t_id t}" using assms(2) by simp
qed (use assms in \<open>auto simp: kernel_laws_def memory_laws_def\<close>)

lemma write_tensor_simps [simp]:
  "t \<noteq> x \<Longrightarrow> write_tensor x n f r t = r t"
  "write_tensor x n f r x = (\<lambda>i. if i < n then f i else r x i)"
  by (simp_all add: write_tensor_def)

subsection \<open>The reference\<close>

record layer_weights =
  q_proj :: device_tensor
  k_proj :: device_tensor
  v_proj :: device_tensor
  o_proj :: device_tensor
  gate_proj :: device_tensor
  up_proj :: device_tensor
  down_proj :: device_tensor
  attn_norm :: device_tensor
  ffn_norm :: device_tensor

record weight_store =
  ws_config :: model_config
  token_embedding :: device_tensor
  ws_layers :: "layer_weights list"
  output_norm :: device_tensor
  lm_head :: device_tensor

text \<open>\<open>W\<close> gives the rows of the weights. A token with hidden row \<open>h\<close> at position \<open>pos\<close> adds a key and a value
  to a layer, and leaves the layer as \<open>token_out\<close> says, given all the keys and values up to its own.\<close>

definition token_kv :: "'r kernels \<Rightarrow> model_config \<Rightarrow> (u64 \<Rightarrow> nat \<Rightarrow> 'r) \<Rightarrow> layer_weights \<Rightarrow> u32 \<Rightarrow> 'r \<Rightarrow> 'r \<times> 'r" where
  "token_kv kn cfg W w pos h =
     (let x = kn_rmsnorm kn (W (t_id (attn_norm w))) (rms_norm_eps cfg) h
      in (kn_rope kn (rope_theta cfg) (head_dim cfg) pos (kn_matmul kn (W (t_id (k_proj w))) x),
          kn_matmul kn (W (t_id (v_proj w))) x))"

definition token_q :: "'r kernels \<Rightarrow> model_config \<Rightarrow> (u64 \<Rightarrow> nat \<Rightarrow> 'r) \<Rightarrow> layer_weights \<Rightarrow> u32 \<Rightarrow> 'r \<Rightarrow> 'r" where
  "token_q kn cfg W w pos h =
     kn_rope kn (rope_theta cfg) (head_dim cfg) pos
       (kn_matmul kn (W (t_id (q_proj w))) (kn_rmsnorm kn (W (t_id (attn_norm w))) (rms_norm_eps cfg) h))"

definition token_ffn :: "'r kernels \<Rightarrow> model_config \<Rightarrow> (u64 \<Rightarrow> nat \<Rightarrow> 'r) \<Rightarrow> layer_weights \<Rightarrow> 'r \<Rightarrow> 'r \<Rightarrow> 'r" where
  "token_ffn kn cfg W w h a =
     (let h1 = kn_add kn h (kn_matmul kn (W (t_id (o_proj w))) a);
          y = kn_rmsnorm kn (W (t_id (ffn_norm w))) (rms_norm_eps cfg) h1;
          g = kn_silu_mul kn (kn_matmul kn (W (t_id (gate_proj w))) y) (kn_matmul kn (W (t_id (up_proj w))) y)
      in kn_add kn h1 (kn_matmul kn (W (t_id (down_proj w))) g))"

definition token_out :: "'r kernels \<Rightarrow> model_config \<Rightarrow> (u64 \<Rightarrow> nat \<Rightarrow> 'r) \<Rightarrow> layer_weights \<Rightarrow> ('r \<times> 'r) list \<Rightarrow> u32 \<Rightarrow> 'r \<Rightarrow> 'r" where
  "token_out kn cfg W w kvs pos h =
     token_ffn kn cfg W w h (kn_attention kn (num_kv_heads cfg) kvs (token_q kn cfg W w pos h))"

definition layer_kvs :: "'r kernels \<Rightarrow> model_config \<Rightarrow> (u64 \<Rightarrow> nat \<Rightarrow> 'r) \<Rightarrow> layer_weights \<Rightarrow> u32 list \<Rightarrow> 'r list \<Rightarrow> ('r \<times> 'r) list" where
  "layer_kvs kn cfg W w ps hs = map2 (token_kv kn cfg W w) ps hs"

definition layer_out :: "'r kernels \<Rightarrow> model_config \<Rightarrow> (u64 \<Rightarrow> nat \<Rightarrow> 'r) \<Rightarrow> layer_weights \<Rightarrow> ('r \<times> 'r) list \<Rightarrow> u32 list \<Rightarrow> 'r list \<Rightarrow> 'r list" where
  "layer_out kn cfg W w past ps hs =
     map (\<lambda>j. token_out kn cfg W w (past @ take (Suc j) (layer_kvs kn cfg W w ps hs)) (ps ! j) (hs ! j)) [0..<length hs]"

text \<open>The hidden rows after \<open>l\<close> layers; \<open>past l\<close> are the keys and values that layer \<open>l\<close> holds.\<close>

primrec hidden_after :: "'r kernels \<Rightarrow> weight_store \<Rightarrow> (u64 \<Rightarrow> nat \<Rightarrow> 'r) \<Rightarrow> (nat \<Rightarrow> ('r \<times> 'r) list) \<Rightarrow> u32 list \<Rightarrow> 'r list \<Rightarrow> nat \<Rightarrow> 'r list" where
  "hidden_after kn ws W past ps hs 0 = hs"
| "hidden_after kn ws W past ps hs (Suc l) =
     layer_out kn (ws_config ws) W (ws_layers ws ! l) (past l) ps (hidden_after kn ws W past ps hs l)"

definition new_kvs :: "'r kernels \<Rightarrow> weight_store \<Rightarrow> (u64 \<Rightarrow> nat \<Rightarrow> 'r) \<Rightarrow> (nat \<Rightarrow> ('r \<times> 'r) list) \<Rightarrow> u32 list \<Rightarrow> 'r list \<Rightarrow> nat \<Rightarrow> ('r \<times> 'r) list" where
  "new_kvs kn ws W past ps hs l =
     layer_kvs kn (ws_config ws) W (ws_layers ws ! l) ps (hidden_after kn ws W past ps hs l)"

definition embed :: "weight_store \<Rightarrow> (u64 \<Rightarrow> nat \<Rightarrow> 'r) \<Rightarrow> u32 list \<Rightarrow> 'r list" where
  "embed ws W ids = map (\<lambda>i. W (t_id (token_embedding ws)) (unat i)) ids"

definition logits_row :: "'r kernels \<Rightarrow> weight_store \<Rightarrow> (u64 \<Rightarrow> nat \<Rightarrow> 'r) \<Rightarrow> 'r \<Rightarrow> 'r" where
  "logits_row kn ws W h =
     kn_matmul kn (W (t_id (lm_head ws))) (kn_rmsnorm kn (W (t_id (output_norm ws))) (rms_norm_eps (ws_config ws)) h)"

lemma length_layer_out [simp]: "length (layer_out kn cfg W w past ps hs) = length hs"
  by (simp add: layer_out_def)

lemma length_layer_kvs [simp]: "length (layer_kvs kn cfg W w ps hs) = min (length ps) (length hs)"
  by (simp add: layer_kvs_def)

lemma length_hidden_after [simp]: "length (hidden_after kn ws W past ps hs l) = length hs"
  by (induction l) simp_all

lemma length_new_kvs [simp]: "length (new_kvs kn ws W past ps hs l) = min (length ps) (length hs)"
  by (simp add: new_kvs_def)

lemma length_embed [simp]: "length (embed ws W ids) = length ids"
  by (simp add: embed_def)

text \<open>Tokens may be processed in two portions, the second on the keys and values of the first.\<close>

lemma layer_kvs_append:
  "length p1 = length h1 \<Longrightarrow> layer_kvs kn cfg W w (p1 @ p2) (h1 @ h2) = layer_kvs kn cfg W w p1 h1 @ layer_kvs kn cfg W w p2 h2"
  by (simp add: layer_kvs_def)

lemma layer_out_append:
  assumes "length p1 = length h1" "length p2 = length h2"
  shows "layer_out kn cfg W w past (p1 @ p2) (h1 @ h2)
    = layer_out kn cfg W w past p1 h1 @ layer_out kn cfg W w (past @ layer_kvs kn cfg W w p1 h1) p2 h2"
proof -
  have s: "[0..<length (h1 @ h2)] = [0..<length h1] @ map (\<lambda>j. length h1 + j) [0..<length h2]"
    by (rule nth_equalityI) (auto simp: nth_append)
  show ?thesis unfolding layer_out_def s map_append map_map
    using assms by (auto simp: layer_kvs_append nth_append)
qed

lemma hidden_append:
  assumes "length p1 = length h1" "length p2 = length h2"
  shows "hidden_after kn ws W past (p1 @ p2) (h1 @ h2) l
    = hidden_after kn ws W past p1 h1 l @ hidden_after kn ws W (\<lambda>k. past k @ new_kvs kn ws W past p1 h1 k) p2 h2 l"
  by (induction l) (simp_all add: layer_out_append assms new_kvs_def)

lemma new_kvs_append:
  assumes "length p1 = length h1" "length p2 = length h2"
  shows "new_kvs kn ws W past (p1 @ p2) (h1 @ h2) l
    = new_kvs kn ws W past p1 h1 l @ new_kvs kn ws W (\<lambda>k. past k @ new_kvs kn ws W past p1 h1 k) p2 h2 l"
  by (simp add: new_kvs_def hidden_append assms layer_kvs_append)

subsection \<open>The computing device of the witnesses\<close>

definition ram_kernels :: "nat kernels" where
  "ram_kernels = \<lparr>kn_matmul = (\<lambda>w a. w 0 * a + 1), kn_rmsnorm = (\<lambda>w eps a. w 0 + a), kn_rope = (\<lambda>theta hdim p a. unat p + a),
     kn_attention = (\<lambda>nkv kvs q. sum_list (map (\<lambda>(k, v). k * q + v) kvs)), kn_silu_mul = (\<lambda>a w. a * w),
     kn_add = (\<lambda>a w. a + w), kn_bytes = (\<lambda>n a. replicate n 0)\<rparr>"

lemma ram_kernel_laws: "kernel_laws ram_backend (\<lambda>m. set (ram_live m)) ram_rows ram_kernels"
  unfolding kernel_laws_def
proof (intro conjI ram_heap_laws ram_row_laws)
  show "compute_laws ram_backend (\<lambda>m. set (ram_live m)) ram_rows ram_kernels"
    by (simp add: compute_laws_def acts_def ram_backend_def ram_compute_def ram_kernels_def write_tensor_def paged_rows_def o_def)
  show "memory_laws ram_backend (\<lambda>m. set (ram_live m)) ram_rows ram_kernels"
    by (auto simp: memory_laws_def ram_backend_def ram_free_def ram_kernels_def split: if_splits)
qed

end
