(* ===== verification/Batched_Forward.thy ===== *)
theory Batched_Forward
  imports Kernels Paged_Cache
begin

unbundle bit_operations_syntax

text \<open>
  The batched forward pass, \<open>fracture-engine/src/batched.rs\<close>: several sequences, each with its own paged cache,
  go through the layers together. Projections, norms and the feed-forward part run on the concatenated tokens,
  appending to the cache and attention run per sequence. The pass is generic over the trait \<open>PagedCache\<close>, a
  record of operations here; \<open>h2f\<close> is the conversion of a half-precision number (crate \<open>half\<close>).
\<close>

subsection \<open>Computations on a cache and a device\<close>

text \<open>A panic is \<open>None\<close>; an error keeps the state it leaves.\<close>

type_synonym ('s, 'a) comp = "'s \<Rightarrow> ('a result \<times> 's) option"

definition cret :: "'a \<Rightarrow> ('s, 'a) comp" where
  "cret x s = Some (Inr x, s)"

definition cfail :: "fracture_error \<Rightarrow> ('s, 'a) comp" where
  "cfail e s = Some (Inl e, s)"

definition cpanic :: "('s, 'a) comp" where
  "cpanic s = None"

definition cbind :: "('s, 'a) comp \<Rightarrow> ('a \<Rightarrow> ('s, 'c) comp) \<Rightarrow> ('s, 'c) comp" where
  "cbind m f s = (case m s of None \<Rightarrow> None | Some (Inl e, s') \<Rightarrow> Some (Inl e, s') | Some (Inr x, s') \<Rightarrow> f x s')"

definition dev :: "('b \<Rightarrow> 'a result \<times> 'b) \<Rightarrow> ('c \<times> 'b, 'a) comp" where
  "dev d = (\<lambda>(c, b). case d b of (r, b') \<Rightarrow> Some (r, (c, b')))"

text \<open>A loop that stops at the first error, and one that collects what its body returns.\<close>

primrec cforeach :: "('x \<Rightarrow> ('s, unit) comp) \<Rightarrow> 'x list \<Rightarrow> ('s, unit) comp" where
  "cforeach f [] = cret ()"
| "cforeach f (x # xs) = cbind (f x) (\<lambda>_. cforeach f xs)"

primrec ccollect :: "('x \<Rightarrow> ('s, 'a) comp) \<Rightarrow> 'x list \<Rightarrow> ('s, 'a list) comp" where
  "ccollect f [] = cret []"
| "ccollect f (x # xs) = cbind (f x) (\<lambda>y. cbind (ccollect f xs) (\<lambda>ys. cret (y # ys)))"

abbreviation perform :: "('b \<Rightarrow> unit result \<times> 'b) list \<Rightarrow> ('c \<times> 'b, unit) comp" where
  "perform \<equiv> cforeach dev"

subsection \<open>The cache trait\<close>

record ('c, 'b) paged_cache =
  pc_seq_len :: "'c \<Rightarrow> u64 \<Rightarrow> usize result"
  pc_append_kv :: "'b backend \<Rightarrow> u64 \<Rightarrow> usize \<Rightarrow> device_tensor \<Rightarrow> device_tensor \<Rightarrow> 'c \<Rightarrow> 'b \<Rightarrow> (unit result \<times> 'c \<times> 'b) option"
  pc_dispatch_attention :: "'b backend \<Rightarrow> 'c \<Rightarrow> device_tensor \<Rightarrow> u64 \<Rightarrow> usize \<Rightarrow> usize \<Rightarrow> usize \<Rightarrow> usize \<Rightarrow> device_tensor
    \<Rightarrow> 'b \<Rightarrow> (unit result \<times> 'b) option"

text \<open>\<open>those\<close> is \<open>None\<close>, a panic, when an index into the pool is out of range.\<close>

definition paged_attention ::
    "'b backend \<Rightarrow> paged_manager \<Rightarrow> device_tensor \<Rightarrow> u64 \<Rightarrow> usize \<Rightarrow> usize \<Rightarrow> usize \<Rightarrow> usize \<Rightarrow> device_tensor
     \<Rightarrow> 'b \<Rightarrow> (unit result \<times> 'b) option" where
  "paged_attention be m q_slice h cache_idx nkv kv_len start_pos out b = (case get_block_table m h of
      Inl e \<Rightarrow> Some (Inl e, b)
    | Inr table \<Rightarrow> (case (those (map (\<lambda>bid. k_tensor (pool m) bid cache_idx) [0..<capacity (pool m)]),
                          those (map (\<lambda>bid. v_tensor (pool m) bid cache_idx) [0..<capacity (pool m)])) of
          (Some kb, Some vb) \<Rightarrow> Some (be_attention_paged be q_slice (map word_of_nat table) kb vb nkv kv_len start_pos out b)
        | _ \<Rightarrow> None))"

definition paged_kv_cache :: "(paged_manager, 'b) paged_cache" where
  "paged_kv_cache = \<lparr>pc_seq_len = seq_len, pc_append_kv = append_kv, pc_dispatch_attention = paged_attention\<rparr>"

subsection \<open>The batch\<close>

record sequence_slice =
  ss_handle :: u64
  ss_token_ids :: "u32 list"
  ss_positions :: "u32 list"

text \<open>The part of the concatenated batch that belongs to each sequence, from their lengths.\<close>

primrec boundaries :: "usize \<Rightarrow> usize list \<Rightarrow> (usize \<times> usize) list" where
  "boundaries offset [] = []"
| "boundaries offset (n # ns) = (offset, offset + n) # boundaries (offset + n) ns"

record scratch =
  sc_normed :: device_tensor
  sc_q :: device_tensor
  sc_k :: device_tensor
  sc_v :: device_tensor
  sc_attn :: device_tensor
  sc_projected :: device_tensor
  sc_gate :: device_tensor
  sc_up :: device_tensor
  sc_ffn_mid :: device_tensor
  sc_ffn_out :: device_tensor

definition alloc_scratch :: "'b backend \<Rightarrow> model_config \<Rightarrow> usize \<Rightarrow> ('c \<times> 'b, scratch) comp" where
  "alloc_scratch be cfg n =
     (let al = (\<lambda>w. dev (be_alloc be [n, w] FP16)); hidden = hidden_size cfg;
          kvw = num_kv_heads cfg * head_dim cfg; inter = intermediate_size cfg
      in cbind (al hidden) (\<lambda>normed. cbind (al hidden) (\<lambda>q_flat. cbind (al kvw) (\<lambda>k_flat. cbind (al kvw) (\<lambda>v_flat.
         cbind (al hidden) (\<lambda>attn_out_buf. cbind (al hidden) (\<lambda>projected. cbind (al inter) (\<lambda>gate. cbind (al inter) (\<lambda>up.
         cbind (al inter) (\<lambda>ffn_mid. cbind (al hidden) (\<lambda>ffn_out.
         cret \<lparr>sc_normed = normed, sc_q = q_flat, sc_k = k_flat, sc_v = v_flat, sc_attn = attn_out_buf, sc_projected = projected,
               sc_gate = gate, sc_up = up, sc_ffn_mid = ffn_mid, sc_ffn_out = ffn_out\<rparr>)))))))))))"

definition scratch_tensors :: "scratch \<Rightarrow> device_tensor list" where
  "scratch_tensors sc = [sc_normed sc, sc_q sc, sc_k sc, sc_v sc, sc_attn sc, sc_projected sc, sc_gate sc, sc_up sc,
     sc_ffn_mid sc, sc_ffn_out sc]"

definition view :: "device_tensor \<Rightarrow> usize list \<Rightarrow> device_tensor" where
  "view t shape = \<lparr>t_id = t_id t, t_shape = shape, t_dtype = FP16\<rparr>"

subsection \<open>A layer\<close>

definition project :: "'b backend \<Rightarrow> model_config \<Rightarrow> layer_weights \<Rightarrow> usize \<Rightarrow> u32 list \<Rightarrow> device_tensor \<Rightarrow> scratch \<Rightarrow> ('c \<times> 'b, unit) comp" where
  "project be cfg w n positions hs sc = perform [
     be_rmsnorm be hs (attn_norm w) (rms_norm_eps cfg) (sc_normed sc),
     be_matmul be (sc_normed sc) (q_proj w) (sc_q sc),
     be_matmul be (sc_normed sc) (k_proj w) (sc_k sc),
     be_matmul be (sc_normed sc) (v_proj w) (sc_v sc),
     be_rope be (view (sc_q sc) [n, num_q_heads cfg, head_dim cfg]) (view (sc_k sc) [n, num_kv_heads cfg, head_dim cfg])
       positions (rope_theta cfg) (head_dim cfg)]"

definition append_slice ::
    "'b backend \<Rightarrow> ('c, 'b) paged_cache \<Rightarrow> model_config \<Rightarrow> usize \<Rightarrow> usize \<Rightarrow> scratch \<Rightarrow> sequence_slice \<times> usize \<times> usize
     \<Rightarrow> ('c \<times> 'b, unit) comp" where
  "append_slice be pc cfg n cache_idx sc = (\<lambda>(s, start, stop).
     let m = stop - start; shape = [m, num_kv_heads cfg, head_dim cfg]; all_rows = [n, num_kv_heads cfg, head_dim cfg]
     in cbind (dev (be_alloc be shape FP16)) (\<lambda>k_slice. cbind (dev (be_alloc be shape FP16)) (\<lambda>v_slice.
        cbind (perform [be_copy_rows be (view (sc_k sc) all_rows) k_slice start 0 m,
                        be_copy_rows be (view (sc_v sc) all_rows) v_slice start 0 m]) (\<lambda>_.
        cbind (\<lambda>(c, b). pc_append_kv pc be (ss_handle s) cache_idx k_slice v_slice c b) (\<lambda>_.
        perform [be_free be k_slice, be_free be v_slice])))))"

definition attend_slice ::
    "'b backend \<Rightarrow> ('c, 'b) paged_cache \<Rightarrow> model_config \<Rightarrow> usize \<Rightarrow> usize \<Rightarrow> scratch \<Rightarrow> (sequence_slice \<times> usize \<times> usize) \<times> usize
     \<Rightarrow> ('c \<times> 'b, unit) comp" where
  "attend_slice be pc cfg n cache_idx sc = (\<lambda>((s, start, stop), start_pos).
     let m = stop - start; shape = [m, num_q_heads cfg, head_dim cfg]; all_rows = [n, num_q_heads cfg, head_dim cfg]
     in cbind (dev (be_alloc be shape FP16)) (\<lambda>q_slice.
        cbind (dev (be_copy_rows be (view (sc_q sc) all_rows) q_slice start 0 m)) (\<lambda>_.
        cbind (dev (be_alloc be shape FP16)) (\<lambda>attn_slice.
        cbind (\<lambda>(c, b). map_option (\<lambda>(r, b'). (r, (c, b')))
          (pc_dispatch_attention pc be c q_slice (ss_handle s) cache_idx (num_kv_heads cfg) (start_pos + m) start_pos attn_slice b)) (\<lambda>_.
        perform [be_copy_rows be attn_slice (view (sc_attn sc) all_rows) 0 start m,
                 be_free be q_slice, be_free be attn_slice])))))"

definition feed_forward :: "'b backend \<Rightarrow> model_config \<Rightarrow> layer_weights \<Rightarrow> usize \<Rightarrow> device_tensor \<Rightarrow> scratch \<Rightarrow> ('c \<times> 'b, unit) comp" where
  "feed_forward be cfg w n hs sc = perform [
     be_matmul be (view (sc_attn sc) [n, hidden_size cfg]) (o_proj w) (sc_projected sc),
     be_add be hs (sc_projected sc) hs,
     be_rmsnorm be hs (ffn_norm w) (rms_norm_eps cfg) (sc_normed sc),
     be_matmul be (sc_normed sc) (gate_proj w) (sc_gate sc),
     be_matmul be (sc_normed sc) (up_proj w) (sc_up sc),
     be_silu_mul be (sc_gate sc) (sc_up sc) (sc_ffn_mid sc),
     be_matmul be (sc_ffn_mid sc) (down_proj w) (sc_ffn_out sc),
     be_add be hs (sc_ffn_out sc) hs]"

definition batched_layer ::
    "'b backend \<Rightarrow> ('c, 'b) paged_cache \<Rightarrow> weight_store \<Rightarrow> (sequence_slice \<times> usize \<times> usize) list \<Rightarrow> usize list \<Rightarrow> usize
     \<Rightarrow> u32 list \<Rightarrow> device_tensor \<Rightarrow> scratch \<Rightarrow> usize \<Rightarrow> ('c \<times> 'b, unit) comp" where
  "batched_layer be pc ws batch starts n positions hs sc weight_idx =
     (if weight_idx < length (ws_layers ws) then
        let w = ws_layers ws ! weight_idx; cfg = ws_config ws in
        cbind (project be cfg w n positions hs sc) (\<lambda>_.
        cbind (cforeach (append_slice be pc cfg n weight_idx sc) batch) (\<lambda>_.
        cbind (cforeach (attend_slice be pc cfg n weight_idx sc) (zip batch starts)) (\<lambda>_.
        feed_forward be cfg w n hs sc)))
      else cpanic)"

subsection \<open>The logits of the last tokens\<close>

fun le_u16s :: "byte list \<Rightarrow> u16 list" where
  "le_u16s (a # b # bs) = (ucast a OR push_bit 8 (ucast b)) # le_u16s bs"
| "le_u16s bs = []"

definition last_logits :: "(u16 \<Rightarrow> f32) \<Rightarrow> 'b backend \<Rightarrow> weight_store \<Rightarrow> scratch \<Rightarrow> sequence_slice \<times> usize \<times> usize \<Rightarrow> ('c \<times> 'b, f32 list) comp" where
  "last_logits h2f be ws sc = (\<lambda>(s, start, stop).
     let cfg = ws_config ws in
     if stop = 0 then cpanic else
     cbind (dev (be_alloc be [1, hidden_size cfg] FP16)) (\<lambda>last_hidden.
     cbind (dev (be_copy_rows be (sc_normed sc) last_hidden (stop - 1) 0 1)) (\<lambda>_.
     cbind (dev (be_alloc be [1, vocab_size cfg] FP16)) (\<lambda>logits_tensor.
     cbind (dev (be_matmul be last_hidden (lm_head ws) logits_tensor)) (\<lambda>_.
     cbind (dev (be_copy_to_host be logits_tensor (vocab_size cfg * 2))) (\<lambda>logits_fp16.
     cbind (perform [be_free be last_hidden, be_free be logits_tensor]) (\<lambda>_.
     cret (map h2f (le_u16s logits_fp16)))))))))"

definition final_norm :: "'b backend \<Rightarrow> weight_store \<Rightarrow> device_tensor \<Rightarrow> scratch \<Rightarrow> ('c \<times> 'b, unit) comp" where
  "final_norm be ws hs sc = dev (be_rmsnorm be hs (output_norm ws) (rms_norm_eps (ws_config ws)) (sc_normed sc))"

subsection \<open>The two passes\<close>

text \<open>A range of layers is its start and its end.\<close>

definition batched_forward_model ::
    "(u16 \<Rightarrow> f32) \<Rightarrow> 'b backend \<Rightarrow> ('c, 'b) paged_cache \<Rightarrow> weight_store \<Rightarrow> usize \<times> usize \<Rightarrow> sequence_slice list
     \<Rightarrow> ('c \<times> 'b, f32 list list) comp" where
  "batched_forward_model h2f be pc ws layer_range ss =
     (if ss = [] then cret []
      else
        let cfg = ws_config ws;
            ids = concat (map ss_token_ids ss); positions = concat (map ss_positions ss); n = length ids;
            batch = zip ss (boundaries 0 (map (\<lambda>s. length (ss_token_ids s)) ss))
        in cbind (ccollect (\<lambda>s. \<lambda>(c, b). Some (pc_seq_len pc c (ss_handle s), (c, b))) ss) (\<lambda>starts.
           cbind (dev (be_alloc be [n, hidden_size cfg] FP16)) (\<lambda>hs.
           cbind (dev (be_embedding be ids (token_embedding ws) hs)) (\<lambda>_.
           cbind (alloc_scratch be cfg n) (\<lambda>sc.
           cbind (cforeach (\<lambda>layer_idx. batched_layer be pc ws batch starts n positions hs sc (layer_idx - fst layer_range))
             [fst layer_range..<snd layer_range]) (\<lambda>_.
           cbind (final_norm be ws hs sc) (\<lambda>_.
           cbind (ccollect (last_logits h2f be ws sc) batch) (\<lambda>logits.
           cbind (perform (be_synchronize be # map (be_free be) (hs # scratch_tensors sc))) (\<lambda>_.
           cret logits)))))))))"

record node_config =
  nc_layer_range :: "usize \<times> usize"
  nc_total_layers :: usize

definition is_head :: "node_config \<Rightarrow> bool" where
  "is_head nc \<longleftrightarrow> fst (nc_layer_range nc) = 0"

definition is_tail :: "node_config \<Rightarrow> bool" where
  "is_tail nc \<longleftrightarrow> snd (nc_layer_range nc) = nc_total_layers nc"

definition new_node_config :: "usize \<times> usize \<Rightarrow> usize \<Rightarrow> node_config result" where
  "new_node_config lr total_layers =
     (if \<not> fst lr < snd lr then Inl (Pipeline ''layer_range must not be empty'')
      else if snd lr > total_layers then Inl (Pipeline ''layer_range end {} exceeds total_layers {}'')
      else Inr \<lparr>nc_layer_range = lr, nc_total_layers = total_layers\<rparr>)"

datatype node_output = NodeLogits "f32 list" | NodeActivations device_tensor

text \<open>The hidden rows a node starts from, and whether it owns them.\<close>

definition resolve_input ::
    "'b backend \<Rightarrow> weight_store \<Rightarrow> node_config \<Rightarrow> sequence_slice list \<Rightarrow> device_tensor option \<Rightarrow> usize \<Rightarrow> ('c \<times> 'b, device_tensor \<times> bool) comp" where
  "resolve_input be ws nc ss input n =
     (let hidden = hidden_size (ws_config ws) in
      if is_head nc then
        if input \<noteq> None then cfail (Pipeline ''head node received activations in batched_forward_node'')
        else let ids = concat (map ss_token_ids ss) in
          if length ids \<noteq> n then cfail (InvalidShape ''token count mismatch: {} token_ids vs {} positions'')
          else cbind (dev (be_alloc be [n, hidden] FP16)) (\<lambda>hs.
               cbind (dev (be_embedding be ids (token_embedding ws) hs)) (\<lambda>_. cret (hs, True)))
      else case input of
        Some hs \<Rightarrow> (case t_shape hs of
            a # c # _ \<Rightarrow> if a \<noteq> n \<or> c \<noteq> hidden
              then cfail (InvalidShape ''activation shape [{}, {}] doesn't match expected [{}, {}]'')
              else cret (hs, False)
          | _ \<Rightarrow> cpanic)
      | None \<Rightarrow> cfail (Pipeline ''non-head node requires activations in batched_forward_node''))"

definition batched_forward_node ::
    "(u16 \<Rightarrow> f32) \<Rightarrow> 'b backend \<Rightarrow> ('c, 'b) paged_cache \<Rightarrow> weight_store \<Rightarrow> node_config \<Rightarrow> sequence_slice list
     \<Rightarrow> device_tensor option \<Rightarrow> ('c \<times> 'b, node_output) comp" where
  "batched_forward_node h2f be pc ws nc ss input =
     (if ss = [] then cfail (Pipeline ''batched_forward_node: no sequences'')
      else
        let positions = concat (map ss_positions ss); n = length positions;
            batch = zip ss (boundaries 0 (map (\<lambda>s. length (ss_positions s)) ss)); lr = nc_layer_range nc
        in cbind (resolve_input be ws nc ss input n) (\<lambda>(hs, owns_hidden).
           cbind (ccollect (\<lambda>s. \<lambda>(c, b). Some (pc_seq_len pc c (ss_handle s), (c, b))) ss) (\<lambda>starts.
           cbind (alloc_scratch be (ws_config ws) n) (\<lambda>sc.
           cbind (cforeach (\<lambda>layer_idx. batched_layer be pc ws batch starts n positions hs sc (layer_idx - fst lr))
             [fst lr..<snd lr]) (\<lambda>_.
           if is_tail nc then
             cbind (final_norm be ws hs sc) (\<lambda>_.
             cbind (ccollect (last_logits h2f be ws sc) batch) (\<lambda>logits.
             cbind (perform (be_synchronize be # map (be_free be) ((if owns_hidden then [hs] else []) @ scratch_tensors sc))) (\<lambda>_.
             cret (NodeLogits (concat logits)))))
           else
             cbind (perform (be_synchronize be # map (be_free be) (scratch_tensors sc))) (\<lambda>_.
             cret (NodeActivations hs)))))))"

end
