(* ===== verification/Batched_Pass.thy ===== *)
theory Batched_Pass
  imports Batched_Forward
begin

text \<open>
  The batched forward pass computes, for every sequence of the batch, what the reference transformer computes for
  that sequence alone, appends its keys and values to the cache and leaves the other sequences and the device
  memory as they were. The argument is carried out once in the locale \<open>cached\<close>, the contract of the trait \<open>PagedCache\<close>.
\<close>

lemma cbind_ok: "cbind m f s = Some (Inr y, s') \<longleftrightarrow> (\<exists>x s1. m s = Some (Inr x, s1) \<and> f x s1 = Some (Inr y, s'))"
  by (auto simp: cbind_def split: option.splits prod.splits sum.splits)

lemma cbind_unit_ok:
  fixes m :: "('c \<times> 'b, unit) comp"
  shows "cbind m f s = Some (Inr y, s') \<longleftrightarrow> (\<exists>c1 b1. m s = Some (Inr (), (c1, b1)) \<and> f () (c1, b1) = Some (Inr y, s'))"
  by (simp add: cbind_ok)

lemma cbind_pair_ok:
  fixes m :: "('c \<times> 'b, 'a) comp"
  shows "cbind m f s = Some (Inr y, s') \<longleftrightarrow> (\<exists>x c1 b1. m s = Some (Inr x, (c1, b1)) \<and> f x (c1, b1) = Some (Inr y, s'))"
  by (simp add: cbind_ok)

lemma cret_ok [simp]: "cret x s = Some (Inr y, s') \<longleftrightarrow> x = y \<and> s = s'"
  by (auto simp: cret_def)

lemma cfail_ok [simp]: "cfail e s = Some (Inr y, s') \<longleftrightarrow> False" "cpanic s = Some (Inr y, s') \<longleftrightarrow> False"
  by (simp_all add: cfail_def cpanic_def)

lemma dev_ok [simp]: "dev d (c, b) = Some (Inr x, (c', b')) \<longleftrightarrow> c' = c \<and> d b = (Inr x, b')"
  by (auto simp: dev_def split: prod.splits)

text \<open>A call that writes the tensor \<open>x\<close>, one of the tensors \<open>P\<close>.\<close>

lemma op_effect:
  assumes "acts live rows d (\<lambda>r. write_tensor x n (F r) r)" and "d b = (Inr (), b1)" and "x \<in> P"
  shows "live b1 = live b" "i < n \<Longrightarrow> rows b1 x i = F (rows b) i" "t \<noteq> x \<Longrightarrow> rows b1 t = rows b t"
    "t \<notin> P \<Longrightarrow> rows b1 t = rows b t"
proof -
  have e: "live b1 = live b" "rows b1 = write_tensor x n (F (rows b)) (rows b)" using assms(1,2) by (auto simp: acts_def)
  show "live b1 = live b" "i < n \<Longrightarrow> rows b1 x i = F (rows b) i" "t \<noteq> x \<Longrightarrow> rows b1 t = rows b t"
    using e by simp_all
  show "t \<notin> P \<Longrightarrow> rows b1 t = rows b t" using e(2) assms(3) by (cases "t = x") simp_all
qed

lemma perform_frees:
  assumes "kernel_laws be live rows kn" and "perform (map (be_free be) ts) (c, b) = Some (Inr (), (c', b'))"
  shows "c' = c \<and> live b' = live b - t_id ` set ts \<and> (\<forall>x. x \<notin> t_id ` set ts \<longrightarrow> rows b' x = rows b x)"
  using assms(2)
proof (induction ts arbitrary: b)
  case (Cons t ts)
  then obtain b1 where f: "be_free be t b = (Inr (), b1)" and r: "perform (map (be_free be) ts) (c, b1) = Some (Inr (), (c', b'))"
    by (auto simp: cbind_ok)
  show ?case using Cons.IH [OF r] free_effect [OF assms(1) f] by auto
qed simp

lemma compute_acts:
  assumes "kernel_laws be live rows kn"
  shows "acts live rows (be_matmul be a w out)
      (\<lambda>r. write_tensor (t_id out) (nrows a) (\<lambda>i. kn_matmul kn (r (t_id w)) (r (t_id a) i)) r)"
    and "acts live rows (be_rmsnorm be a w eps out)
      (\<lambda>r. write_tensor (t_id out) (nrows a) (\<lambda>i. kn_rmsnorm kn (r (t_id w)) eps (r (t_id a) i)) r)"
    and "t_id q \<noteq> t_id k \<Longrightarrow> acts live rows (be_rope be q k ps theta hdim)
      (\<lambda>r. write_tensor (t_id k) (length ps) (\<lambda>i. kn_rope kn theta hdim (ps ! i) (r (t_id k) i))
        (write_tensor (t_id q) (length ps) (\<lambda>i. kn_rope kn theta hdim (ps ! i) (r (t_id q) i)) r))"
    and "acts live rows (be_attention_paged be q bt kb vb nkv kvlen start out)
      (\<lambda>r. write_tensor (t_id out) (nrows q) (\<lambda>i. kn_attention kn nkv
        (map (paged_rows bt kb vb r) [0..<min kvlen (start + i + 1)]) (r (t_id q) i)) r)"
    and "acts live rows (be_silu_mul be a w out)
      (\<lambda>r. write_tensor (t_id out) (nrows a) (\<lambda>i. kn_silu_mul kn (r (t_id a) i) (r (t_id w) i)) r)"
    and "acts live rows (be_embedding be ids table out)
      (\<lambda>r. write_tensor (t_id out) (length ids) (\<lambda>i. r (t_id table) (unat (ids ! i))) r)"
    and "acts live rows (be_add be a w out)
      (\<lambda>r. write_tensor (t_id out) (nrows a) (\<lambda>i. kn_add kn (r (t_id a) i) (r (t_id w) i)) r)"
    and "acts live rows (be_synchronize be) (\<lambda>r. r)"
  using assms by (simp_all add: kernel_laws_def compute_laws_def)

lemma nrows_view [simp]: "nrows (view t (n # sh)) = n" "t_id (view t sh) = t_id t" "t_shape (view t sh) = sh"
  by (simp_all add: nrows_def view_def)

lemma cbind_assoc [simp]: "cbind (cbind m f) g = cbind m (\<lambda>x. cbind (f x) g)" "cbind (cret x) f = f x"
  by (auto simp: fun_eq_iff cbind_def cret_def split: option.splits sum.splits)

lemma cforeach_append: "cforeach f (xs @ ys) = cbind (cforeach f xs) (\<lambda>_. cforeach f ys)"
  by (induction xs) (simp_all add: cbind_assoc)

lemma cforeach_map: "cforeach f (map g xs) = cforeach (\<lambda>x. f (g x)) xs"
  by (induction xs) simp_all

subsection \<open>The batched parts of a layer\<close>

text \<open>The tensors of a pass: the hidden rows and the scratch, all different, with \<open>n\<close> rows each.\<close>

definition pass_tensors :: "device_tensor \<Rightarrow> scratch \<Rightarrow> device_tensor list" where
  "pass_tensors hs sc = hs # scratch_tensors sc"

definition workspace :: "nat \<Rightarrow> device_tensor \<Rightarrow> scratch \<Rightarrow> bool" where
  "workspace n hs sc \<longleftrightarrow> distinct (map t_id (pass_tensors hs sc)) \<and> (\<forall>t \<in> set (pass_tensors hs sc). nrows t = n)"

lemmas workspace_simps = workspace_def pass_tensors_def scratch_tensors_def

definition weight_ids :: "layer_weights \<Rightarrow> u64 set" where
  "weight_ids w = t_id ` {q_proj w, k_proj w, v_proj w, o_proj w, gate_proj w, up_proj w, down_proj w, attn_norm w, ffn_norm w}"

lemma in_workspace:
  "t_id hs \<in> t_id ` set (pass_tensors hs sc)" "t_id (sc_normed sc) \<in> t_id ` set (pass_tensors hs sc)"
  "t_id (sc_q sc) \<in> t_id ` set (pass_tensors hs sc)" "t_id (sc_k sc) \<in> t_id ` set (pass_tensors hs sc)"
  "t_id (sc_v sc) \<in> t_id ` set (pass_tensors hs sc)" "t_id (sc_attn sc) \<in> t_id ` set (pass_tensors hs sc)"
  "t_id (sc_projected sc) \<in> t_id ` set (pass_tensors hs sc)" "t_id (sc_gate sc) \<in> t_id ` set (pass_tensors hs sc)"
  "t_id (sc_up sc) \<in> t_id ` set (pass_tensors hs sc)" "t_id (sc_ffn_mid sc) \<in> t_id ` set (pass_tensors hs sc)"
  "t_id (sc_ffn_out sc) \<in> t_id ` set (pass_tensors hs sc)"
  by (simp_all add: pass_tensors_def scratch_tensors_def)

lemma weights_outside:
  assumes "weight_ids w \<inter> P = {}"
  shows "t_id (q_proj w) \<notin> P" "t_id (k_proj w) \<notin> P" "t_id (v_proj w) \<notin> P" "t_id (o_proj w) \<notin> P" "t_id (gate_proj w) \<notin> P"
    "t_id (up_proj w) \<notin> P" "t_id (down_proj w) \<notin> P" "t_id (attn_norm w) \<notin> P" "t_id (ffn_norm w) \<notin> P"
  using assms by (auto simp: weight_ids_def)

lemma token_cong:
  assumes "\<And>t. t \<in> weight_ids w \<Longrightarrow> W t = W' t"
  shows "token_ffn kn cfg W w = token_ffn kn cfg W' w" "token_kv kn cfg W w = token_kv kn cfg W' w" "token_q kn cfg W w = token_q kn cfg W' w"
proof -
  have "W (t_id (q_proj w)) = W' (t_id (q_proj w))" "W (t_id (k_proj w)) = W' (t_id (k_proj w))" "W (t_id (v_proj w)) = W' (t_id (v_proj w))"
    "W (t_id (o_proj w)) = W' (t_id (o_proj w))" "W (t_id (gate_proj w)) = W' (t_id (gate_proj w))" "W (t_id (up_proj w)) = W' (t_id (up_proj w))"
    "W (t_id (down_proj w)) = W' (t_id (down_proj w))" "W (t_id (attn_norm w)) = W' (t_id (attn_norm w))" "W (t_id (ffn_norm w)) = W' (t_id (ffn_norm w))"
    by (rule assms, simp add: weight_ids_def)+
  then show "token_ffn kn cfg W w = token_ffn kn cfg W' w" "token_kv kn cfg W w = token_kv kn cfg W' w" "token_q kn cfg W w = token_q kn cfg W' w"
    by (intro ext; simp add: token_ffn_def token_kv_def token_q_def)+
qed

lemma layer_cong:
  assumes "\<And>t. t \<in> weight_ids w \<Longrightarrow> W t = W' t"
  shows "layer_kvs kn cfg W w = layer_kvs kn cfg W' w" "layer_out kn cfg W w = layer_out kn cfg W' w"
  by (simp_all add: layer_kvs_def layer_out_def token_out_def fun_eq_iff token_cong [of w W W', OF assms])

lemma project_effect:
  assumes laws: "kernel_laws be live rows kn" and ws: "workspace n hs sc"
    and out: "weight_ids w \<inter> t_id ` set (pass_tensors hs sc) = {}" and len: "length positions = n"
    and run: "project be cfg w n positions hs sc (c, b) = Some (Inr (), (c', b'))"
  shows "c' = c \<and> live b' = live b
    \<and> (\<forall>t. t \<notin> t_id ` {sc_normed sc, sc_q sc, sc_k sc, sc_v sc} \<longrightarrow> rows b' t = rows b t)
    \<and> (\<forall>i < n. (rows b' (t_id (sc_k sc)) i, rows b' (t_id (sc_v sc)) i) = token_kv kn cfg (rows b) w (positions ! i) (rows b (t_id hs) i)
        \<and> rows b' (t_id (sc_q sc)) i = token_q kn cfg (rows b) w (positions ! i) (rows b (t_id hs) i))"
proof -
  let ?P = "t_id ` set (pass_tensors hs sc)"
  note ne = ws [unfolded workspace_simps, simplified] weights_outside [OF out]
  note inw = in_workspace [where hs = hs and sc = sc]
  from run obtain b1 b2 b3 b4 where
    1: "be_rmsnorm be hs (attn_norm w) (rms_norm_eps cfg) (sc_normed sc) b = (Inr (), b1)" and
    2: "be_matmul be (sc_normed sc) (q_proj w) (sc_q sc) b1 = (Inr (), b2)" and
    3: "be_matmul be (sc_normed sc) (k_proj w) (sc_k sc) b2 = (Inr (), b3)" and
    4: "be_matmul be (sc_normed sc) (v_proj w) (sc_v sc) b3 = (Inr (), b4)" and
    5: "be_rope be (view (sc_q sc) [n, num_q_heads cfg, head_dim cfg]) (view (sc_k sc) [n, num_kv_heads cfg, head_dim cfg])
       positions (rope_theta cfg) (head_dim cfg) b4 = (Inr (), b')" "c' = c"
    by (auto simp: project_def cbind_ok)
  have qk: "t_id (view (sc_q sc) sh) \<noteq> t_id (view (sc_k sc) sh')" for sh sh'
    using ne(1) by simp
  have 6: "live b' = live b4 \<and> rows b' =
      write_tensor (t_id (sc_k sc)) n (\<lambda>i. kn_rope kn (rope_theta cfg) (head_dim cfg) (positions ! i) (rows b4 (t_id (sc_k sc)) i))
        (write_tensor (t_id (sc_q sc)) n (\<lambda>i. kn_rope kn (rope_theta cfg) (head_dim cfg) (positions ! i) (rows b4 (t_id (sc_q sc)) i)) (rows b4))"
    using 5(1) compute_acts(3) [OF laws qk] len by (auto simp: acts_def)
  note e = op_effect [OF compute_acts(2) [OF laws] 1 inw(2)] op_effect [OF compute_acts(1) [OF laws] 2 inw(3)]
    op_effect [OF compute_acts(1) [OF laws] 3 inw(4)] op_effect [OF compute_acts(1) [OF laws] 4 inw(5)]
  have "t_id (sc_v sc) \<noteq> t_id (sc_k sc)" "t_id (sc_v sc) \<noteq> t_id (sc_q sc)" using ne(1) by auto
  then show ?thesis
    using 5(2) 6 ne by (simp add: e token_kv_def token_q_def Let_def)
qed

lemma feed_forward_effect:
  assumes laws: "kernel_laws be live rows kn" and ws: "workspace n hs sc"
    and out: "weight_ids w \<inter> t_id ` set (pass_tensors hs sc) = {}"
    and run: "feed_forward be cfg w n hs sc (c, b) = Some (Inr (), (c', b'))"
  shows "c' = c \<and> live b' = live b
    \<and> (\<forall>t. t \<notin> t_id ` set (pass_tensors hs sc) \<longrightarrow> rows b' t = rows b t)
    \<and> (\<forall>i < n. rows b' (t_id hs) i = token_ffn kn cfg (rows b) w (rows b (t_id hs) i) (rows b (t_id (sc_attn sc)) i))"
proof -
  note ne = ws [unfolded workspace_simps, simplified] weights_outside [OF out]
  note inw = in_workspace [where hs = hs and sc = sc]
  from run obtain b1 b2 b3 b4 b5 b6 b7 where
    1: "be_matmul be (view (sc_attn sc) [n, hidden_size cfg]) (o_proj w) (sc_projected sc) b = (Inr (), b1)" and
    2: "be_add be hs (sc_projected sc) hs b1 = (Inr (), b2)" and
    3: "be_rmsnorm be hs (ffn_norm w) (rms_norm_eps cfg) (sc_normed sc) b2 = (Inr (), b3)" and
    4: "be_matmul be (sc_normed sc) (gate_proj w) (sc_gate sc) b3 = (Inr (), b4)" and
    5: "be_matmul be (sc_normed sc) (up_proj w) (sc_up sc) b4 = (Inr (), b5)" and
    6: "be_silu_mul be (sc_gate sc) (sc_up sc) (sc_ffn_mid sc) b5 = (Inr (), b6)" and
    7: "be_matmul be (sc_ffn_mid sc) (down_proj w) (sc_ffn_out sc) b6 = (Inr (), b7)" and
    8: "be_add be hs (sc_ffn_out sc) hs b7 = (Inr (), b')" "c' = c"
    by (auto simp: feed_forward_def cbind_ok)
  note m = compute_acts(1) [OF laws]
  note e = op_effect [OF m 1 inw(7)] op_effect [OF compute_acts(7) [OF laws] 2 inw(1)] op_effect [OF compute_acts(2) [OF laws] 3 inw(2)]
    op_effect [OF m 4 inw(8)] op_effect [OF m 5 inw(9)] op_effect [OF compute_acts(5) [OF laws] 6 inw(10)] op_effect [OF m 7 inw(11)]
    op_effect [OF compute_acts(7) [OF laws] 8(1) inw(1)]
  show ?thesis using 8(2) ne by (simp add: e token_ffn_def Let_def)
qed

subsection \<open>The slices of a batch\<close>

lemma length_boundaries [simp]: "length (boundaries off ns) = length ns"
  by (induction ns arbitrary: off) simp_all

lemma slice_of_batch:
  assumes "x \<in> set (zip ss (boundaries off (map (\<lambda>s. length (f s)) ss)))"
  shows "fst x \<in> set ss \<and> off \<le> fst (snd x) \<and> snd (snd x) = fst (snd x) + length (f (fst x))
    \<and> snd (snd x) \<le> off + length (concat (map f ss)) \<and> (\<forall>i < length (f (fst x)). concat (map f ss) ! (fst (snd x) - off + i) = f (fst x) ! i)"
  using assms
proof (induction ss arbitrary: off)
  case (Cons s ss)
  show ?case
  proof (cases "x = (s, off, off + length (f s))")
    case True
    then show ?thesis by (simp add: nth_append)
  next
    case False
    then have "x \<in> set (zip ss (boundaries (off + length (f s)) (map (\<lambda>s. length (f s)) ss)))" using Cons.prems by simp
    note IH = Cons.IH [OF this]
    then have "concat (map f (s # ss)) ! (fst (snd x) - off + i) = f (fst x) ! i" if "i < length (f (fst x))" for i
    proof -
      have "fst (snd x) - off + i = length (f s) + (fst (snd x) - (off + length (f s)) + i)" using IH by simp
      then have "concat (map f (s # ss)) ! (fst (snd x) - off + i) = concat (map f ss) ! (fst (snd x) - (off + length (f s)) + i)"
        by (simp only: list.map concat.simps nth_append_length_plus)
      also have "\<dots> = f (fst x) ! i" using IH that by blast
      finally show ?thesis .
    qed
    then show ?thesis using IH by simp
  qed
qed simp

text \<open>The slices lie behind each other.\<close>

definition spaced :: "(sequence_slice \<times> usize \<times> usize) list \<Rightarrow> bool" where
  "spaced batch \<longleftrightarrow> sorted_wrt (\<lambda>x y. snd (snd x) \<le> fst (snd y)) batch \<and> (\<forall>x \<in> set batch. fst (snd x) \<le> snd (snd x))"

lemma spaced_batch: "spaced (zip ss (boundaries off (map (\<lambda>s. length (f s)) ss)))"
proof (induction ss arbitrary: off)
  case (Cons s ss)
  then show ?case using slice_of_batch [of _ ss "off + length (f s)" f] by (auto simp: spaced_def)
qed (simp add: spaced_def)

lemma ccollect_ok:
  assumes "ccollect f xs s = Some (Inr ys, s')"
    and "\<And>x y s1 s2. x \<in> set xs \<Longrightarrow> I s1 \<Longrightarrow> f x s1 = Some (Inr y, s2) \<Longrightarrow> I s2 \<and> Q x y" and "I s"
  shows "I s' \<and> list_all2 Q xs ys"
  using assms
proof (induction xs arbitrary: s ys)
  case (Cons x xs)
  from Cons.prems(1) obtain y s1 zs where y: "f x s = Some (Inr y, s1)" and r: "ccollect f xs s1 = Some (Inr zs, s')" and ys: "ys = y # zs"
    by (auto simp: cbind_ok)
  have "I s1 \<and> Q x y" using Cons.prems(2) [OF _ Cons.prems(3) y] by simp
  then show ?case using Cons.IH [OF r] Cons.prems(2) by (auto simp: ys)
qed simp

lemma alloc_scratch_effect:
  assumes laws: "kernel_laws be live rows kn" and hs: "t_id hs \<in> live b" "nrows hs = n"
    and run: "alloc_scratch be cfg n (c, b) = Some (Inr sc, (c', b'))"
  shows "c' = c \<and> workspace n hs sc \<and> live b' = live b \<union> t_id ` set (scratch_tensors sc) \<and> live b \<inter> t_id ` set (scratch_tensors sc) = {}
    \<and> (\<forall>t \<in> live b. rows b' t = rows b t)"
proof -
  from run obtain b1 b2 b3 b4 b5 b6 b7 b8 b9 where s:
    "be_alloc be [n, hidden_size cfg] FP16 b = (Inr (sc_normed sc), b1)" "be_alloc be [n, hidden_size cfg] FP16 b1 = (Inr (sc_q sc), b2)"
    "be_alloc be [n, num_kv_heads cfg * head_dim cfg] FP16 b2 = (Inr (sc_k sc), b3)"
    "be_alloc be [n, num_kv_heads cfg * head_dim cfg] FP16 b3 = (Inr (sc_v sc), b4)"
    "be_alloc be [n, hidden_size cfg] FP16 b4 = (Inr (sc_attn sc), b5)" "be_alloc be [n, hidden_size cfg] FP16 b5 = (Inr (sc_projected sc), b6)"
    "be_alloc be [n, intermediate_size cfg] FP16 b6 = (Inr (sc_gate sc), b7)" "be_alloc be [n, intermediate_size cfg] FP16 b7 = (Inr (sc_up sc), b8)"
    "be_alloc be [n, intermediate_size cfg] FP16 b8 = (Inr (sc_ffn_mid sc), b9)" "be_alloc be [n, hidden_size cfg] FP16 b9 = (Inr (sc_ffn_out sc), b')"
    "c' = c"
    by (auto simp: alloc_scratch_def Let_def cbind_ok)
  note a = s(1-10) [THEN alloc_effect(1) [OF laws]] and l = s(1-10) [THEN alloc_effect(2) [OF laws]]
    and sh = s(1-10) [THEN alloc_effect(3) [OF laws]] and r = s(1-10) [THEN alloc_effect(4) [OF laws]]
  have new: "live b \<inter> t_id ` set (scratch_tensors sc) = {}" using a by (auto simp: l scratch_tensors_def)
  have "distinct (map t_id (scratch_tensors sc))" using a by (auto simp: l scratch_tensors_def)
  then have "workspace n hs sc" using new hs(1) sh hs(2) by (auto simp: workspace_simps nrows_def)
  moreover have "rows b' t = rows b t" if "t \<in> live b" for t
  proof -
    have "t \<notin> t_id ` set (scratch_tensors sc)" using new that by blast
    then show ?thesis by (simp add: scratch_tensors_def r)
  qed
  moreover have "live b' = live b \<union> t_id ` set (scratch_tensors sc)" by (auto simp: l scratch_tensors_def)
  ultimately show ?thesis using new s(11) by blast
qed

lemma last_logits_effect:
  assumes laws: "kernel_laws be live rows kn" and live: "t_id (sc_normed sc) \<in> live b" "t_id (lm_head ws) \<in> live b"
    and run: "last_logits h2f be ws sc x (c, b) = Some (Inr lg, (c', b'))"
  shows "c' = c \<and> live b' = live b \<and> (\<forall>t \<in> live b. rows b' t = rows b t) \<and> lg = map h2f (le_u16s (kn_bytes kn (vocab_size (ws_config ws) * 2)
    (kn_matmul kn (rows b (t_id (lm_head ws))) (rows b (t_id (sc_normed sc)) (snd (snd x) - 1)))))"
proof -
  obtain s start stop where x: "x = (s, start, stop)" by (cases x) auto
  have "stop \<noteq> 0" using run by (auto simp: x last_logits_def Let_def split: if_splits)
  with run obtain lh b1 b2 lt b3 b4 bs b5 b6 where
    1: "be_alloc be [1, hidden_size (ws_config ws)] FP16 b = (Inr lh, b1)" and
    2: "be_copy_rows be (sc_normed sc) lh (stop - 1) 0 1 b1 = (Inr (), b2)" and
    3: "be_alloc be [1, vocab_size (ws_config ws)] FP16 b2 = (Inr lt, b3)" and
    4: "be_matmul be lh (lm_head ws) lt b3 = (Inr (), b4)" and
    5: "be_copy_to_host be lt (vocab_size (ws_config ws) * 2) b4 = (Inr bs, b5)" and
    6: "be_free be lh b5 = (Inr (), b6)" and 7: "be_free be lt b6 = (Inr (), b')" "c' = c" "lg = map h2f (le_u16s bs)"
    by (auto simp: x last_logits_def Let_def cbind_ok)
  note a1 = alloc_effect [OF laws 1] and a3 = alloc_effect [OF laws 3]
  have c2: "live b2 = live b1" "rows b2 = (\<lambda>t i. if t = t_id lh \<and> i < 1 then rows b1 (t_id (sc_normed sc)) (stop - 1 + i) else rows b1 t i)"
    using 2 copy_rows_acts [OF laws] by (fastforce simp: acts_def)+
  have m4: "live b4 = live b3" "rows b4 = write_tensor (t_id lt) (nrows lh) (\<lambda>i. kn_matmul kn (rows b3 (t_id (lm_head ws))) (rows b3 (t_id lh) i)) (rows b3)"
    using 4 compute_acts(1) [OF laws] by (auto simp: acts_def)
  have h5: "live b5 = live b4" "rows b5 = rows b4" "bs = kn_bytes kn (vocab_size (ws_config ws) * 2) (rows b4 (t_id lt) 0)"
    using 5 laws by (auto simp: kernel_laws_def memory_laws_def)
  note f6 = free_effect [OF laws 6] and f7 = free_effect [OF laws 7(1)]
  have new: "t_id lh \<notin> live b" "t_id lt \<notin> live b" "t_id lh \<noteq> t_id lt" using a1 a3 c2(1) by auto
  have ne: "t \<noteq> t_id lh" "t \<noteq> t_id lt" if "t \<in> live b" for t using that new by auto
  have old: "rows b3 t = rows b t" "rows b' t = rows b t" if "t \<in> live b" for t
    using ne [OF that] a1(4) a3(4) f6(2) f7(2) by (simp_all add: c2 m4 h5)
  have "rows b3 (t_id lh) 0 = rows b (t_id (sc_normed sc)) (stop - 1)"
    using new(3) ne [OF live(1)] a1(4) a3(4) by (simp add: c2)
  moreover have "nrows lh = 1" using a1(3) by (simp add: nrows_def)
  ultimately have "rows b4 (t_id lt) 0 = kn_matmul kn (rows b (t_id (lm_head ws))) (rows b (t_id (sc_normed sc)) (stop - 1))"
    using old(1) [OF live(2)] by (simp add: m4)
  moreover have "live b' = live b" using f6(1) f7(1) new a1(2) a3(2) by (auto simp: h5 m4 c2)
  ultimately show ?thesis using 7(2,3) h5(3) old(2) by (simp add: x)
qed

text \<open>The key and value rows of a slice in the scratch tensors.\<close>

definition new_rows :: "('b \<Rightarrow> u64 \<Rightarrow> nat \<Rightarrow> 'r) \<Rightarrow> 'b \<Rightarrow> scratch \<Rightarrow> sequence_slice \<times> usize \<times> usize \<Rightarrow> u64 \<times> ('r \<times> 'r) list" where
  "new_rows rows b sc = (\<lambda>(s, start, stop). (ss_handle s,
     map (\<lambda>i. (rows b (t_id (sc_k sc)) (start + i), rows b (t_id (sc_v sc)) (start + i))) [0..<stop - start]))"

lemma fst_new_rows [simp]: "fst (new_rows rows b sc x) = ss_handle (fst x)"
  by (simp add: new_rows_def split: prod.splits)

text \<open>The rows of a tensor that belong to a slice.\<close>

definition slice_rows :: "('b \<Rightarrow> u64 \<Rightarrow> nat \<Rightarrow> 'r) \<Rightarrow> 'b \<Rightarrow> device_tensor \<Rightarrow> sequence_slice \<times> usize \<times> usize \<Rightarrow> 'r list" where
  "slice_rows rows b t x = map (\<lambda>i. rows b (t_id t) (fst (snd x) + i)) [0..<snd (snd x) - fst (snd x)]"

definition in_batch :: "u32 list \<Rightarrow> sequence_slice \<times> usize \<times> usize \<Rightarrow> bool" where
  "in_batch positions x \<longleftrightarrow> snd (snd x) = fst (snd x) + length (ss_positions (fst x)) \<and> snd (snd x) \<le> length positions
     \<and> (\<forall>i < length (ss_positions (fst x)). positions ! (fst (snd x) + i) = ss_positions (fst x) ! i)"

definition model_weights :: "weight_store \<Rightarrow> u64 set" where
  "model_weights ws = (\<Union>w \<in> set (ws_layers ws). weight_ids w) \<union> {t_id (token_embedding ws), t_id (output_norm ws), t_id (lm_head ws)}"

text \<open>What the pass returns for the sequence \<open>s\<close>, from its tokens and the rows its cache holds.\<close>

definition expected_logits :: "(u16 \<Rightarrow> f32) \<Rightarrow> 'r kernels \<Rightarrow> weight_store \<Rightarrow> (u64 \<Rightarrow> nat \<Rightarrow> 'r) \<Rightarrow> (nat \<Rightarrow> ('r \<times> 'r) list) \<Rightarrow> nat \<Rightarrow> sequence_slice \<Rightarrow> f32 list" where
  "expected_logits h2f kn ws W past L s = map h2f (le_u16s (kn_bytes kn (vocab_size (ws_config ws) * 2)
     (logits_row kn ws W (last (hidden_after kn ws W past (ss_positions s) (embed ws W (ss_token_ids s)) L)))))"

lemma ref_cong:
  assumes "\<And>t. t \<in> model_weights ws \<Longrightarrow> W t = W' t" and "L \<le> length (ws_layers ws)" and "\<And>l. l < L \<Longrightarrow> past l = past' l"
  shows "l \<le> L \<Longrightarrow> hidden_after kn ws W past ps hs0 l = hidden_after kn ws W' past' ps hs0 l"
    and "l < L \<Longrightarrow> new_kvs kn ws W past ps hs0 l = new_kvs kn ws W' past' ps hs0 l"
proof -
  have w: "W t = W' t" if "t \<in> weight_ids (ws_layers ws ! l)" "l < L" for t l
  proof (rule assms(1))
    have "ws_layers ws ! l \<in> set (ws_layers ws)" using that(2) assms(2) by simp
    then show "t \<in> model_weights ws" using that(1) by (auto simp: model_weights_def)
  qed
  have h: "hidden_after kn ws W past ps hs0 l = hidden_after kn ws W' past' ps hs0 l" if "l \<le> L" for l
    using that
  proof (induction l)
    case (Suc l)
    then show ?case using layer_cong(2) [of "ws_layers ws ! l" W W' kn "ws_config ws", OF w] assms(3) by simp
  qed simp
  then show "l \<le> L \<Longrightarrow> hidden_after kn ws W past ps hs0 l = hidden_after kn ws W' past' ps hs0 l" .
  show "l < L \<Longrightarrow> new_kvs kn ws W past ps hs0 l = new_kvs kn ws W' past' ps hs0 l"
    using h [of l] layer_cong(1) [of "ws_layers ws ! l" W W' kn "ws_config ws", OF w] by (simp add: new_kvs_def)
qed

subsection \<open>The contract of a paged cache\<close>

text \<open>\<open>good\<close> is the invariant of the cache, \<open>own\<close> the tensors it keeps its rows in, \<open>depth\<close> its number of layers and
  \<open>held\<close> the key and value rows a sequence holds at a layer. The lengths grow when layer 0 is appended to; the
  other layers then fill the new positions.\<close>

locale cached =
  fixes pc :: "('c, 'b) paged_cache" and good :: "'c \<Rightarrow> bool" and own :: "'c \<Rightarrow> u64 set" and depth :: "'c \<Rightarrow> nat"
    and held :: "('b \<Rightarrow> u64 \<Rightarrow> nat \<Rightarrow> 'r) \<Rightarrow> 'b \<Rightarrow> 'c \<Rightarrow> u64 \<Rightarrow> nat \<Rightarrow> ('r \<times> 'r) list"
  assumes seq_len_held: "pc_seq_len pc c h = Inr n \<Longrightarrow> length (held rows b c h l) = n"
    and held_length: "length (held rows b c h l) = length (held rows b c h 0)"
    and held_cong: "good c \<Longrightarrow> l < depth c \<Longrightarrow> (\<And>t. t \<in> own c \<Longrightarrow> rows b' t = rows b t) \<Longrightarrow> held rows b' c h l = held rows b c h l"
    and append: "kernel_laws be live rows kn \<Longrightarrow> good c \<Longrightarrow> l < depth c \<Longrightarrow> t_shape k = n # rest \<Longrightarrow>
        t_id k \<notin> own c \<Longrightarrow> t_id v \<notin> own c \<Longrightarrow> pc_append_kv pc be h l k v c b = Some (Inr (), c', b') \<Longrightarrow>
        good c' \<and> own c' = own c \<and> depth c' = depth c \<and> live b' = live b \<and> (\<forall>t. t \<notin> own c \<longrightarrow> rows b' t = rows b t)
        \<and> held rows b' c' h l = take (length (held rows b c h l) - (if l = 0 then 0 else n)) (held rows b c h l)
            @ map (\<lambda>i. (rows b (t_id k) i, rows b (t_id v) i)) [0..<n]
        \<and> (\<forall>j < depth c. j \<noteq> l \<longrightarrow> take (length (held rows b c h j)) (held rows b' c' h j) = held rows b c h j)
        \<and> (\<forall>g j. j < depth c \<longrightarrow> g \<noteq> h \<longrightarrow> held rows b' c' g j = held rows b c g j)"
    and attend: "kernel_laws be live rows kn \<Longrightarrow> good c \<Longrightarrow> l < depth c \<Longrightarrow> kvlen = length (held rows b c h l) \<Longrightarrow>
        pc_dispatch_attention pc be c q h l nkv kvlen start out b = Some (Inr (), b') \<Longrightarrow>
        live b' = live b \<and> rows b' = write_tensor (t_id out) (nrows q)
          (\<lambda>i. kn_attention kn nkv (take (start + i + 1) (held rows b c h l)) (rows b (t_id q) i)) (rows b)"
begin

text \<open>What happens at layer \<open>l\<close> to the sequences that get new rows. Of the live tensors outside the cache only
  those of \<open>P\<close> change.\<close>

definition appended :: "('b \<Rightarrow> u64 set) \<Rightarrow> ('b \<Rightarrow> u64 \<Rightarrow> nat \<Rightarrow> 'r) \<Rightarrow> u64 set \<Rightarrow> nat \<Rightarrow> (u64 \<times> ('r \<times> 'r) list) list
    \<Rightarrow> 'c \<times> 'b \<Rightarrow> 'c \<times> 'b \<Rightarrow> bool" where
  "appended live rows P l new = (\<lambda>(c, b) (c', b'). good c' \<and> own c' = own c \<and> depth c' = depth c \<and> live b' = live b
     \<and> (\<forall>t \<in> live b - own c - P. rows b' t = rows b t)
     \<and> (\<forall>(h, kvs) \<in> set new. held rows b' c' h l
          = take (length (held rows b c h l) - (if l = 0 then 0 else length kvs)) (held rows b c h l) @ kvs)
     \<and> (\<forall>h. \<forall>j < depth c. j \<noteq> l \<longrightarrow> take (length (held rows b c h j)) (held rows b' c' h j) = held rows b c h j)
     \<and> (\<forall>h. \<forall>j < depth c. h \<notin> fst ` set new \<longrightarrow> held rows b' c' h j = held rows b c h j))"

lemma appendedD:
  assumes "appended live rows P l new (c, b) (c', b')"
  shows "good c'" "own c' = own c" "depth c' = depth c" "live b' = live b"
    "t \<in> live b \<Longrightarrow> t \<notin> own c \<Longrightarrow> t \<notin> P \<Longrightarrow> rows b' t = rows b t"
    "(h, kvs) \<in> set new \<Longrightarrow> held rows b' c' h l = take (length (held rows b c h l) - (if l = 0 then 0 else length kvs)) (held rows b c h l) @ kvs"
    "j < depth c \<Longrightarrow> j \<noteq> l \<Longrightarrow> take (length (held rows b c g j)) (held rows b' c' g j) = held rows b c g j"
    "j < depth c \<Longrightarrow> g \<notin> fst ` set new \<Longrightarrow> held rows b' c' g j = held rows b c g j"
  using assms unfolding appended_def prod.case by blast+

lemma append_slice_effect:
  assumes laws: "kernel_laws be live rows kn" and good: "good c" "l < depth c" "own c \<subseteq> live b"
    and k: "t_id (sc_k sc) \<in> live b" "t_id (sc_v sc) \<in> live b"
    and run: "append_slice be pc cfg n l sc (s, start, stop) (c, b) = Some (Inr (), (c', b'))"
  shows "appended live rows {} l [(ss_handle s, map (\<lambda>i. (rows b (t_id (sc_k sc)) (start + i), rows b (t_id (sc_v sc)) (start + i))) [0..<stop - start])]
    (c, b) (c', b')"
proof -
  from run obtain ks b1 vs b2 b3 b4 b5 b6 where
    1: "be_alloc be [stop - start, num_kv_heads cfg, head_dim cfg] FP16 b = (Inr ks, b1)" and
    2: "be_alloc be [stop - start, num_kv_heads cfg, head_dim cfg] FP16 b1 = (Inr vs, b2)" and
    3: "be_copy_rows be (view (sc_k sc) [n, num_kv_heads cfg, head_dim cfg]) ks start 0 (stop - start) b2 = (Inr (), b3)" and
    4: "be_copy_rows be (view (sc_v sc) [n, num_kv_heads cfg, head_dim cfg]) vs start 0 (stop - start) b3 = (Inr (), b4)" and
    5: "pc_append_kv pc be (ss_handle s) l ks vs c b4 = Some (Inr (), c', b5)" and
    6: "be_free be ks b5 = (Inr (), b6)" and 7: "be_free be vs b6 = (Inr (), b')"
    by (fastforce simp: append_slice_def cbind_ok Let_def)
  note a1 = alloc_effect [OF laws 1] and a2 = alloc_effect [OF laws 2]
  have new: "t_id ks \<notin> live b" "t_id vs \<notin> live b" "t_id ks \<noteq> t_id vs" using a1 a2 by auto
  have c3: "live b3 = live b2" "rows b3 = (\<lambda>t i. if t = t_id ks \<and> i < stop - start then rows b2 (t_id (sc_k sc)) (start + i) else rows b2 t i)"
    using 3 copy_rows_acts [OF laws] by (fastforce simp: acts_def)+
  have c4: "live b4 = live b3" "rows b4 = (\<lambda>t i. if t = t_id vs \<and> i < stop - start then rows b3 (t_id (sc_v sc)) (start + i) else rows b3 t i)"
    using 4 copy_rows_acts [OF laws] by (fastforce simp: acts_def)+
  have old: "rows b4 t = rows b t" if "t \<in> live b" for t
  proof -
    have "t \<noteq> t_id ks" "t \<noteq> t_id vs" using that new by auto
    then show ?thesis using a1(4) a2(4) by (simp add: c3 c4)
  qed
  have slices: "rows b4 (t_id ks) i = rows b (t_id (sc_k sc)) (start + i)" "rows b4 (t_id vs) i = rows b (t_id (sc_v sc)) (start + i)"
    if "i < stop - start" for i
  proof -
    have "t_id (sc_k sc) \<noteq> t_id ks" "t_id (sc_k sc) \<noteq> t_id vs" "t_id (sc_v sc) \<noteq> t_id ks" "t_id (sc_v sc) \<noteq> t_id vs"
      using new k by auto
    then show "rows b4 (t_id ks) i = rows b (t_id (sc_k sc)) (start + i)" "rows b4 (t_id vs) i = rows b (t_id (sc_v sc)) (start + i)"
      using that new(3) a1(4) a2(4) by (simp_all add: c3 c4)
  qed
  have h4: "held rows b4 c h j = held rows b c h j" if "j < depth c" for h j
    by (rule held_cong [OF good(1) that]) (use old good(3) in auto)
  have out: "t_id ks \<notin> own c" "t_id vs \<notin> own c" using new good(3) by auto
  note ap = append [OF laws good(1,2) a1(3) out 5]
  note f6 = free_effect [OF laws 6] and f7 = free_effect [OF laws 7]
  have h': "held rows b' c' h j = held rows b5 c' h j" if "j < depth c" for h j
  proof (rule held_cong)
    fix t assume "t \<in> own c'"
    then have "t \<noteq> t_id ks" "t \<noteq> t_id vs" using ap out by auto
    then show "rows b' t = rows b5 t" using f6(2) f7(2) by simp
  qed (use ap that in auto)
  have m: "map (\<lambda>i. (rows b4 (t_id ks) i, rows b4 (t_id vs) i)) [0..<stop - start]
      = map (\<lambda>i. (rows b (t_id (sc_k sc)) (start + i), rows b (t_id (sc_v sc)) (start + i))) [0..<stop - start]"
    using slices by simp
  have r: "rows b' t = rows b t" if "t \<in> live b - own c" for t
  proof -
    have "t \<noteq> t_id ks" "t \<noteq> t_id vs" using that new by auto
    then show ?thesis using that ap old f6(2) f7(2) by simp
  qed
  have lv: "live b' = live b" using ap f6(1) f7(1) new a1(2) a2(2) by (auto simp: c3 c4)
  have others: "take (length (held rows b c h j)) (held rows b' c' h j) = held rows b c h j" if "j < depth c" "j \<noteq> l" for h j
    using ap that by (cases "h = ss_handle s") (auto simp: h' h4)
  show ?thesis using ap good(2) others r lv by (simp add: appended_def h' h4 m)
qed

lemma appended_trans:
  assumes "appended live rows P l new1 (c, b) (c1, b1)" and "appended live rows P l new2 (c1, b1) (c2, b2)"
    and "fst ` set new1 \<inter> fst ` set new2 = {}" and "l < depth c"
  shows "appended live rows P l (new1 @ new2) (c, b) (c2, b2)"
proof -
  have pre: "take (length x) z = x" if "take (length x) y = x" "take (length y) z = y" for x y z :: "('r \<times> 'r) list"
  proof -
    have "length x \<le> length y" using that(1) by (metis length_take min.cobounded1)
    then have "take (length x) z = take (length x) (take (length y) z)" by (simp add: min_def)
    then show ?thesis using that by simp
  qed
  note A = appendedD [OF assms(1)] and B = appendedD [OF assms(2)]
  have new: "held rows b2 c2 h l = take (length (held rows b c h l) - (if l = 0 then 0 else length kvs)) (held rows b c h l) @ kvs"
    if "(h, kvs) \<in> set (new1 @ new2)" for h kvs
  proof (cases "(h, kvs) \<in> set new1")
    case True
    then have "h \<notin> fst ` set new2" using assms(3) by force
    then have "held rows b2 c2 h l = held rows b1 c1 h l" using B(8) A(3) assms(4) by simp
    then show ?thesis using A(6) [OF True] by simp
  next
    case False
    then have m: "(h, kvs) \<in> set new2" using that by simp
    then have "h \<notin> fst ` set new1" using assms(3) by force
    then have "held rows b1 c1 h l = held rows b c h l" using A(8) assms(4) by simp
    then show ?thesis using B(6) [OF m] by simp
  qed
  have "take (length (held rows b c h j)) (held rows b2 c2 h j) = held rows b c h j" if "j < depth c" "j \<noteq> l" for h j
    by (rule pre [where y = "held rows b1 c1 h j"]) (use that A(3,7) B(7) in simp_all)
  moreover have "held rows b2 c2 h j = held rows b c h j" if "j < depth c" "h \<notin> fst ` set (new1 @ new2)" for h j
    using that A(3,8) B(8) by (simp add: image_Un)
  moreover have "rows b2 t = rows b t" if "t \<in> live b - own c - P" for t
    using that A(2,4,5) B(5) by simp
  ultimately show ?thesis using new A(1-4) B(1-4) unfolding appended_def prod.case by auto
qed

text \<open>Computations before and after an append that leave the tensors of the cache alone.\<close>

lemma appended_frame:
  assumes "appended live rows {} l new (c, b1) (c2, b2)" and "good c" "own c \<subseteq> live b" "l < depth c" "P \<inter> own c = {}"
    and "live b1 = live b" "\<And>t. t \<in> live b \<Longrightarrow> t \<notin> P \<Longrightarrow> rows b1 t = rows b t"
    and "live b3 = live b" "\<And>t. t \<in> live b \<Longrightarrow> t \<notin> P \<Longrightarrow> rows b3 t = rows b2 t"
  shows "appended live rows P l new (c, b) (c2, b3)"
proof -
  note A = appendedD [OF assms(1)]
  have h1: "held rows b1 c h j = held rows b c h j" if "j < depth c" for h j
    by (rule held_cong [OF assms(2) that], rule assms(7)) (use assms(3,5) in auto)
  have h3: "held rows b3 c2 h j = held rows b2 c2 h j" if "j < depth c" for h j
    by (rule held_cong [OF A(1)], use that A(3) in simp, rule assms(9)) (use A(2) assms(3,5) in auto)
  have "rows b3 t = rows b t" if "t \<in> live b - own c - P" for t
    using that assms(6,7,9) A(5) by simp
  moreover have "held rows b3 c2 h l = take (length (held rows b c h l) - (if l = 0 then 0 else length kvs)) (held rows b c h l) @ kvs"
    if "(h, kvs) \<in> set new" for h kvs using A(6) [OF that] assms(4) by (simp add: h1 h3)
  moreover have "take (length (held rows b c h j)) (held rows b3 c2 h j) = held rows b c h j" if "j < depth c" "j \<noteq> l" for h j
    using A(7) [OF that] that by (simp add: h1 h3)
  moreover have "held rows b3 c2 h j = held rows b c h j" if "j < depth c" "h \<notin> fst ` set new" for h j
    using A(8) [OF that] that by (simp add: h1 h3)
  ultimately show ?thesis using A(1-3) assms(8) unfolding appended_def prod.case by auto
qed

lemma append_loop:
  assumes laws: "kernel_laws be live rows kn" and "good c" "l < depth c" "own c \<subseteq> live b"
    and k: "{t_id (sc_k sc), t_id (sc_v sc)} \<subseteq> live b - own c" and d: "distinct (map (ss_handle \<circ> fst) batch)"
    and run: "cforeach (append_slice be pc cfg n l sc) batch (c, b) = Some (Inr (), (c', b'))"
  shows "appended live rows {} l (map (new_rows rows b sc) batch) (c, b) (c', b')"
  using assms(2-)
proof (induction batch arbitrary: c b)
  case Nil
  then show ?case by (simp add: appended_def)
next
  case (Cons x batch)
  obtain s start stop where x: "x = (s, start, stop)" by (cases x) auto
  from Cons.prems(6) obtain c1 b1 where h: "append_slice be pc cfg n l sc x (c, b) = Some (Inr (), (c1, b1))"
    and t: "cforeach (append_slice be pc cfg n l sc) batch (c1, b1) = Some (Inr (), (c', b'))" by (auto simp: cbind_ok)
  have a: "appended live rows {} l [new_rows rows b sc x] (c, b) (c1, b1)"
    using append_slice_effect [OF laws Cons.prems(1-3) _ _ h [unfolded x]] Cons.prems(4) by (simp add: x new_rows_def)
  then have fr: "good c1" "l < depth c1" "own c1 \<subseteq> live b1" "{t_id (sc_k sc), t_id (sc_v sc)} \<subseteq> live b1 - own c1"
    and keep: "rows b1 (t_id (sc_k sc)) = rows b (t_id (sc_k sc))" "rows b1 (t_id (sc_v sc)) = rows b (t_id (sc_v sc))"
    using Cons.prems(2-4) by (auto simp: appended_def)
  have eq: "new_rows rows b1 sc = new_rows rows b sc" by (simp add: new_rows_def fun_eq_iff keep)
  have "appended live rows {} l (map (new_rows rows b1 sc) batch) (c1, b1) (c', b')"
    by (rule Cons.IH [OF fr _ t]) (use Cons.prems(5) in simp)
  note this [unfolded eq]
  moreover have "fst ` set [new_rows rows b sc x] \<inter> fst ` set (map (new_rows rows b sc) batch) = {}"
    using Cons.prems(5) by (auto simp: image_iff)
  ultimately show ?case using appended_trans [OF a _ _ Cons.prems(2)] by fastforce
qed

subsubsection \<open>Attention\<close>

lemma attend_slice_effect:
  assumes laws: "kernel_laws be live rows kn" and good: "good c" "l < depth c" "own c \<subseteq> live b"
    and q: "t_id (sc_q sc) \<in> live b" "t_id (sc_attn sc) \<in> live b - own c"
    and len: "length (held rows b c (ss_handle s) l) = start_pos + (stop - start)"
    and run: "attend_slice be pc cfg n l sc ((s, start, stop), start_pos) (c, b) = Some (Inr (), (c', b'))"
  shows "c' = c \<and> live b' = live b \<and> (\<forall>t \<in> live b - {t_id (sc_attn sc)}. rows b' t = rows b t)
    \<and> (\<forall>i. rows b' (t_id (sc_attn sc)) i = (if start \<le> i \<and> i < start + (stop - start)
        then kn_attention kn (num_kv_heads cfg) (take (start_pos + (i - start) + 1) (held rows b c (ss_handle s) l)) (rows b (t_id (sc_q sc)) i)
        else rows b (t_id (sc_attn sc)) i))"
proof -
  from run obtain qs b1 b2 ats b3 b4 b5 b6 where
    1: "be_alloc be [stop - start, num_q_heads cfg, head_dim cfg] FP16 b = (Inr qs, b1)" and
    2: "be_copy_rows be (view (sc_q sc) [n, num_q_heads cfg, head_dim cfg]) qs start 0 (stop - start) b1 = (Inr (), b2)" and
    3: "be_alloc be [stop - start, num_q_heads cfg, head_dim cfg] FP16 b2 = (Inr ats, b3)" and
    4: "pc_dispatch_attention pc be c qs (ss_handle s) l (num_kv_heads cfg) (start_pos + (stop - start)) start_pos ats b3 = Some (Inr (), b4)" and
    5: "be_copy_rows be ats (view (sc_attn sc) [n, num_q_heads cfg, head_dim cfg]) 0 start (stop - start) b4 = (Inr (), b5)" and
    6: "be_free be qs b5 = (Inr (), b6)" and 7: "be_free be ats b6 = (Inr (), b')" "c' = c"
    by (fastforce simp: attend_slice_def cbind_ok Let_def)
  note a1 = alloc_effect [OF laws 1] and a3 = alloc_effect [OF laws 3]
  have c2: "live b2 = live b1" "rows b2 = (\<lambda>t i. if t = t_id qs \<and> i < stop - start then rows b1 (t_id (sc_q sc)) (start + i) else rows b1 t i)"
    using 2 copy_rows_acts [OF laws] by (fastforce simp: acts_def)+
  have new: "t_id qs \<notin> live b" "t_id ats \<notin> live b" "t_id qs \<noteq> t_id ats" using a1 a3 c2(1) by auto
  have old: "rows b3 t = rows b t" if "t \<in> live b" for t
  proof -
    have "t \<noteq> t_id qs" "t \<noteq> t_id ats" using that new by auto
    then show ?thesis using a1(4) a3(4) by (simp add: c2)
  qed
  have qrow: "rows b3 (t_id qs) i = rows b (t_id (sc_q sc)) (start + i)" if "i < stop - start" for i
  proof -
    have "t_id (sc_q sc) \<noteq> t_id qs" using new(1) q(1) by auto
    then show ?thesis using that new(3) a1(4) a3(4) by (simp add: c2)
  qed
  have h3: "held rows b3 c (ss_handle s) l = held rows b c (ss_handle s) l"
    by (rule held_cong [OF good(1,2)]) (use old good(3) in auto)
  have at: "live b4 = live b3" "rows b4 = write_tensor (t_id ats) (nrows qs)
      (\<lambda>i. kn_attention kn (num_kv_heads cfg) (take (start_pos + i + 1) (held rows b c (ss_handle s) l)) (rows b3 (t_id qs) i)) (rows b3)"
    using attend [OF laws good(1,2) _ 4] len unfolding h3 by auto
  have c5: "live b5 = live b4" "rows b5 = (\<lambda>t i. if t = t_id (sc_attn sc) \<and> start \<le> i \<and> i < start + (stop - start)
      then rows b4 (t_id ats) (i - start) else rows b4 t i)"
    using 5 copy_rows_acts [OF laws] by (fastforce simp: acts_def)+
  note f6 = free_effect [OF laws 6] and f7 = free_effect [OF laws 7(1)]
  have nq: "nrows qs = stop - start" using a1(3) by (simp add: nrows_def)
  have keep: "rows b' t = rows b5 t" "rows b4 t = rows b t" if "t \<in> live b" for t
  proof -
    have "t \<noteq> t_id qs" "t \<noteq> t_id ats" using that new by auto
    then show "rows b' t = rows b5 t" "rows b4 t = rows b t" using f6(2) f7(2) old [OF that] by (simp_all add: at)
  qed
  have "live b' = live b" using f6(1) f7(1) new a1(2) a3(2) by (auto simp: c5 at c2)
  moreover have "rows b' t = rows b t" if "t \<in> live b - {t_id (sc_attn sc)}" for t
    using that keep by (simp add: c5)
  moreover have "rows b' (t_id (sc_attn sc)) i = (if start \<le> i \<and> i < start + (stop - start)
        then kn_attention kn (num_kv_heads cfg) (take (start_pos + (i - start) + 1) (held rows b c (ss_handle s) l)) (rows b (t_id (sc_q sc)) i)
        else rows b (t_id (sc_attn sc)) i)" for i
    using q(2) keep [of "t_id (sc_attn sc)"] qrow [of "i - start"] nq by (auto simp: c5 at)
  ultimately show ?thesis using 7(2) by blast
qed


text \<open>What attention leaves in the row \<open>start + i\<close> of the slice \<open>x\<close>.\<close>

definition attended :: "'r kernels \<Rightarrow> model_config \<Rightarrow> ('b \<Rightarrow> u64 \<Rightarrow> nat \<Rightarrow> 'r) \<Rightarrow> nat \<Rightarrow> scratch \<Rightarrow> 'c \<Rightarrow> 'b \<Rightarrow> (sequence_slice \<times> usize \<times> usize) \<times> usize \<Rightarrow> nat \<Rightarrow> 'r" where
  "attended kn cfg rows l sc c b x i = kn_attention kn (num_kv_heads cfg)
     (take (snd x + i + 1) (held rows b c (ss_handle (fst (fst x))) l)) (rows b (t_id (sc_q sc)) (fst (snd (fst x)) + i))"

lemma attend_loop:
  assumes laws: "kernel_laws be live rows kn" and good: "good c" "l < depth c"
    and "own c \<subseteq> live b" "t_id (sc_q sc) \<in> live b - {t_id (sc_attn sc)}" "t_id (sc_attn sc) \<in> live b - own c"
    and "spaced (map fst xs)"
      "\<And>x. x \<in> set xs \<Longrightarrow> length (held rows b c (ss_handle (fst (fst x))) l) = snd x + (snd (snd (fst x)) - fst (snd (fst x)))"
    and "cforeach (attend_slice be pc cfg n l sc) xs (c, b) = Some (Inr (), (c', b'))"
  shows "c' = c \<and> live b' = live b \<and> (\<forall>t \<in> live b - {t_id (sc_attn sc)}. rows b' t = rows b t)
    \<and> (\<forall>x \<in> set xs. \<forall>i < snd (snd (fst x)) - fst (snd (fst x)).
        rows b' (t_id (sc_attn sc)) (fst (snd (fst x)) + i) = attended kn cfg rows l sc c b x i)
    \<and> (\<forall>i. (\<forall>x \<in> set xs. i < fst (snd (fst x))) \<longrightarrow> rows b' (t_id (sc_attn sc)) i = rows b (t_id (sc_attn sc)) i)"
  using assms(4-)
proof (induction xs arbitrary: b)
  case (Cons x xs)
  let ?at = "t_id (sc_attn sc)"
  obtain s start stop sp where x: "x = ((s, start, stop), sp)" by (metis prod.exhaust)
  from Cons.prems(6) obtain c1 b1 where h: "attend_slice be pc cfg n l sc x (c, b) = Some (Inr (), (c1, b1))"
    and t: "cforeach (attend_slice be pc cfg n l sc) xs (c1, b1) = Some (Inr (), (c', b'))" by (auto simp: cbind_ok)
  have ss: "start \<le> stop" "\<And>y. y \<in> set xs \<Longrightarrow> stop \<le> fst (snd (fst y))" "spaced (map fst xs)"
    using Cons.prems(4) by (simp_all add: spaced_def x)
  have "length (held rows b c (ss_handle s) l) = sp + (stop - start)" using Cons.prems(5) [of x] by (simp add: x)
  note e0 = attend_slice_effect [OF laws good Cons.prems(1) _ Cons.prems(3) this h [unfolded x]]
  have e: "c1 = c" "live b1 = live b" "\<And>t. t \<in> live b \<Longrightarrow> t \<noteq> ?at \<Longrightarrow> rows b1 t = rows b t"
    using e0 Cons.prems(2) by simp_all
  have at_rows: "rows b1 ?at i = (if start \<le> i \<and> i < stop then kn_attention kn (num_kv_heads cfg)
      (take (sp + (i - start) + 1) (held rows b c (ss_handle s) l)) (rows b (t_id (sc_q sc)) i) else rows b ?at i)" for i
    using e0 Cons.prems(2) ss(1) by simp
  have row: "rows b1 ?at (start + i) = attended kn cfg rows l sc c b x i" if "i < stop - start" for i
  proof -
    have "start + i < stop" using that by simp
    then show ?thesis using at_rows [of "start + i"] by (simp add: attended_def x)
  qed
  have low: "rows b1 ?at i = rows b ?at i" if "i < start" for i
    using at_rows [of i] that by simp
  have h1: "held rows b1 c g l = held rows b c g l" for g
    by (rule held_cong [OF good]) (use e(3) Cons.prems(1,3) in auto)
  have q1: "rows b1 (t_id (sc_q sc)) = rows b (t_id (sc_q sc))" using e(3) Cons.prems(2) by simp
  have at1: "attended kn cfg rows l sc c b1 = attended kn cfg rows l sc c b" by (simp add: attended_def fun_eq_iff h1 q1)
  have p: "own c \<subseteq> live b1" "t_id (sc_q sc) \<in> live b1 - {?at}" "?at \<in> live b1 - own c"
    "\<And>y. y \<in> set xs \<Longrightarrow> length (held rows b1 c (ss_handle (fst (fst y))) l) = snd y + (snd (snd (fst y)) - fst (snd (fst y)))"
    using Cons.prems(1-3,5) by (simp_all add: e(2) h1)
  note r = Cons.IH [OF p(1-3) ss(3) p(4) t [unfolded e(1)], unfolded at1]
  have mine: "rows b' ?at i = rows b1 ?at i" if "i < stop" for i
    using r ss(2) that by (meson order_less_le_trans)
  have x_rows: "rows b' ?at (fst (snd (fst x)) + i) = attended kn cfg rows l sc c b x i" if "i < snd (snd (fst x)) - fst (snd (fst x))" for i
    using mine [of "start + i"] row [of i] that by (simp add: x)
  have rest: "rows b' ?at i = rows b ?at i" if "\<forall>y \<in> set (x # xs). i < fst (snd (fst y))" for i
  proof -
    have "i < start" "\<forall>y \<in> set xs. i < fst (snd (fst y))" using that by (simp_all add: x)
    then show ?thesis using low r by simp
  qed
  have "rows b' t = rows b t" if "t \<in> live b - {?at}" for t using r e(2,3) that by simp
  then show ?case using r x_rows rest e(2) by simp
qed simp

subsubsection \<open>A layer of the batch\<close>

text \<open>The conditions a layer runs under.\<close>

definition ready :: "('b \<Rightarrow> u64 set) \<Rightarrow> nat \<Rightarrow> device_tensor \<Rightarrow> scratch \<Rightarrow> u64 set \<Rightarrow> 'c \<times> 'b \<Rightarrow> bool" where
  "ready live n hs sc weights = (\<lambda>(c, b). good c \<and> own c \<subseteq> live b \<and> workspace n hs sc \<and> t_id ` set (pass_tensors hs sc) \<subseteq> live b - own c
     \<and> weights \<subseteq> live b - own c - t_id ` set (pass_tensors hs sc))"

lemma layer_effect:
  assumes laws: "kernel_laws be live rows kn" and rd: "ready live n hs sc (weight_ids w) (c, b)" and l: "l < depth c" "l < length (ws_layers ws)"
    and w: "w = ws_layers ws ! l" and n: "length positions = n"
    and bt: "spaced batch" "distinct (map (ss_handle \<circ> fst) batch)" "\<forall>x \<in> set batch. in_batch positions x" "length starts = length batch"
    and lens: "\<forall>x \<in> set (zip batch starts). length (held rows b c (ss_handle (fst (fst x))) l)
        = snd x + (if l = 0 then 0 else length (ss_positions (fst (fst x))))"
    and run: "batched_layer be pc ws batch starts n positions hs sc l (c, b) = Some (Inr (), (c', b'))"
  shows "appended live rows (t_id ` set (pass_tensors hs sc)) l
      (map (\<lambda>x. (ss_handle (fst x), layer_kvs kn (ws_config ws) (rows b) w (ss_positions (fst x)) (slice_rows rows b hs x))) batch) (c, b) (c', b')"
    and "(x, sp) \<in> set (zip batch starts) \<Longrightarrow> slice_rows rows b' hs x
      = layer_out kn (ws_config ws) (rows b) w (take sp (held rows b c (ss_handle (fst x)) l)) (ss_positions (fst x)) (slice_rows rows b hs x)"
proof -
  let ?P = "t_id ` set (pass_tensors hs sc)" and ?cfg = "ws_config ws" and ?W = "rows b"
  have len: "length (held rows b c (ss_handle (fst x)) l) = sp + (if l = 0 then 0 else length (ss_positions (fst x)))"
    if "(x, sp) \<in> set (zip batch starts)" for x sp
    using lens that by fastforce
  from run l(2) obtain c1 b1 c2 b2 c3 b3 where
    1: "project be ?cfg w n positions hs sc (c, b) = Some (Inr (), (c1, b1))" and
    2: "cforeach (append_slice be pc ?cfg n l sc) batch (c1, b1) = Some (Inr (), (c2, b2))" and
    3: "cforeach (attend_slice be pc ?cfg n l sc) (zip batch starts) (c2, b2) = Some (Inr (), (c3, b3))" and
    4: "feed_forward be ?cfg w n hs sc (c3, b3) = Some (Inr (), (c', b'))"
    unfolding batched_layer_def Let_def w if_P [OF l(2)] cbind_unit_ok by blast
  have g: "good c" "own c \<subseteq> live b" "workspace n hs sc" "?P \<subseteq> live b - own c" "weight_ids w \<subseteq> live b - own c - ?P"
    using rd by (auto simp: ready_def)
  have out: "weight_ids w \<inter> ?P = {}" using g(5) by blast
  note inw = in_workspace [where hs = hs and sc = sc]
  note e1 = project_effect [OF laws g(3) out n 1]
  have c1: "c1 = c" "live b1 = live b" using e1 by simp_all
  have old1: "rows b1 t = ?W t" if "t \<notin> ?P" for t
  proof -
    have "t \<notin> t_id ` {sc_normed sc, sc_q sc, sc_k sc, sc_v sc}" using that by (auto simp: pass_tensors_def scratch_tensors_def)
    then show ?thesis using e1 by blast
  qed
  have h1: "held rows b1 c h j = held rows b c h j" if "j < depth c" for h j
    by (rule held_cong [OF g(1) that], rule old1) (use g(4) in auto)
  have "{t_id (sc_k sc), t_id (sc_v sc)} \<subseteq> live b1 - own c" using inw(4,5) g(4) unfolding c1(2) by blast
  note a2 = append_loop [OF laws g(1) l(1) g(2) [folded c1(2)] this bt(2) 2 [unfolded c1(1)]]
  note A = appendedD [OF a2]
  have kv: "new_rows rows b1 sc x = (ss_handle (fst x), layer_kvs kn ?cfg ?W w (ss_positions (fst x)) (slice_rows rows b hs x))" if "x \<in> set batch" for x
  proof -
    have x: "in_batch positions x" using bt(3) that by blast
    have "(rows b1 (t_id (sc_k sc)) (fst (snd x) + i), rows b1 (t_id (sc_v sc)) (fst (snd x) + i))
        = token_kv kn ?cfg ?W w (ss_positions (fst x) ! i) (?W (t_id hs) (fst (snd x) + i))" if "i < length (ss_positions (fst x))" for i
      using e1 x that n unfolding in_batch_def by simp
    then show ?thesis using x
      by (auto simp: new_rows_def layer_kvs_def slice_rows_def in_batch_def split: prod.splits intro!: nth_equalityI)
  qed
  have own2: "own c2 = own c" "live b2 = live b" "l < depth c2" using A l(1) c1 by simp_all
  have past: "held rows b2 c2 (ss_handle (fst x)) l = take sp (held rows b c (ss_handle (fst x)) l)
      @ layer_kvs kn ?cfg ?W w (ss_positions (fst x)) (slice_rows rows b hs x)"
    "length (slice_rows rows b hs x) = length (ss_positions (fst x))" "length (take sp (held rows b c (ss_handle (fst x)) l)) = sp"
    if "(x, sp) \<in> set (zip batch starts)" for x sp
  proof -
    have x: "x \<in> set batch" using that by (rule set_zip_leftD)
    show ls: "length (slice_rows rows b hs x) = length (ss_positions (fst x))"
      using bt(3) [rule_format, OF x] by (simp add: slice_rows_def in_batch_def)
    have "(ss_handle (fst x), layer_kvs kn ?cfg ?W w (ss_positions (fst x)) (slice_rows rows b hs x)) \<in> set (map (new_rows rows b1 sc) batch)"
      using x kv [OF x] by force
    from A(6) [OF this] show "held rows b2 c2 (ss_handle (fst x)) l = take sp (held rows b c (ss_handle (fst x)) l)
      @ layer_kvs kn ?cfg ?W w (ss_positions (fst x)) (slice_rows rows b hs x)"
      using len [OF that] l(1) by (simp add: h1 ls)
    show "length (take sp (held rows b c (ss_handle (fst x)) l)) = sp" using len [OF that] by simp
  qed
  have mf: "map fst (zip batch starts) = batch" using bt(4) by simp
  have tq: "t_id (sc_q sc) \<in> live b2 - {t_id (sc_attn sc)}" "t_id (sc_attn sc) \<in> live b2 - own c2"
    using inw(3,6) g(3,4) by (auto simp: own2 workspace_simps)
  have "length (held rows b2 c2 (ss_handle (fst (fst y))) l) = snd y + (snd (snd (fst y)) - fst (snd (fst y)))"
    if "y \<in> set (zip batch starts)" for y
  proof -
    obtain x sp where y: "y = (x, sp)" by (cases y)
    show ?thesis using past [of x sp] that bt(3) [rule_format, of x] by (simp add: y set_zip_leftD in_batch_def)
  qed
  note e3 = attend_loop [OF laws A(1) own2(3) _ tq _ this 3, unfolded mf own2, OF g(2) bt(1)]
  note e4 = feed_forward_effect [OF laws g(3) out 4]
  have c': "c' = c2" "live b' = live b" using e3 e4 by simp_all
  have b3: "rows b3 t = rows b2 t" if "t \<in> live b" "t \<noteq> t_id (sc_attn sc)" for t using e3 that by simp
  have b': "rows b' t = rows b2 t" if "t \<in> live b" "t \<notin> ?P" for t
    using b3 [OF that(1)] e4 that inw(6) by metis
  have "appended live rows ?P l (map (new_rows rows b1 sc) batch) (c, b) (c2, b')"
    by (rule appended_frame [OF a2 g(1,2) l(1) _ c1(2)]) (use g(4) old1 b' c'(2) in auto)
  moreover have "map (new_rows rows b1 sc) batch
      = map (\<lambda>x. (ss_handle (fst x), layer_kvs kn ?cfg ?W w (ss_positions (fst x)) (slice_rows rows b hs x))) batch"
    using kv by simp
  ultimately show "appended live rows ?P l
      (map (\<lambda>x. (ss_handle (fst x), layer_kvs kn ?cfg ?W w (ss_positions (fst x)) (slice_rows rows b hs x))) batch) (c, b) (c', b')"
    unfolding c' by simp
  have wt: "rows b3 t = ?W t" if "t \<in> weight_ids w" for t
  proof -
    have t: "t \<in> live b" "t \<notin> own c" "t \<notin> ?P" using that g(5) by auto
    then have "t \<noteq> t_id (sc_attn sc)" using inw(6) by blast
    then show ?thesis using b3 [OF t(1)] A(5) [of t] t old1 c1(2) by simp
  qed
  have hsb: "rows b3 (t_id hs) = ?W (t_id hs)" "rows b2 (t_id (sc_q sc)) = rows b1 (t_id (sc_q sc))"
  proof -
    have "t_id hs \<in> live b - own c" "t_id (sc_q sc) \<in> live b - own c" using inw(1,3) g(4) by blast+
    moreover have "t_id hs \<noteq> t_id (sc_attn sc)" "t_id hs \<notin> t_id ` {sc_normed sc, sc_q sc, sc_k sc, sc_v sc}"
      using g(3) by (auto simp: workspace_simps)
    ultimately show "rows b3 (t_id hs) = ?W (t_id hs)" "rows b2 (t_id (sc_q sc)) = rows b1 (t_id (sc_q sc))"
      using b3 [of "t_id hs"] A(5) c1(2) e1 by simp_all
  qed
  show "slice_rows rows b' hs x
      = layer_out kn (ws_config ws) (rows b) w (take sp (held rows b c (ss_handle (fst x)) l)) (ss_positions (fst x)) (slice_rows rows b hs x)"
    if m: "(x, sp) \<in> set (zip batch starts)"
  proof (rule nth_equalityI)
    have x: "x \<in> set batch" "in_batch positions x" using bt(3) set_zip_leftD [OF m] by blast+
    show "length (slice_rows rows b' hs x) = length (layer_out kn ?cfg ?W w (take sp (held rows b c (ss_handle (fst x)) l)) (ss_positions (fst x)) (slice_rows rows b hs x))"
      by (simp add: slice_rows_def)
    fix i assume "i < length (slice_rows rows b' hs x)"
    then have i: "i < length (ss_positions (fst x))" "i < snd (snd x) - fst (snd x)" "fst (snd x) + i < n" "positions ! (fst (snd x) + i) = ss_positions (fst x) ! i"
      using x(2) n by (simp_all add: slice_rows_def in_batch_def)
    have "rows b3 (t_id (sc_attn sc)) (fst (snd x) + i) = kn_attention kn (num_kv_heads ?cfg)
        (take sp (held rows b c (ss_handle (fst x)) l) @ take (Suc i) (layer_kvs kn ?cfg ?W w (ss_positions (fst x)) (slice_rows rows b hs x)))
        (token_q kn ?cfg ?W w (ss_positions (fst x) ! i) (?W (t_id hs) (fst (snd x) + i)))"
      using e3 m i e1 past [OF m] by (force simp: attended_def hsb(2))
    then show "slice_rows rows b' hs x ! i = layer_out kn ?cfg ?W w (take sp (held rows b c (ss_handle (fst x)) l)) (ss_positions (fst x)) (slice_rows rows b hs x) ! i"
      using e4 i by (simp add: slice_rows_def layer_out_def token_out_def hsb(1) token_cong(1) [of w "rows b3" ?W, OF wt])
  qed
qed

subsubsection \<open>All the layers\<close>

text \<open>A sequence after \<open>l\<close> layers, from its state before the first.\<close>

definition seq_after ::
    "'r kernels \<Rightarrow> weight_store \<Rightarrow> ('b \<Rightarrow> u64 \<Rightarrow> nat \<Rightarrow> 'r) \<Rightarrow> device_tensor \<Rightarrow> 'c \<times> 'b \<Rightarrow> (sequence_slice \<times> usize \<times> usize) \<times> usize \<Rightarrow> nat \<Rightarrow> 'c \<times> 'b \<Rightarrow> bool" where
  "seq_after kn ws rows hs = (\<lambda>(c0, b0) (x, sp) l (c, b).
     (let h = ss_handle (fst x); past = held rows b0 c0 h; ps = ss_positions (fst x); hs0 = slice_rows rows b0 hs x
      in slice_rows rows b hs x = hidden_after kn ws (rows b0) past ps hs0 l
         \<and> (\<forall>j < depth c0. length (past j) = sp)
         \<and> (\<forall>j < depth c0. length (held rows b c h j) = sp + (if l = 0 then 0 else length ps))
         \<and> (\<forall>j < depth c0. j < l \<longrightarrow> held rows b c h j = past j @ new_kvs kn ws (rows b0) past ps hs0 j)
         \<and> (\<forall>j < depth c0. l \<le> j \<longrightarrow> take sp (held rows b c h j) = past j)))"

definition pass_inv ::
    "('b \<Rightarrow> u64 set) \<Rightarrow> ('b \<Rightarrow> u64 \<Rightarrow> nat \<Rightarrow> 'r) \<Rightarrow> 'r kernels \<Rightarrow> weight_store \<Rightarrow> nat \<Rightarrow> device_tensor \<Rightarrow> scratch
     \<Rightarrow> ((sequence_slice \<times> usize \<times> usize) \<times> usize) list \<Rightarrow> 'c \<times> 'b \<Rightarrow> nat \<Rightarrow> 'c \<times> 'b \<Rightarrow> bool" where
  "pass_inv live rows kn ws n hs sc xs = (\<lambda>(c0, b0) l (c, b).
     ready live n hs sc (model_weights ws) (c, b) \<and> own c = own c0 \<and> depth c = depth c0 \<and> live b = live b0
     \<and> (\<forall>t \<in> live b0 - own c0 - t_id ` set (pass_tensors hs sc). rows b t = rows b0 t)
     \<and> (\<forall>x \<in> set xs. seq_after kn ws rows hs (c0, b0) x l (c, b))
     \<and> (\<forall>h. h \<notin> (\<lambda>x. ss_handle (fst (fst x))) ` set xs \<longrightarrow> (\<forall>j < depth c0. held rows b c h j = held rows b0 c0 h j)))"

lemma seq_after_step:
  assumes a: "appended live rows P l (map (\<lambda>x. (ss_handle (fst x), layer_kvs kn (ws_config ws) (rows b0) (ws_layers ws ! l) (ss_positions (fst x)) (slice_rows rows b hs x))) batch) (c, b) (c', b')"
    and o: "slice_rows rows b' hs x = layer_out kn (ws_config ws) (rows b0) (ws_layers ws ! l) (take sp (held rows b c (ss_handle (fst x)) l)) (ss_positions (fst x)) (slice_rows rows b hs x)"
    and x: "x \<in> set batch" "length (slice_rows rows b hs x) = length (ss_positions (fst x))"
    and l: "l < depth c" "depth c = depth c0" and s: "seq_after kn ws rows hs (c0, b0) (x, sp) l (c, b)"
  shows "seq_after kn ws rows hs (c0, b0) (x, sp) (Suc l) (c', b')"
proof -
  let ?h = "ss_handle (fst x)" and ?ps = "ss_positions (fst x)" and ?hs = "slice_rows rows b0 hs x"
  note A = appendedD [OF a] and S = s [unfolded seq_after_def prod.case Let_def]
  have hid: "slice_rows rows b hs x = hidden_after kn ws (rows b0) (held rows b0 c0 ?h) ?ps ?hs l" using S by blast
  have pl: "take sp (held rows b c ?h l) = held rows b0 c0 ?h l" "length (held rows b0 c0 ?h l) = sp" using S l by simp_all
  have "(?h, new_kvs kn ws (rows b0) (held rows b0 c0 ?h) ?ps ?hs l)
      \<in> set (map (\<lambda>x. (ss_handle (fst x), layer_kvs kn (ws_config ws) (rows b0) (ws_layers ws ! l) (ss_positions (fst x)) (slice_rows rows b hs x))) batch)"
    using x(1) hid by (force simp: new_kvs_def)
  note A(6) [OF this]
  moreover have "length (held rows b c ?h l) - (if l = 0 then 0 else length (new_kvs kn ws (rows b0) (held rows b0 c0 ?h) ?ps ?hs l)) = sp"
    using S l x(2) hid by simp
  ultimately have hl: "held rows b' c' ?h l = held rows b0 c0 ?h l @ new_kvs kn ws (rows b0) (held rows b0 c0 ?h) ?ps ?hs l"
    unfolding pl(1) [symmetric] by simp
  have len: "length (held rows b' c' ?h j) = sp + length ?ps" for j
    using held_length [of rows b' c' ?h j] held_length [of rows b' c' ?h l] hl pl(2) x(2) hid by simp
  have low: "held rows b' c' ?h j = held rows b c ?h j" if "j < depth c0" "j < l" for j
  proof -
    have "length (held rows b c ?h j) = sp + (if l = 0 then 0 else length ?ps)" using S that(1) by blast
    then have "length (held rows b c ?h j) = sp + length ?ps" using that(2) by simp
    then show ?thesis using A(7) [of j ?h] that l(2) len [of j] by simp
  qed
  have high: "take sp (held rows b' c' ?h j) = held rows b0 c0 ?h j" if "j < depth c0" "l < j" for j
  proof -
    have "take sp (held rows b' c' ?h j) = take sp (take (length (held rows b c ?h j)) (held rows b' c' ?h j))" using S that by (simp add: min_def)
    also have "\<dots> = take sp (held rows b c ?h j)" using A(7) [of j ?h] that l(2) by simp
    finally show ?thesis using S that by simp
  qed
  have out: "slice_rows rows b' hs x = hidden_after kn ws (rows b0) (held rows b0 c0 ?h) ?ps ?hs (Suc l)"
    unfolding o pl(1) hid by simp
  have filled: "held rows b' c' ?h j = held rows b0 c0 ?h j @ new_kvs kn ws (rows b0) (held rows b0 c0 ?h) ?ps ?hs j" if "j < depth c0" "j < Suc l" for j
  proof (cases "j = l")
    case False
    then have "j < l" using that(2) by simp
    then show ?thesis using low [OF that(1)] S that(1) by simp
  qed (use hl in simp)
  show ?thesis unfolding seq_after_def prod.case Let_def
    using out S len filled high by (simp add: Suc_le_eq)
qed

lemma pass_step:
  assumes laws: "kernel_laws be live rows kn" and l: "l < depth c0" "l < length (ws_layers ws)" and n: "length positions = n"
    and bt: "spaced batch" "distinct (map (ss_handle \<circ> fst) batch)" "\<forall>x \<in> set batch. in_batch positions x" "length starts = length batch"
    and inv: "pass_inv live rows kn ws n hs sc (zip batch starts) (c0, b0) l (c, b)"
    and run: "batched_layer be pc ws batch starts n positions hs sc l (c, b) = Some (Inr (), (c', b'))"
  shows "pass_inv live rows kn ws n hs sc (zip batch starts) (c0, b0) (Suc l) (c', b')"
proof -
  let ?w = "ws_layers ws ! l" and ?P = "t_id ` set (pass_tensors hs sc)"
  note I = inv [unfolded pass_inv_def prod.case]
  have sub: "weight_ids ?w \<subseteq> model_weights ws" using l(2) nth_mem by (fastforce simp: model_weights_def)
  have rd: "ready live n hs sc (weight_ids ?w) (c, b)" using I sub by (auto simp: ready_def)
  have len: "\<forall>x \<in> set (zip batch starts). length (held rows b c (ss_handle (fst (fst x))) l)
      = snd x + (if l = 0 then 0 else length (ss_positions (fst (fst x))))"
  proof
    fix x assume x: "x \<in> set (zip batch starts)"
    obtain y sp where y: "x = (y, sp)" by (cases x)
    have "seq_after kn ws rows hs (c0, b0) (y, sp) l (c, b)" using I x y by blast
    then show "length (held rows b c (ss_handle (fst (fst x))) l) = snd x + (if l = 0 then 0 else length (ss_positions (fst (fst x))))"
      using l(1) unfolding seq_after_def prod.case Let_def y by simp
  qed
  have W: "rows b t = rows b0 t" if "t \<in> weight_ids ?w" for t
    using I sub that by (auto simp: ready_def)
  have lc: "l < depth c" using I l(1) by simp
  note e = layer_effect [OF laws rd lc l(2) refl n bt len run, unfolded layer_cong [of ?w "rows b" "rows b0" kn "ws_config ws", OF W, simplified]]
  note A = appendedD [OF e(1)]
  have sq: "seq_after kn ws rows hs (c0, b0) x (Suc l) (c', b')" if "x \<in> set (zip batch starts)" for x
  proof -
    obtain y sp where x: "x = (y, sp)" by (cases x)
    have y: "y \<in> set batch" using that unfolding x by (rule set_zip_leftD)
    show ?thesis unfolding x
      by (rule seq_after_step [OF e(1) e(2) [OF that [unfolded x]] y]) (use that I lc bt(3) y in \<open>auto simp: x slice_rows_def in_batch_def\<close>)
  qed
  have "ready live n hs sc (model_weights ws) (c', b')"
    using I [THEN conjunct1] A(1) unfolding ready_def prod.case A(2) A(4) by blast
  moreover have "rows b' t = rows b0 t" if "t \<in> live b0 - own c0 - ?P" for t using I A(5) [of t] that by simp
  moreover have "held rows b' c' h j = held rows b0 c0 h j" if "h \<notin> (\<lambda>x. ss_handle (fst (fst x))) ` set (zip batch starts)" "j < depth c0" for h j
  proof -
    have "(\<lambda>x. ss_handle (fst (fst x))) ` set (zip batch starts) = (ss_handle \<circ> fst) ` set (map fst (zip batch starts))"
      by (simp add: image_image del: map_fst_zip)
    then have "h \<notin> (ss_handle \<circ> fst) ` set batch" using that(1) bt(4) by simp
    then have "h \<notin> fst ` set (map (\<lambda>x. (ss_handle (fst x), layer_kvs kn (ws_config ws) (rows b0) ?w (ss_positions (fst x)) (slice_rows rows b hs x))) batch)"
      by (auto simp: image_iff)
    then show ?thesis using A(8) [of j h] I that by simp
  qed
  ultimately show ?thesis using I A(2-4) sq unfolding pass_inv_def prod.case by simp
qed

lemma pass_loop:
  assumes laws: "kernel_laws be live rows kn" and L: "L \<le> depth c0" "L \<le> length (ws_layers ws)" and n: "length positions = n"
    and bt: "spaced batch" "distinct (map (ss_handle \<circ> fst) batch)" "\<forall>x \<in> set batch. in_batch positions x" "length starts = length batch"
    and inv: "pass_inv live rows kn ws n hs sc (zip batch starts) (c0, b0) 0 (c0, b0)"
    and run: "cforeach (batched_layer be pc ws batch starts n positions hs sc) [0..<L] (c0, b0) = Some (Inr (), (c', b'))"
  shows "pass_inv live rows kn ws n hs sc (zip batch starts) (c0, b0) L (c', b')"
  using L run
proof (induction L arbitrary: c' b')
  case 0
  then show ?case using inv by simp
next
  case (Suc L)
  have "cforeach (batched_layer be pc ws batch starts n positions hs sc) ([0..<L] @ [L]) (c0, b0) = Some (Inr (), (c', b'))"
    using Suc.prems(3) by simp
  then obtain c1 b1 where "cforeach (batched_layer be pc ws batch starts n positions hs sc) [0..<L] (c0, b0) = Some (Inr (), (c1, b1))"
    and r: "batched_layer be pc ws batch starts n positions hs sc L (c1, b1) = Some (Inr (), (c', b'))"
    by (auto simp: cforeach_append cbind_ok)
  then have i: "pass_inv live rows kn ws n hs sc (zip batch starts) (c0, b0) L (c1, b1)" using Suc.IH Suc.prems(1,2) by simp
  show ?case by (rule pass_step [OF laws _ _ n bt i r]) (use Suc.prems(1,2) in simp_all)
qed

subsubsection \<open>The pass\<close>

text \<open>From the invariant after the last layer to the results.\<close>

lemma pass_logits:
  assumes laws: "kernel_laws be live rows kn" and inv: "pass_inv live rows kn ws n hs sc xs (c0, b0) L (c1, b1)"
    and norm: "final_norm be ws hs sc (c1, b1) = Some (Inr (), (c2, b2))"
    and run: "ccollect (last_logits h2f be ws sc) (map fst xs) (c2, b2) = Some (Inr lgs, (c3, b3))"
    and nn: "\<forall>x \<in> set xs. in_batch positions (fst x) \<and> ss_positions (fst (fst x)) \<noteq> []" "length positions = n"
  shows "c3 = c1 \<and> live b3 = live b1 \<and> (\<forall>t \<in> live b1 - {t_id (sc_normed sc)}. rows b3 t = rows b1 t)
    \<and> list_all2 (\<lambda>x lg. lg = map h2f (le_u16s (kn_bytes kn (vocab_size (ws_config ws) * 2)
        (logits_row kn ws (rows b0) (last (slice_rows rows b1 hs x)))))) (map fst xs) lgs"
proof -
  note I = inv [unfolded pass_inv_def prod.case]
  note R = I [THEN conjunct1, unfolded ready_def prod.case]
  note inw = in_workspace [where hs = hs and sc = sc]
  have ids: "t_id (sc_normed sc) \<in> live b1" "t_id (lm_head ws) \<in> live b1" "t_id (lm_head ws) \<noteq> t_id (sc_normed sc)" "t_id hs \<in> live b1"
    using R inw by (auto simp: model_weights_def)
  have W: "rows b1 (t_id (lm_head ws)) = rows b0 (t_id (lm_head ws))" "rows b1 (t_id (output_norm ws)) = rows b0 (t_id (output_norm ws))"
    using I R by (auto simp: model_weights_def)
  have nr: "nrows hs = n" using R by (simp add: workspace_simps)
  have c2: "c2 = c1" "live b2 = live b1" and r2: "rows b2 = write_tensor (t_id (sc_normed sc)) n
      (\<lambda>i. kn_rmsnorm kn (rows b1 (t_id (output_norm ws))) (rms_norm_eps (ws_config ws)) (rows b1 (t_id hs) i)) (rows b1)"
    using norm compute_acts(2) [OF laws] nr by (auto simp: final_norm_def acts_def)
  let ?I = "\<lambda>s. fst s = c1 \<and> live (snd s) = live b1 \<and> (\<forall>t \<in> live b1. rows (snd s) t = rows b2 t)"
  let ?Q = "\<lambda>x lg. lg = map h2f (le_u16s (kn_bytes kn (vocab_size (ws_config ws) * 2)
        (logits_row kn ws (rows b0) (last (slice_rows rows b1 hs x)))))"
  have "?I (c3, b3) \<and> list_all2 ?Q (map fst xs) lgs"
  proof (rule ccollect_ok [OF run])
    fix x y s1 s2
    assume x: "x \<in> set (map fst xs)" and i: "?I s1" and r: "last_logits h2f be ws sc x s1 = Some (Inr y, s2)"
    obtain ca ba cb bb where s: "s1 = (ca, ba)" "s2 = (cb, bb)" by (cases s1; cases s2) auto
    have lv: "t_id (sc_normed sc) \<in> live ba" "t_id (lm_head ws) \<in> live ba" using i ids by (simp_all add: s)
    note e = last_logits_effect [OF laws lv r [unfolded s]]
    have ib: "in_batch positions x" "ss_positions (fst x) \<noteq> []" using x nn(1) by auto
    then have lt: "snd (snd x) - 1 < n" "snd (snd x) - fst (snd x) \<noteq> 0" "fst (snd x) + (snd (snd x) - fst (snd x) - 1) = snd (snd x) - 1"
      using nn(2) by (cases "ss_positions (fst x)"; auto simp: in_batch_def)+
    have "last (slice_rows rows b1 hs x) = rows b1 (t_id hs) (snd (snd x) - 1)"
      using lt by (simp add: slice_rows_def last_map)
    moreover have "rows ba (t_id (sc_normed sc)) = rows b2 (t_id (sc_normed sc))" "rows ba (t_id (lm_head ws)) = rows b1 (t_id (lm_head ws))"
      using i ids r2 by (simp_all add: s)
    ultimately show "?I s2 \<and> ?Q x y" using e i lt(1) by (simp add: s r2 W logits_row_def)
  qed (simp add: c2)
  then show ?thesis using r2 by simp
qed

text \<open>The state a pass starts its layers in: the rows of the batch are in the hidden tensor, and the cache is as it was.\<close>

lemma pass_start:
  assumes laws: "kernel_laws be live rows kn" and g: "good c" "own c \<subseteq> live b" "model_weights ws \<subseteq> live b - own c"
    and hs: "t_id hs \<notin> live b" "nrows hs = n" "live b1 = insert (t_id hs) (live b)" "\<forall>t \<in> live b. rows b1 t = rows b t"
    and sc: "alloc_scratch be cfg n (c, b1) = Some (Inr sc, (c2, b2))"
    and st: "list_all2 (\<lambda>x sp. pc_seq_len pc c (ss_handle (fst x)) = Inr sp) batch starts"
  shows "c2 = c \<and> pass_inv live rows kn ws n hs sc (zip batch starts) (c, b2) 0 (c, b2) \<and> (\<forall>t \<in> live b. rows b2 t = rows b t)
    \<and> live b2 = live b \<union> t_id ` set (pass_tensors hs sc) \<and> live b \<inter> t_id ` set (pass_tensors hs sc) = {}
    \<and> rows b2 (t_id hs) = rows b1 (t_id hs) \<and> (\<forall>h. \<forall>j < depth c. held rows b2 c h j = held rows b c h j)"
proof -
  have h1: "t_id hs \<in> live b1" using hs(3) by simp
  note A = alloc_scratch_effect [OF laws h1 hs(2) sc]
  let ?P = "t_id ` set (pass_tensors hs sc)"
  have old: "rows b2 t = rows b t" if "t \<in> live b" for t using A hs(3,4) that by simp
  have lv: "live b2 = live b \<union> ?P" "live b \<inter> ?P = {}" using A hs(1,3) by (auto simp: pass_tensors_def)
  have held: "held rows b2 c h j = held rows b c h j" if "j < depth c" for h j
    by (rule held_cong [OF g(1) that], rule old) (use g(2) in auto)
  have rd: "ready live n hs sc (model_weights ws) (c, b2)" using A g lv by (auto simp: ready_def)
  have "seq_after kn ws rows hs (c, b2) x 0 (c, b2)" if "x \<in> set (zip batch starts)" for x
  proof -
    obtain y sp where x: "x = (y, sp)" by (cases x)
    have "pc_seq_len pc c (ss_handle (fst y)) = Inr sp" using st that by (auto simp: x list_all2_iff)
    then show ?thesis using seq_len_held [of c "ss_handle (fst y)" sp] by (simp add: seq_after_def Let_def x)
  qed
  then have "pass_inv live rows kn ws n hs sc (zip batch starts) (c, b2) 0 (c, b2)" using rd by (simp add: pass_inv_def)
  then show ?thesis using A lv old held h1 by simp
qed

text \<open>What a pass over \<open>L\<close> layers leaves in the cache, when the tokens of a sequence start from the hidden rows \<open>H\<close>.\<close>

definition pass_result ::
    "'r kernels \<Rightarrow> ('b \<Rightarrow> u64 \<Rightarrow> nat \<Rightarrow> 'r) \<Rightarrow> weight_store \<Rightarrow> nat \<Rightarrow> (sequence_slice \<Rightarrow> 'r list) \<Rightarrow> 'c \<times> 'b \<Rightarrow> sequence_slice list \<Rightarrow> 'c \<times> 'b \<Rightarrow> bool" where
  "pass_result kn rows ws L H = (\<lambda>(c, b) ss (c', b').
     (\<forall>s \<in> set ss. \<forall>j < L. held rows b' c' (ss_handle s) j = held rows b c (ss_handle s) j
        @ new_kvs kn ws (rows b) (held rows b c (ss_handle s)) (ss_positions s) (H s) j)
     \<and> (\<forall>h. h \<notin> ss_handle ` set ss \<longrightarrow> (\<forall>j < depth c. held rows b' c' h j = held rows b c h j)))"

lemma pass_finish:
  assumes g: "own c \<subseteq> live b" "model_weights ws \<subseteq> live b - own c" and L: "L \<le> depth c" "L \<le> length (ws_layers ws)"
    and old: "\<forall>t \<in> live b. rows b2 t = rows b t" "\<forall>h. \<forall>j < depth c. held rows b2 c h j = held rows b c h j" "live b2 = live b \<union> t_id ` set (pass_tensors hs sc)"
      "live b \<inter> t_id ` set (pass_tensors hs sc) = {}"
    and inv: "pass_inv live rows kn ws n hs sc (zip batch starts) (c, b2) L (c1, b1)"
    and bt: "map fst batch = ss" "length starts = length batch" and H: "\<forall>x \<in> set batch. slice_rows rows b2 hs x = H (fst x)"
    and fin: "\<forall>t \<in> live b. rows b' t = rows b1 t"
  shows "good c1 \<and> own c1 = own c \<and> depth c1 = depth c \<and> (\<forall>t \<in> live b - own c. rows b' t = rows b t) \<and> pass_result kn rows ws L H (c, b) ss (c1, b')
    \<and> (\<forall>x \<in> set batch. slice_rows rows b1 hs x
        = hidden_after kn ws (rows b) (held rows b c (ss_handle (fst x))) (ss_positions (fst x)) (H (fst x)) L)"
proof -
  note I = inv [unfolded pass_inv_def prod.case]
  have c1: "good c1" "own c1 = own c" "depth c1 = depth c" using I by (auto simp: ready_def)
  have W: "rows b2 t = rows b t" if "t \<in> model_weights ws" for t using that g(2) old(1) by blast
  have held': "held rows b' c1 h j = held rows b1 c1 h j" if "j < depth c" for h j
    by (rule held_cong [OF c1(1)]) (use that c1 g(1) fin in auto)
  have past: "held rows b2 c h l = held rows b c h l" if "l < L" for h l using old(2) L(1) that by simp
  have S: "slice_rows rows b1 hs x = hidden_after kn ws (rows b) (held rows b c (ss_handle (fst x))) (ss_positions (fst x)) (H (fst x)) L"
    "\<forall>j < L. held rows b' c1 (ss_handle (fst x)) j = held rows b c (ss_handle (fst x)) j
        @ new_kvs kn ws (rows b) (held rows b c (ss_handle (fst x))) (ss_positions (fst x)) (H (fst x)) j" if "x \<in> set batch" for x
  proof -
    from that bt(2) obtain sp where "(x, sp) \<in> set (zip batch starts)" by (metis in_set_impl_in_set_zip1)
    then have "seq_after kn ws rows hs (c, b2) (x, sp) L (c1, b1)" using I by blast
    note S = this [unfolded seq_after_def prod.case Let_def]
    note cg = ref_cong [of ws "rows b2" "rows b" L "held rows b2 c (ss_handle (fst x))" "held rows b c (ss_handle (fst x))", OF W L(2) past]
    have Hx: "slice_rows rows b2 hs x = H (fst x)" using H that by blast
    show "slice_rows rows b1 hs x = hidden_after kn ws (rows b) (held rows b c (ss_handle (fst x))) (ss_positions (fst x)) (H (fst x)) L"
      using S cg(1) [of L] unfolding Hx by simp
    show "\<forall>j < L. held rows b' c1 (ss_handle (fst x)) j = held rows b c (ss_handle (fst x)) j
        @ new_kvs kn ws (rows b) (held rows b c (ss_handle (fst x))) (ss_positions (fst x)) (H (fst x)) j"
      using S cg(2) L(1) past held' unfolding Hx by simp
  qed
  have "\<forall>s \<in> set ss. \<forall>j < L. held rows b' c1 (ss_handle s) j = held rows b c (ss_handle s) j
        @ new_kvs kn ws (rows b) (held rows b c (ss_handle s)) (ss_positions s) (H s) j"
    using S(2) unfolding bt(1) [symmetric] by simp
  moreover have "held rows b' c1 h j = held rows b c h j" if "h \<notin> ss_handle ` set ss" "j < depth c" for h j
  proof -
    have "h \<notin> (\<lambda>x. ss_handle (fst (fst x))) ` set (zip batch starts)" using that(1) unfolding bt(1) [symmetric] by (force dest: set_zip_leftD)
    then show ?thesis using I held' old(2) that(2) by simp
  qed
  moreover have "rows b' t = rows b t" if "t \<in> live b - own c" for t
  proof -
    have "t \<in> live b2 - own c - t_id ` set (pass_tensors hs sc)" using that old(3,4) by blast
    then show ?thesis using I that fin old(1) by simp
  qed
  ultimately show ?thesis using c1 S(1) by (simp add: pass_result_def)
qed

lemma starts_collected:
  assumes "ccollect (\<lambda>s. \<lambda>(c, b). Some (pc_seq_len pc c (ss_handle s), (c, b))) ss (c, b) = Some (Inr starts, s1)"
  shows "s1 = (c, b)" "list_all2 (\<lambda>s sp. pc_seq_len pc c (ss_handle s) = Inr sp) ss starts"
  using ccollect_ok [OF assms, where I = "\<lambda>s. s = (c, b)" and Q = "\<lambda>s sp. pc_seq_len pc c (ss_handle s) = Inr sp"] by auto

lemma starts_of_batch:
  assumes "list_all2 (\<lambda>s sp. pc_seq_len pc c (ss_handle s) = Inr sp) ss starts" and "map fst batch = ss"
  shows "list_all2 (\<lambda>x sp. pc_seq_len pc c (ss_handle (fst x)) = Inr sp) batch starts" "length starts = length batch"
  using assms by (auto simp: list_all2_map1 dest: list_all2_lengthD)

lemma batched_forward_effect:
  assumes laws: "kernel_laws be live rows kn" and g: "good c" "own c \<subseteq> live b" "model_weights ws \<subseteq> live b - own c"
    and L: "snd lr - fst lr = L" "L \<le> depth c" "L \<le> length (ws_layers ws)"
    and ss: "distinct (map ss_handle ss)" "\<forall>s \<in> set ss. ss_token_ids s \<noteq> [] \<and> length (ss_positions s) = length (ss_token_ids s)"
    and run: "batched_forward_model h2f be pc ws lr ss (c, b) = Some (Inr out, (c', b'))"
  shows "good c' \<and> own c' = own c \<and> depth c' = depth c \<and> live b' = live b \<and> (\<forall>t \<in> live b - own c. rows b' t = rows b t)
    \<and> out = map (\<lambda>s. expected_logits h2f kn ws (rows b) (held rows b c (ss_handle s)) L s) ss
    \<and> pass_result kn rows ws L (\<lambda>s. embed ws (rows b) (ss_token_ids s)) (c, b) ss (c', b')"
proof (cases "ss = []")
  case True
  then show ?thesis using run g(1) by (auto simp: batched_forward_model_def pass_result_def)
next
  case False
  let ?cfg = "ws_config ws" and ?ids = "concat (map ss_token_ids ss)" and ?ps = "concat (map ss_positions ss)"
  let ?n = "length ?ids" and ?batch = "zip ss (boundaries 0 (map (\<lambda>s. length (ss_token_ids s)) ss))"
  from run obtain starts ca ba hs cb b1 cc b2 sc c3 b3 c4 b4 c5 b5 c6 b6 where
    1: "ccollect (\<lambda>s. \<lambda>(c, b). Some (pc_seq_len pc c (ss_handle s), (c, b))) ss (c, b) = Some (Inr starts, (ca, ba))" and
    2: "dev (be_alloc be [?n, hidden_size ?cfg] FP16) (ca, ba) = Some (Inr hs, (cb, b1))" and
    3: "dev (be_embedding be ?ids (token_embedding ws) hs) (cb, b1) = Some (Inr (), (cc, b2))" and
    4: "alloc_scratch be ?cfg ?n (cc, b2) = Some (Inr sc, (c3, b3))" and
    5: "cforeach (\<lambda>i. batched_layer be pc ws ?batch starts ?n ?ps hs sc (i - fst lr)) [fst lr..<snd lr] (c3, b3) = Some (Inr (), (c4, b4))" and
    6: "final_norm be ws hs sc (c4, b4) = Some (Inr (), (c5, b5))" and
    7: "ccollect (last_logits h2f be ws sc) ?batch (c5, b5) = Some (Inr out, (c6, b6))" and
    8: "perform (be_synchronize be # map (be_free be) (hs # scratch_tensors sc)) (c6, b6) = Some (Inr (), (c', b'))"
    unfolding batched_forward_model_def if_not_P [OF False] Let_def cbind_unit_ok cbind_pair_ok cret_ok by blast
  have len: "map (\<lambda>s. length (ss_token_ids s)) ss = map (\<lambda>s. length (ss_positions s)) ss" using ss(2) by simp
  have mf: "map fst ?batch = ss" by simp
  note st = starts_collected [OF 1]
  note sb = starts_of_batch [OF st(2) mf]
  have c: "ca = c" "ba = b" "cb = c" "cc = c" using st(1) 2 3 by auto
  have a1: "be_alloc be [?n, hidden_size ?cfg] FP16 b = (Inr hs, b1)" using 2 by (simp add: c)
  note A = alloc_effect [OF laws a1]
  have e2: "live b2 = live b1" "rows b2 = write_tensor (t_id hs) ?n (\<lambda>i. rows b1 (t_id (token_embedding ws)) (unat (?ids ! i))) (rows b1)"
    using 3 compute_acts(6) [OF laws] by (auto simp: acts_def)
  have old2: "rows b2 t = rows b t" if "t \<in> live b" for t
  proof -
    have "t \<noteq> t_id hs" using A(1) that by blast
    then show ?thesis using A(4) by (simp add: e2)
  qed
  have nr: "nrows hs = ?n" using A(3) by (simp add: nrows_def)
  have "live b2 = insert (t_id hs) (live b)" using A(2) e2(1) by simp
  note S = pass_start [OF laws g A(1) nr this _ 4 [unfolded c] sb(1)]
  have S: "c3 = c" "pass_inv live rows kn ws ?n hs sc (zip ?batch starts) (c, b3) 0 (c, b3)" "\<forall>t \<in> live b. rows b3 t = rows b t"
    "live b3 = live b \<union> t_id ` set (pass_tensors hs sc)" "live b \<inter> t_id ` set (pass_tensors hs sc) = {}"
    "rows b3 (t_id hs) = rows b2 (t_id hs)" "\<forall>h. \<forall>j < depth c. held rows b3 c h j = held rows b c h j"
    using S old2 by simp_all
  have lp: "length ?ps = ?n" unfolding length_concat map_map comp_def len by (rule refl)
  have bt: "spaced ?batch" "distinct (map (ss_handle \<circ> fst) ?batch)" "\<forall>x \<in> set ?batch. in_batch ?ps x" "length starts = length ?batch"
    using spaced_batch ss(1) sb(2) slice_of_batch [of _ ss 0 ss_positions] unfolding len by (auto simp: in_batch_def map_map [symmetric] simp del: map_map)
  have "[fst lr..<snd lr] = map (\<lambda>i. fst lr + i) [0..<L]" using L(1) by (auto intro!: nth_equalityI)
  then have "cforeach (batched_layer be pc ws ?batch starts ?n ?ps hs sc) [0..<L] (c, b3) = Some (Inr (), (c4, b4))"
    using 5 by (simp add: cforeach_map S(1))
  note inv = pass_loop [OF laws L(2,3) lp bt S(2) this]
  have H: "\<forall>x \<in> set ?batch. slice_rows rows b3 hs x = embed ws (rows b) (ss_token_ids (fst x))"
  proof
    fix x assume "x \<in> set ?batch"
    note x = slice_of_batch [OF this]
    have emb: "rows b1 (t_id (token_embedding ws)) = rows b (t_id (token_embedding ws))"
    proof -
      have "t_id (token_embedding ws) \<in> live b" using g(3) by (simp add: model_weights_def)
      then show ?thesis using A(1,4) by metis
    qed
    have "rows b3 (t_id hs) (fst (snd x) + i) = rows b (t_id (token_embedding ws)) (unat (ss_token_ids (fst x) ! i))"
      if "i < length (ss_token_ids (fst x))" for i
      using x that by (simp add: S(6) e2 emb)
    then show "slice_rows rows b3 hs x = embed ws (rows b) (ss_token_ids (fst x))"
      using x by (auto simp: slice_rows_def embed_def intro!: nth_equalityI)
  qed
  have zf: "map fst (zip ?batch starts) = ?batch" using bt(4) by simp
  have nn: "\<forall>x \<in> set (zip ?batch starts). in_batch ?ps (fst x) \<and> ss_positions (fst (fst x)) \<noteq> []"
  proof
    fix x assume "x \<in> set (zip ?batch starts)"
    then have x: "fst x \<in> set ?batch" by (metis prod.collapse set_zip_leftD)
    then have "fst (fst x) \<in> set ss" using slice_of_batch by blast
    then show "in_batch ?ps (fst x) \<and> ss_positions (fst (fst x)) \<noteq> []" using x bt(3) ss(2) by fastforce
  qed
  have "ccollect (last_logits h2f be ws sc) (map fst (zip ?batch starts)) (c5, b5) = Some (Inr out, (c6, b6))" unfolding zf by (rule 7)
  note lg = pass_logits [OF laws inv 6 this nn lp, unfolded zf]
  from 8 obtain b7 where s8: "be_synchronize be b6 = (Inr (), b7)" and f8: "perform (map (be_free be) (hs # scratch_tensors sc)) (c6, b7) = Some (Inr (), (c', b'))"
    by (auto simp: cbind_ok)
  have s7: "live b7 = live b6" "rows b7 = rows b6" using s8 compute_acts(8) [OF laws] by (auto simp: acts_def)
  note F = perform_frees [OF laws f8, folded pass_tensors_def]
  have l4: "live b4 = live b3" using inv by (simp add: pass_inv_def)
  have fin: "\<forall>t \<in> live b. rows b' t = rows b4 t"
  proof
    fix t assume t: "t \<in> live b"
    then have "t \<notin> t_id ` set (pass_tensors hs sc)" using S(5) by blast
    moreover then have "t \<noteq> t_id (sc_normed sc)" using in_workspace(2) by blast
    ultimately show "rows b' t = rows b4 t" using F s7 lg t S(4) l4 by simp
  qed
  note R = pass_finish [OF g(2,3) L(2,3) S(3,7,4,5) inv mf bt(4) H fin]
  have "live b' = live b" using F s7 lg l4 S(4,5) by auto
  moreover have "out = map (\<lambda>s. expected_logits h2f kn ws (rows b) (held rows b c (ss_handle s)) L s) ss"
  proof (rule nth_equalityI)
    have q: "list_all2 (\<lambda>x lg. lg = map h2f (le_u16s (kn_bytes kn (vocab_size ?cfg * 2) (logits_row kn ws (rows b3) (last (slice_rows rows b4 hs x)))))) ?batch out"
      using lg by blast
    show lo: "length out = length (map (\<lambda>s. expected_logits h2f kn ws (rows b) (held rows b c (ss_handle s)) L s) ss)"
      using list_all2_lengthD [OF q] by simp
    fix i assume i: "i < length out"
    then have "i < length ?batch" using lo by simp
    then have x: "?batch ! i \<in> set ?batch" "fst (?batch ! i) = ss ! i" by (rule nth_mem, simp)
    have "rows b3 (t_id (lm_head ws)) = rows b (t_id (lm_head ws))" "rows b3 (t_id (output_norm ws)) = rows b (t_id (output_norm ws))"
      using S(3) g(3) by (auto simp: model_weights_def)
    then have "logits_row kn ws (rows b3) = logits_row kn ws (rows b)" by (intro ext) (simp add: logits_row_def)
    then show "out ! i = map (\<lambda>s. expected_logits h2f kn ws (rows b) (held rows b c (ss_handle s)) L s) ss ! i"
      using list_all2_nthD2 [OF q i] R x i lo unfolding expected_logits_def by simp
  qed
  moreover have "c' = c4" using F lg by simp
  ultimately show ?thesis using R by simp
qed

end

end
