(* ===== verification/Batched_Correct.thy ===== *)
theory Batched_Correct
  imports Batched_Pass Paged_Correct
begin

text \<open>
  The paged cache meets the contract that the batched forward pass relies on, and the theorems on the pass over it.
\<close>

definition pool_ids :: "paged_manager \<Rightarrow> u64 set" where
  "pool_ids m = tensor_ids (k_blocks (pool m) @ v_blocks (pool m))"

text \<open>Block ids are passed to the device as \<open>i32\<close>.\<close>

definition paged_good :: "paged_manager \<Rightarrow> bool" where
  "paged_good m \<longleftrightarrow> paged_ok m \<and> capacity (pool m) < 2 ^ 31"

definition paged_depth :: "paged_manager \<Rightarrow> nat" where
  "paged_depth m = pool_layers (pool m)"

lemma pool_tensor_in:
  "k_tensor p bid layer = Some t \<Longrightarrow> t_id t \<in> tensor_ids (k_blocks p @ v_blocks p)"
  "v_tensor p bid layer = Some t \<Longrightarrow> t_id t \<in> tensor_ids (k_blocks p @ v_blocks p)"
  using nth_nth_concat [of bid "k_blocks p" layer] nth_nth_concat [of bid "v_blocks p" layer]
  by (auto simp: k_tensor_def v_tensor_def tensor_ids_def split: if_splits)

lemma copy_elsewhere:
  assumes "kernel_laws be live rows kn" and "be_copy_rows be src dst so d n b = (Inr u, b')"
  shows "live b' = live b" "t \<noteq> t_id dst \<Longrightarrow> rows b' t = rows b t"
  using assms copy_rows_acts [OF assms(1), of src dst so d n] by (auto simp: acts_def)

lemma write_rows_device:
  assumes laws: "kernel_laws be live rows kn" and "write_rows be p table layer keys vals start n written b = Some (Inr (), b')"
  shows "live b' = live b \<and> (\<forall>t. t \<notin> tensor_ids (k_blocks p @ v_blocks p) \<longrightarrow> rows b' t = rows b t)"
  using assms(2)
proof (induction "n - written" arbitrary: written b rule: less_induct)
  case less
  show ?case
  proof (cases "written < n")
    case False
    then show ?thesis using less.prems by (subst (asm) write_rows.simps) simp
  next
    case True
    define gp where "gp = start + written"
    define w where "w = min (n - written) (BLOCK_SIZE - gp mod BLOCK_SIZE)"
    from less.prems True obtain kt vt b1 b2 where k: "k_tensor p (table ! (gp div BLOCK_SIZE)) layer = Some kt"
      and v: "v_tensor p (table ! (gp div BLOCK_SIZE)) layer = Some vt"
      and 1: "be_copy_rows be keys kt written (gp mod BLOCK_SIZE) w b = (Inr (), b1)"
      and 2: "be_copy_rows be vals vt written (gp mod BLOCK_SIZE) w b1 = (Inr (), b2)"
      and r: "write_rows be p table layer keys vals start n (written + w) b2 = Some (Inr (), b')"
      by (subst (asm) write_rows.simps)
        (auto simp: Let_def gp_def [symmetric] w_def [symmetric] split: if_splits option.splits prod.splits sum.splits)
    have "0 < w" using True by (simp add: w_def BLOCK_SIZE_def)
    then have IH: "live b' = live b2 \<and> (\<forall>t. t \<notin> tensor_ids (k_blocks p @ v_blocks p) \<longrightarrow> rows b' t = rows b2 t)"
      using less.hyps [OF _ r] True by simp
    note c1 = copy_elsewhere [OF laws 1] and c2 = copy_elsewhere [OF laws 2]
    have "rows b2 t = rows b t" if "t \<notin> tensor_ids (k_blocks p @ v_blocks p)" for t
      using that c1(2) c2(2) pool_tensor_in(1) [OF k] pool_tensor_in(2) [OF v] by metis
    then show ?thesis using IH c1(1) c2(1) by simp
  qed
qed

lemma append_device:
  assumes laws: "kernel_laws be live rows kn" and "paged_ok m" and "t_shape keys = n # rest"
    and "append_kv be h layer keys vals m b = Some (Inr (), m', b')"
  shows "live b' = live b \<and> (\<forall>t. t \<notin> pool_ids m \<longrightarrow> rows b' t = rows b t) \<and> pool_ids m' = pool_ids m
    \<and> paged_depth m' = paged_depth m \<and> capacity (pool m') = capacity (pool m)"
proof -
  obtain sq' :: sequence_blocks where w: "write_rows be (pool m') (block_table sq') layer keys vals (current_len sq' - n) n 0 b = Some (Inr (), b')"
    using append_writes [OF assms(2,4,3)] by blast
  obtain fl where p: "pool m' = (pool m)\<lparr>free_list := fl\<rparr>" using append_pool [OF assms(4)] by blast
  show ?thesis using write_rows_device [OF laws w] by (simp add: p pool_ids_def paged_depth_def)
qed

lemma stored_cong:
  assumes "paged_ok m" "l < paged_depth m" and "\<And>t. t \<in> pool_ids m \<Longrightarrow> rows b' t = rows b t"
  shows "stored rows b' m h l = stored rows b m h l"
proof (cases "sequences m h")
  case (Some sq)
  have "cell_of rows b' (k_cell (pool m) (block_table sq) l pos) = cell_of rows b (k_cell (pool m) (block_table sq) l pos)
      \<and> cell_of rows b' (v_cell (pool m) (block_table sq) l pos) = cell_of rows b (v_cell (pool m) (block_table sq) l pos)" if "pos < current_len sq" for pos
  proof -
    have "pos < BLOCK_SIZE * length (block_table sq)" using that roomy_len [OF paged_okD(3) [OF assms(1) Some]] by linarith
    note k_cell_in [OF _ paged_okD(2) [OF assms(1) Some] _ this, of l]
    then show ?thesis using assms by (simp add: paged_ok_def paged_depth_def pool_ids_def)
  qed
  then show ?thesis by (simp add: stored_Some [OF Some])
qed (simp add: stored_def)

lemma those_map_Some: "(\<And>x. x \<in> set xs \<Longrightarrow> f x = Some (g x)) \<Longrightarrow> those (map f xs) = Some (map g xs)"
  by (induction xs) simp_all

lemma paged_attention_effect:
  assumes laws: "kernel_laws be live rows kn" and good: "paged_good m" "l < paged_depth m" and len: "kvlen = length (stored rows b m h l)"
    and run: "paged_attention be m q h l nkv kvlen start out b = Some (Inr (), b')"
  shows "live b' = live b \<and> rows b' = write_tensor (t_id out) (nrows q)
    (\<lambda>i. kn_attention kn nkv (take (start + i + 1) (stored rows b m h l)) (rows b (t_id q) i)) (rows b)"
proof -
  have ok: "paged_ok m" "pool_ok (pool m)" and cap: "capacity (pool m) < 2 ^ 31" using good(1) by (simp_all add: paged_good_def paged_ok_def)
  obtain sq where sq: "sequences m h = Some sq" using run
    by (cases "sequences m h") (auto simp: paged_attention_def get_block_table_def ok_or_def)
  let ?kb = "map (\<lambda>bid. k_blocks (pool m) ! bid ! l) [0..<capacity (pool m)]" and ?vb = "map (\<lambda>bid. v_blocks (pool m) ! bid ! l) [0..<capacity (pool m)]"
  have "those (map (\<lambda>bid. k_tensor (pool m) bid l) [0..<capacity (pool m)]) = Some ?kb"
    "those (map (\<lambda>bid. v_tensor (pool m) bid l) [0..<capacity (pool m)]) = Some ?vb"
    using pool_tensor [OF ok(2)] good(2) by (auto intro!: those_map_Some simp: paged_depth_def)
  then have "be_attention_paged be q (map word_of_nat (block_table sq)) ?kb ?vb nkv kvlen start out b = (Inr (), b')"
    using run sq by (simp add: paged_attention_def get_block_table_def ok_or_def)
  then have e: "live b' = live b" "rows b' = write_tensor (t_id out) (nrows q) (\<lambda>i. kn_attention kn nkv
      (map (paged_rows (map word_of_nat (block_table sq)) ?kb ?vb (rows b)) [0..<min kvlen (start + i + 1)]) (rows b (t_id q) i)) (rows b)"
    using compute_acts(4) [OF laws] by (auto simp: acts_def)
  have kv: "kvlen = current_len sq" using len sq by (simp add: stored_Some)
  have row: "paged_rows (map word_of_nat (block_table sq)) ?kb ?vb (rows b) p
      = (cell_of rows b (k_cell (pool m) (block_table sq) l p), cell_of rows b (v_cell (pool m) (block_table sq) l p))" if "p < current_len sq" for p
  proof -
    have "p < BLOCK_SIZE * length (block_table sq)" using that roomy_len [OF paged_okD(3) [OF ok(1) sq]] by linarith
    then have p: "p div BLOCK_SIZE < length (block_table sq)" by (rule div_block_less)
    then have lt: "block_table sq ! (p div BLOCK_SIZE) < capacity (pool m)" using paged_okD(2) [OF ok(1) sq] nth_mem by blast
    then have "unat (word_of_nat (block_table sq ! (p div BLOCK_SIZE)) :: u32) = block_table sq ! (p div BLOCK_SIZE)"
      using cap by (simp add: unsigned_of_nat take_bit_nat_eq_self)
    then show ?thesis using p lt by (simp add: paged_rows_def k_cell_def v_cell_def BLOCK_SIZE_def)
  qed
  have "map (paged_rows (map word_of_nat (block_table sq)) ?kb ?vb (rows b)) [0..<min kvlen (start + i + 1)]
      = take (start + i + 1) (stored rows b m h l)" for i
    using row by (auto simp: stored_Some [OF sq] kv take_map take_upt min_def)
  then show ?thesis using e by simp
qed

interpretation pk: cached "paged_kv_cache :: (paged_manager, 'b) paged_cache" paged_good pool_ids paged_depth
  "stored :: ('b \<Rightarrow> u64 \<Rightarrow> nat \<Rightarrow> 'r) \<Rightarrow> 'b \<Rightarrow> paged_manager \<Rightarrow> u64 \<Rightarrow> nat \<Rightarrow> ('r \<times> 'r) list"
proof
  fix c h n and rows :: "'b \<Rightarrow> u64 \<Rightarrow> nat \<Rightarrow> 'r" and b l
  show "pc_seq_len paged_kv_cache c h = Inr n \<Longrightarrow> length (stored rows b c h l) = n"
    by (auto simp: paged_kv_cache_def seq_len_def ok_or_def stored_def split: option.splits)
  show "length (stored rows b c h l) = length (stored rows b c h 0)" by (simp add: stored_def split: option.splits)
next
  fix c l b' b h and rows :: "'b \<Rightarrow> u64 \<Rightarrow> nat \<Rightarrow> 'r"
  show "paged_good c \<Longrightarrow> l < paged_depth c \<Longrightarrow> (\<And>t. t \<in> pool_ids c \<Longrightarrow> rows b' t = rows b t) \<Longrightarrow> stored rows b' c h l = stored rows b c h l"
    by (rule stored_cong) (simp_all add: paged_good_def)
next
  fix be live kn c l k n rest v h b c' b' and rows :: "'b \<Rightarrow> u64 \<Rightarrow> nat \<Rightarrow> 'r"
  assume a: "kernel_laws be live rows kn" "paged_good c" "l < paged_depth c" "t_shape k = n # rest" "t_id k \<notin> pool_ids c" "t_id v \<notin> pool_ids c"
    "pc_append_kv paged_kv_cache be h l k v c b = Some (Inr (), c', b')"
  have r: "append_kv be h l k v c b = Some (Inr (), c', b')" using a(7) by (simp add: paged_kv_cache_def)
  have ok: "paged_ok c" and rl: "row_laws be rows" using a(1,2) by (simp_all add: paged_good_def kernel_laws_def)
  have pre: "l < pool_layers (pool c)" "t_id k \<notin> tensor_ids (k_blocks (pool c) @ v_blocks (pool c))" "t_id v \<notin> tensor_ids (k_blocks (pool c) @ v_blocks (pool c))"
    using a by (simp_all add: paged_depth_def pool_ids_def)
  note S = append_stores [OF rl ok pre(1) a(4) pre(2,3) r] and D = append_device [OF a(1) ok a(4) r]
  show "paged_good c' \<and> pool_ids c' = pool_ids c \<and> paged_depth c' = paged_depth c \<and> live b' = live b \<and> (\<forall>t. t \<notin> pool_ids c \<longrightarrow> rows b' t = rows b t)
        \<and> stored rows b' c' h l = take (length (stored rows b c h l) - (if l = 0 then 0 else n)) (stored rows b c h l)
            @ map (\<lambda>i. (rows b (t_id k) i, rows b (t_id v) i)) [0..<n]
        \<and> (\<forall>j < paged_depth c. j \<noteq> l \<longrightarrow> take (length (stored rows b c h j)) (stored rows b' c' h j) = stored rows b c h j)
        \<and> (\<forall>g j. j < paged_depth c \<longrightarrow> g \<noteq> h \<longrightarrow> stored rows b' c' g j = stored rows b c g j)"
    using S D append_ok [OF ok r] a(2) unfolding paged_depth_def paged_good_def by (intro conjI allI impI) simp_all
next
  fix be live kn c l kvlen b h q nkv start out b' and rows :: "'b \<Rightarrow> u64 \<Rightarrow> nat \<Rightarrow> 'r"
  assume "kernel_laws be live rows kn" "paged_good c" "l < paged_depth c" "kvlen = length (stored rows b c h l)"
    "pc_dispatch_attention paged_kv_cache be c q h l nkv kvlen start out b = Some (Inr (), b')"
  then show "live b' = live b \<and> rows b' = write_tensor (t_id out) (nrows q)
          (\<lambda>i. kn_attention kn nkv (take (start + i + 1) (stored rows b c h l)) (rows b (t_id q) i)) (rows b)"
    by (intro paged_attention_effect) (simp_all add: paged_kv_cache_def)
qed

subsection \<open>Properties\<close>

text \<open>A device whose tensors have no content: it hands out ids as long as it has room.\<close>

record blank =
  bl_live :: "u64 list"
  bl_next :: u64
  bl_room :: nat

definition blank_backend :: "blank backend" where
  "blank_backend = \<lparr>
     be_alloc = (\<lambda>sh d m. if bl_room m = 0 \<or> bl_next m \<in> set (bl_live m) then (Inl (OutOfMemory 0 0), m)
       else (Inr \<lparr>t_id = bl_next m, t_shape = sh, t_dtype = d\<rparr>,
             m\<lparr>bl_live := bl_next m # bl_live m, bl_next := bl_next m + 1, bl_room := bl_room m - 1\<rparr>)),
     be_free = (\<lambda>t m. (Inr (), m\<lparr>bl_live := removeAll (t_id t) (bl_live m)\<rparr>)),
     be_copy_to_device = (\<lambda>t bs m. (Inr (), m)), be_copy_to_host = (\<lambda>t n m. (Inr (replicate n 0), m)),
     be_copy_rows = (\<lambda>src dst so d n m. (Inr (), m)), be_turboquant_compress = (\<lambda>i r c bits p nm m. (Inr (), m)),
     be_matmul = (\<lambda>a w out m. (Inr (), m)), be_rmsnorm = (\<lambda>a w eps out m. (Inr (), m)), be_rope = (\<lambda>q k ps theta hdim m. (Inr (), m)),
     be_attention_paged = (\<lambda>q bt kb vb nkv kvlen start out m. (Inr (), m)), be_silu_mul = (\<lambda>a w out m. (Inr (), m)),
     be_embedding = (\<lambda>ids table out m. (Inr (), m)), be_add = (\<lambda>a w out m. (Inr (), m)), be_synchronize = (\<lambda>m. (Inr (), m))\<rparr>"

definition blank_kernels :: "unit kernels" where
  "blank_kernels = \<lparr>kn_matmul = (\<lambda>_ _. ()), kn_rmsnorm = (\<lambda>_ _ _. ()), kn_rope = (\<lambda>_ _ _ _. ()), kn_attention = (\<lambda>_ _ _. ()),
     kn_silu_mul = (\<lambda>_ _. ()), kn_add = (\<lambda>_ _. ()), kn_bytes = (\<lambda>n _. replicate n 0)\<rparr>"

abbreviation blank_rows :: "blank \<Rightarrow> u64 \<Rightarrow> nat \<Rightarrow> unit" where
  "blank_rows \<equiv> (\<lambda>_ _ _. ())"

abbreviation blank_live :: "blank \<Rightarrow> u64 set" where
  "blank_live \<equiv> (\<lambda>m. set (bl_live m))"

lemma blank_laws: "kernel_laws blank_backend blank_live blank_rows blank_kernels"
  by (auto simp: kernel_laws_def heap_laws_def row_laws_def compute_laws_def memory_laws_def acts_def blank_backend_def blank_kernels_def
      fun_eq_iff split: if_splits)

text \<open>A model of one layer beside the small cache.\<close>

definition tiny_model :: model_config where
  "tiny_model = \<lparr>hidden_size = 1, num_layers = 1, num_q_heads = 1, num_kv_heads = 1, head_dim = 1, intermediate_size = 1,
     vocab_size = 1, rope_theta = 1, rms_norm_eps = 1, max_seq_len = 32\<rparr>"

definition tiny_weights :: weight_store where
  "tiny_weights = \<lparr>ws_config = tiny_model, token_embedding = tiny_rows 4 1,
     ws_layers = [\<lparr>q_proj = tiny_rows 5 1, k_proj = tiny_rows 6 1, v_proj = tiny_rows 7 1, o_proj = tiny_rows 8 1, gate_proj = tiny_rows 9 1,
       up_proj = tiny_rows 10 1, down_proj = tiny_rows 11 1, attn_norm = tiny_rows 12 1, ffn_norm = tiny_rows 13 1\<rparr>],
     output_norm = tiny_rows 14 1, lm_head = tiny_rows 15 1\<rparr>"

definition blank0 :: blank where
  "blank0 = \<lparr>bl_live = [15, 14, 13, 12, 11, 10, 9, 8, 7, 6, 5, 4, 3, 2, 1, 0], bl_next = 16, bl_room = 100\<rparr>"

definition tiny_slice :: "u32 list \<Rightarrow> u32 list \<Rightarrow> sequence_slice" where
  "tiny_slice ids ps = \<lparr>ss_handle = 0, ss_token_ids = ids, ss_positions = ps\<rparr>"

lemmas pass_eval = batched_forward_model_def Let_def cbind_def dev_def cret_def cfail_def cpanic_def alloc_scratch_def batched_layer_def project_def append_slice_def
  attend_slice_def feed_forward_def last_logits_def final_norm_def scratch_tensors_def view_def paged_kv_cache_def seq_len_def paged_attention_def
  get_block_table_def ok_or_def rbind_def append_kv_def tiny_pool_def grow_blocks.simps write_rows.simps BLOCK_SIZE_def alloc_block_def
  tiny_rows_def k_tensor_def v_tensor_def blank_backend_def tiny_weights_def tiny_model_def blank0_def tiny_slice_def

lemma upto_two: "[0..<2::nat] = [0, 1]"
  by (simp add: upt_rec)

text \<open>When a pass may run: the cache is in order, the weights and the tensors of the pool are allocated and different,
  and there are weights and cache layers for the layers to run.\<close>

definition can_run :: "('b \<Rightarrow> u64 set) \<Rightarrow> weight_store \<Rightarrow> nat \<Rightarrow> paged_manager \<Rightarrow> 'b \<Rightarrow> bool" where
  "can_run live ws L m b \<longleftrightarrow> paged_good m \<and> pool_ids m \<subseteq> live b \<and> model_weights ws \<subseteq> live b - pool_ids m
     \<and> L \<le> paged_depth m \<and> L \<le> length (ws_layers ws)"

text \<open>Different sequences, with at least one token each and a position for every token.\<close>

definition good_batch :: "sequence_slice list \<Rightarrow> bool" where
  "good_batch ss \<longleftrightarrow> distinct (map ss_handle ss)
     \<and> (\<forall>s \<in> set ss. ss_token_ids s \<noteq> [] \<and> length (ss_positions s) = length (ss_token_ids s))"

lemma paged_pass:
  assumes "kernel_laws be live rows kn" and "can_run live ws (snd lr - fst lr) m b" and "good_batch ss"
    and "batched_forward_model h2f be paged_kv_cache ws lr ss (m, b) = Some (Inr out, (m', b'))"
  shows "can_run live ws (snd lr - fst lr) m' b'" "live b' = live b" "t \<in> model_weights ws \<Longrightarrow> rows b' t = rows b t"
    "out = map (\<lambda>s. expected_logits h2f kn ws (rows b) (stored rows b m (ss_handle s)) (snd lr - fst lr) s) ss"
    "s \<in> set ss \<Longrightarrow> j < snd lr - fst lr \<Longrightarrow> stored rows b' m' (ss_handle s) j = stored rows b m (ss_handle s) j
        @ new_kvs kn ws (rows b) (stored rows b m (ss_handle s)) (ss_positions s) (embed ws (rows b) (ss_token_ids s)) j"
    "h \<notin> ss_handle ` set ss \<Longrightarrow> j < paged_depth m \<Longrightarrow> stored rows b' m' h j = stored rows b m h j"
proof -
  note C = assms(2) [unfolded can_run_def] and B = assms(3) [unfolded good_batch_def]
  have "paged_good m" "pool_ids m \<subseteq> live b" "model_weights ws \<subseteq> live b - pool_ids m" "snd lr - fst lr \<le> paged_depth m"
    "snd lr - fst lr \<le> length (ws_layers ws)" "distinct (map ss_handle ss)"
    "\<forall>s \<in> set ss. ss_token_ids s \<noteq> [] \<and> length (ss_positions s) = length (ss_token_ids s)" using C B by blast+
  note E = pk.batched_forward_effect [OF assms(1) this(1-3) refl this(4-7) assms(4)]
  have R: "pk.pass_result kn rows ws (snd lr - fst lr) (\<lambda>s. embed ws (rows b) (ss_token_ids s)) (m, b) ss (m', b')" using E by blast
  show "can_run live ws (snd lr - fst lr) m' b'" using E C by (simp add: can_run_def)
  show "live b' = live b" using E by simp
  show "rows b' t = rows b t" if "t \<in> model_weights ws" using E C that by blast
  show "out = map (\<lambda>s. expected_logits h2f kn ws (rows b) (stored rows b m (ss_handle s)) (snd lr - fst lr) s) ss" using E by simp
  show "stored rows b' m' (ss_handle s) j = stored rows b m (ss_handle s) j
        @ new_kvs kn ws (rows b) (stored rows b m (ss_handle s)) (ss_positions s) (embed ws (rows b) (ss_token_ids s)) j"
    if "s \<in> set ss" "j < snd lr - fst lr" using R that unfolding pk.pass_result_def prod.case by blast
  show "stored rows b' m' h j = stored rows b m h j" if "h \<notin> ss_handle ` set ss" "j < paged_depth m"
    using R that unfolding pk.pass_result_def prod.case by blast
qed

text \<open>C10: a batched forward pass that succeeds returns for every sequence the logits that the reference transformer
  computes for its tokens on the keys and values it had cached, whatever else is in the batch. It appends the new
  keys and values to what the sequence stores at every layer, leaves all other sequences and the weights as they
  were, and frees every tensor it allocated.\<close>

theorem batched_forward_exact:
  assumes "kernel_laws be live rows kn" and "can_run live ws (snd lr - fst lr) m b" and "good_batch ss"
    and "batched_forward_model h2f be paged_kv_cache ws lr ss (m, b) = Some (Inr out, (m', b'))"
  shows "out = map (\<lambda>s. expected_logits h2f kn ws (rows b) (stored rows b m (ss_handle s)) (snd lr - fst lr) s) ss
    \<and> (\<forall>s \<in> set ss. \<forall>j < snd lr - fst lr. stored rows b' m' (ss_handle s) j = stored rows b m (ss_handle s) j
        @ new_kvs kn ws (rows b) (stored rows b m (ss_handle s)) (ss_positions s) (embed ws (rows b) (ss_token_ids s)) j)
    \<and> (\<forall>h. \<forall>j < paged_depth m. h \<notin> ss_handle ` set ss \<longrightarrow> stored rows b' m' h j = stored rows b m h j)
    \<and> (\<forall>t \<in> model_weights ws. rows b' t = rows b t) \<and> live b' = live b"
  using paged_pass [OF assms] by blast

lemma tiny_pass: "\<exists>out m' b'. batched_forward_model (\<lambda>_. 0) blank_backend paged_kv_cache tiny_weights (0, 1) [tiny_slice [1, 2] [0, 1]] (tiny1, blank0)
    = Some (Inr out, (m', b'))"
  by (simp add: pass_eval upto_two)

lemma tiny_can_run: "can_run blank_live tiny_weights (snd (0, 1) - fst (0, 1)) tiny1 blank0"
  using tiny_ok by (auto simp: can_run_def paged_good_def pool_ids_def paged_depth_def tensor_ids_def model_weights_def weight_ids_def
      tiny_weights_def tiny_pool_def tiny_rows_def blank0_def)

theorem batched_forward_exact_witness:
  "\<exists>out m' b'. batched_forward_model (\<lambda>_. 0) blank_backend paged_kv_cache tiny_weights (0, 1) [tiny_slice [1, 2] [0, 1]] (tiny1, blank0)
      = Some (Inr out, (m', b')) \<and> length out = 1 \<and> blank_live b' = blank_live blank0"
proof -
  obtain out m' b' where r: "batched_forward_model (\<lambda>_. 0) blank_backend paged_kv_cache tiny_weights (0, 1) [tiny_slice [1, 2] [0, 1]] (tiny1, blank0)
      = Some (Inr out, (m', b'))" using tiny_pass by blast
  have "good_batch [tiny_slice [1, 2] [0, 1]]" by (simp add: good_batch_def tiny_slice_def)
  from batched_forward_exact [OF blank_laws tiny_can_run this r] show ?thesis using r by auto
qed

text \<open>C18: a prompt may be prefilled in chunks, each in a batch of its own with any other sequences: after the second
  chunk the logits and the stored keys and values are those of a pass over the whole.\<close>

theorem prefill_chunks_exact:
  assumes laws: "kernel_laws be live rows kn" and run: "can_run live ws (snd lr - fst lr) m b"
    and bs: "good_batch ss" "good_batch ss1" "good_batch ss2"
    and p: "batched_forward_model h2f be paged_kv_cache ws lr ss (m, b) = Some (Inr out, (m', b'))"
    and p1: "batched_forward_model h2f be paged_kv_cache ws lr ss1 (m, b) = Some (Inr out1, (m1, b1))"
    and p2: "batched_forward_model h2f be paged_kv_cache ws lr ss2 (m1, b1) = Some (Inr out2, (m2, b2))"
    and i: "i < length ss" "i1 < length ss1" "i2 < length ss2"
    and h: "ss_handle (ss1 ! i1) = ss_handle (ss ! i)" "ss_handle (ss2 ! i2) = ss_handle (ss ! i)"
    and t: "ss_token_ids (ss ! i) = ss_token_ids (ss1 ! i1) @ ss_token_ids (ss2 ! i2)"
      "ss_positions (ss ! i) = ss_positions (ss1 ! i1) @ ss_positions (ss2 ! i2)"
  shows "out2 ! i2 = out ! i \<and> (\<forall>j < snd lr - fst lr. stored rows b2 m2 (ss_handle (ss ! i)) j = stored rows b' m' (ss_handle (ss ! i)) j)"
proof -
  let ?h = "ss_handle (ss ! i)" and ?L = "snd lr - fst lr" and ?s1 = "ss1 ! i1" and ?s2 = "ss2 ! i2" and ?W = "rows b"
  let ?past = "stored rows b m ?h" and ?h1 = "embed ws ?W (ss_token_ids ?s1)" and ?h2 = "embed ws ?W (ss_token_ids ?s2)"
  let ?p1 = "ss_positions ?s1" and ?p2 = "ss_positions ?s2"
  note P = paged_pass [OF laws run bs(1) p] and P1 = paged_pass [OF laws run bs(2) p1]
  note P2 = paged_pass [OF laws P1(1) bs(3) p2]
  have m: "ss ! i \<in> set ss" "?s1 \<in> set ss1" "?s2 \<in> set ss2" using i by simp_all
  have len: "length ?p1 = length ?h1" "length ?p2 = length ?h2" "ss_token_ids ?s2 \<noteq> []" using bs m by (auto simp: good_batch_def)
  have Ll: "?L \<le> length (ws_layers ws)" using run by (simp add: can_run_def)
  have past1: "stored rows b1 m1 ?h j = ?past j @ new_kvs kn ws ?W ?past ?p1 ?h1 j" if "j < ?L" for j
    using P1(5) [OF m(2) that] h(1) by simp
  have emb: "embed ws (rows b1) (ss_token_ids ?s2) = ?h2"
    using P1(3) [of "t_id (token_embedding ws)"] by (simp add: embed_def model_weights_def)
  have ew: "embed ws ?W (ss_token_ids (ss ! i)) = ?h1 @ ?h2" by (simp add: embed_def t(1))
  let ?past1 = "\<lambda>k. ?past k @ new_kvs kn ws ?W ?past ?p1 ?h1 k"
  have cg: "hidden_after kn ws (rows b1) (stored rows b1 m1 ?h) ?p2 ?h2 ?L = hidden_after kn ws ?W ?past1 ?p2 ?h2 ?L"
    "j < ?L \<Longrightarrow> new_kvs kn ws (rows b1) (stored rows b1 m1 ?h) ?p2 ?h2 j = new_kvs kn ws ?W ?past1 ?p2 ?h2 j" for j
    by (rule ref_cong [OF _ Ll]; use P1(3) past1 in auto)+
  have hid: "hidden_after kn ws ?W ?past (ss_positions (ss ! i)) (embed ws ?W (ss_token_ids (ss ! i))) ?L
      = hidden_after kn ws ?W ?past ?p1 ?h1 ?L @ hidden_after kn ws (rows b1) (stored rows b1 m1 ?h) ?p2 ?h2 ?L"
    unfolding ew t(2) hidden_append [OF len(1,2)] cg(1) ..
  have "hidden_after kn ws (rows b1) (stored rows b1 m1 ?h) ?p2 ?h2 ?L \<noteq> []"
    using len(3) by (metis length_0_conv length_hidden_after length_embed)
  moreover have "logits_row kn ws (rows b1) = logits_row kn ws ?W"
    using P1(3) [of "t_id (lm_head ws)"] P1(3) [of "t_id (output_norm ws)"] by (intro ext) (simp add: logits_row_def model_weights_def)
  ultimately have "out2 ! i2 = out ! i"
    unfolding P(4) P2(4) using i h(2) emb hid by (simp add: expected_logits_def)
  moreover have "stored rows b2 m2 ?h j = stored rows b' m' ?h j" if "j < ?L" for j
    using P(5) [OF m(1) that] P2(5) [OF m(3) that] h(2) emb past1 [OF that] cg(2) [OF that]
    unfolding ew t(2) new_kvs_append [OF len(1,2)] by simp
  ultimately show ?thesis by blast
qed

lemma tiny_chunks: "\<exists>out1 m1 b1. batched_forward_model (\<lambda>_. 0) blank_backend paged_kv_cache tiny_weights (0, 1) [tiny_slice [1] [0]] (tiny1, blank0)
      = Some (Inr out1, (m1, b1))
    \<and> (\<exists>out2 m2 b2. batched_forward_model (\<lambda>_. 0) blank_backend paged_kv_cache tiny_weights (0, 1) [tiny_slice [2] [1]] (m1, b1) = Some (Inr out2, (m2, b2)))"
  by (simp add: pass_eval upto_two)

theorem prefill_chunks_exact_witness:
  "\<exists>out m' b' out1 m1 b1 out2 m2 b2.
     batched_forward_model (\<lambda>_. 0) blank_backend paged_kv_cache tiny_weights (0, 1) [tiny_slice [1, 2] [0, 1]] (tiny1, blank0) = Some (Inr out, (m', b'))
   \<and> batched_forward_model (\<lambda>_. 0) blank_backend paged_kv_cache tiny_weights (0, 1) [tiny_slice [1] [0]] (tiny1, blank0) = Some (Inr out1, (m1, b1))
   \<and> batched_forward_model (\<lambda>_. 0) blank_backend paged_kv_cache tiny_weights (0, 1) [tiny_slice [2] [1]] (m1, b1) = Some (Inr out2, (m2, b2))
   \<and> out2 ! 0 = out ! 0"
proof -
  obtain out m' b' where p: "batched_forward_model (\<lambda>_. 0) blank_backend paged_kv_cache tiny_weights (0, 1) [tiny_slice [1, 2] [0, 1]] (tiny1, blank0)
      = Some (Inr out, (m', b'))" using tiny_pass by blast
  obtain out1 m1 b1 out2 m2 b2 where
    p1: "batched_forward_model (\<lambda>_. 0) blank_backend paged_kv_cache tiny_weights (0, 1) [tiny_slice [1] [0]] (tiny1, blank0) = Some (Inr out1, (m1, b1))"
    and p2: "batched_forward_model (\<lambda>_. 0) blank_backend paged_kv_cache tiny_weights (0, 1) [tiny_slice [2] [1]] (m1, b1) = Some (Inr out2, (m2, b2))"
    using tiny_chunks by blast
  have g: "good_batch [tiny_slice [1, 2] [0, 1]]" "good_batch [tiny_slice [1] [0]]" "good_batch [tiny_slice [2] [1]]"
    by (simp_all add: good_batch_def tiny_slice_def)
  have "out2 ! 0 = out ! 0"
    using prefill_chunks_exact [OF blank_laws tiny_can_run g p p1 p2, of 0 0 0] by (simp add: tiny_slice_def)
  then show ?thesis using p p1 p2 by blast
qed


end
