(* ===== verification/Scheduler_Loop.thy ===== *)
theory Scheduler_Loop
  imports Batch_Scheduler Sampler Batched_Correct
begin

text \<open>
  The loop of the batching server, \<open>fracture-server/src/scheduler_loop.rs\<close>: it takes requests from its channel,
  asks the batch scheduler for a batch, runs the batched forward pass on the engine, samples a token for every
  sequence whose prompt is done, and frees the caches of the sequences that are finished. The engine is its
  backend, its weights and its range of layers; \<open>closed\<close> tells which clients are gone, \<open>draw\<close> gives the random
  number of a sequence without a seed, and \<open>order\<close> the order in which a hash map yields its keys.
\<close>

datatype scheduler_command = Submit pending_request | Snapshot channel

record sequence_snapshot_entry =
  sn_seq_id :: u64
  sn_state :: string
  sn_tokens_generated :: usize
  sn_max_tokens :: usize
  sn_remaining_prefill :: usize

record scheduler_snapshot =
  sn_active_sequences :: usize
  sn_max_sequences :: usize
  sn_decode_count :: usize
  sn_prefill_queue_count :: usize
  sn_prefill_chunk_size :: usize
  sn_block_size :: usize
  sn_total_blocks :: usize
  sn_free_blocks :: usize
  sn_sequences :: "sequence_snapshot_entry list"

record scheduler_loop_config =
  lc_max_batch_size :: usize
  lc_max_batch_tokens :: usize
  lc_max_prefill_tokens :: usize
  lc_block_pool_reserve :: f32

definition default_loop_config :: scheduler_loop_config where
  "default_loop_config = \<lparr>lc_max_batch_size = 64, lc_max_batch_tokens = 4096, lc_max_prefill_tokens = 512, lc_block_pool_reserve = 0x3DCCCCCD\<rparr>"

definition snapshot_entry :: "active_sequence \<Rightarrow> sequence_snapshot_entry" where
  "snapshot_entry q = \<lparr>sn_seq_id = aq_seq_id q,
     sn_state = (if aq_remaining_prefill q \<noteq> [] \<or> aq_generated_tokens q = [] then ''prefilling'' else ''decoding''),
     sn_tokens_generated = length (aq_generated_tokens q), sn_max_tokens = aq_max_tokens q,
     sn_remaining_prefill = length (aq_remaining_prefill q)\<rparr>"

definition take_snapshot :: "scheduler_loop_config \<Rightarrow> u64 list \<Rightarrow> batch_scheduler \<Rightarrow> paged_manager \<Rightarrow> scheduler_snapshot" where
  "take_snapshot config ks s cache = (let qs = map (\<lambda>k. the (active s k)) ks in
     \<lparr>sn_active_sequences = length ks, sn_max_sequences = lc_max_batch_size config,
      sn_decode_count = length (filter (\<lambda>q. aq_remaining_prefill q = [] \<and> aq_generated_tokens q \<noteq> []) qs),
      sn_prefill_queue_count = length (prefill_queue s), sn_prefill_chunk_size = lc_max_prefill_tokens config,
      sn_block_size = BLOCK_SIZE, sn_total_blocks = capacity (pool cache), sn_free_blocks = num_free_blocks cache,
      sn_sequences = map snapshot_entry qs\<rparr>)"

definition handle_command ::
    "scheduler_loop_config \<Rightarrow> u64 list \<Rightarrow> scheduler_command \<Rightarrow> batch_scheduler \<Rightarrow> paged_manager
     \<Rightarrow> batch_scheduler \<times> (channel \<times> scheduler_snapshot) list" where
  "handle_command config ks cmd s cache = (case cmd of
      Submit req \<Rightarrow> (enqueue req s, [])
    | Snapshot tx \<Rightarrow> (s, [(tx, take_snapshot config ks s cache)]))"

subsection \<open>One round\<close>

text \<open>The slices of a decision, with their sequence and whether they are a prefill.\<close>

type_synonym slice_entry = "sequence_slice \<times> u64 \<times> bool"

definition prefill_slice :: "batch_scheduler \<Rightarrow> prefill_job \<Rightarrow> slice_entry list" where
  "prefill_slice s pf = (case active s (pj_seq_id pf) of None \<Rightarrow> []
     | Some q \<Rightarrow> [(\<lparr>ss_handle = aq_handle q, ss_token_ids = pj_token_ids pf, ss_positions = pj_positions pf\<rparr>, pj_seq_id pf, True)])"

definition decode_slice :: "batch_scheduler \<Rightarrow> decode_job \<Rightarrow> slice_entry list" where
  "decode_slice s dj = (case active s (dj_seq_id dj) of None \<Rightarrow> []
     | Some q \<Rightarrow> [(\<lparr>ss_handle = aq_handle q, ss_token_ids = [dj_token_id dj], ss_positions = [dj_position dj]\<rparr>, dj_seq_id dj, False)])"

definition build_slices :: "batch_scheduler \<Rightarrow> scheduler_decision \<Rightarrow> slice_entry list" where
  "build_slices s d = concat (map (prefill_slice s) (prefills d)) @ concat (map (decode_slice s) (decodes d))"

type_synonym events = "(channel \<times> generation_event) list"

text \<open>A failed pass aborts the sequences of its batch.\<close>

primrec abort_batch :: "u64 list \<Rightarrow> batch_scheduler \<Rightarrow> paged_manager \<Rightarrow> batch_scheduler \<times> paged_manager \<times> events" where
  "abort_batch [] s cache = (s, cache, [])"
| "abort_batch (sid # sids) s cache = (case active s sid of
      None \<Rightarrow> abort_batch sids s cache
    | Some q \<Rightarrow>
        (case abort_batch sids (s\<lparr>active := (active s)(sid := None)\<rparr>) (snd (free_seq (aq_handle q) cache)) of
           (s', cache', evs) \<Rightarrow> (s', cache', (aq_event_tx q, ErrorEvent ''forward pass failed: {e}'') # evs)))"

definition seq_params :: "active_sequence \<Rightarrow> sampling_params" where
  "seq_params q = \<lparr>sp_temperature = aq_temperature q, sp_top_k = aq_top_k q, sp_top_p = aq_top_p q, sp_seed = aq_seed q\<rparr>"

definition accept_token :: "u32 \<Rightarrow> active_sequence \<Rightarrow> active_sequence" where
  "accept_token token q = q\<lparr>aq_generated_tokens := aq_generated_tokens q @ [token], aq_current_pos := aq_current_pos q + 1\<rparr>"

definition sample_seq ::
    "(f32 \<Rightarrow> f32) \<Rightarrow> (u64 \<Rightarrow> f32) \<Rightarrow> (u64 \<Rightarrow> f32) \<Rightarrow> u64 \<Rightarrow> bool \<Rightarrow> f32 list \<Rightarrow> batch_scheduler \<Rightarrow> batch_scheduler \<times> events" where
  "sample_seq fexp seeded draw sid is_prefill logits s = (case active s sid of
      None \<Rightarrow> (s, [])
    | Some q \<Rightarrow>
        if is_prefill \<and> aq_remaining_prefill q \<noteq> [] then (s, [])
        else case sample fexp seeded (draw sid) logits (seq_params q) of
          Inr token \<Rightarrow> (s\<lparr>active := (active s)(sid \<mapsto> accept_token token q)\<rparr>,
            if token \<in> set (aq_stop_tokens q) then [] else [(aq_event_tx q, TokenEvent token)])
        | Inl e \<Rightarrow> (s\<lparr>active := (active s)(sid \<mapsto> q\<lparr>aq_max_tokens := 0\<rparr>)\<rparr>, [(aq_event_tx q, ErrorEvent ''sampling failed: {e}'')]))"

primrec sample_batch ::
    "(f32 \<Rightarrow> f32) \<Rightarrow> (u64 \<Rightarrow> f32) \<Rightarrow> (u64 \<Rightarrow> f32) \<Rightarrow> ((u64 \<times> bool) \<times> f32 list) list \<Rightarrow> batch_scheduler \<Rightarrow> batch_scheduler \<times> events" where
  "sample_batch fexp seeded draw [] s = (s, [])"
| "sample_batch fexp seeded draw (x # xs) s =
     (case sample_seq fexp seeded draw (fst (fst x)) (snd (fst x)) (snd x) s of
        (s1, evs1) \<Rightarrow> (case sample_batch fexp seeded draw xs s1 of (s2, evs2) \<Rightarrow> (s2, evs1 @ evs2)))"

definition free_completed :: "(u64 \<times> u64) list \<Rightarrow> paged_manager \<Rightarrow> paged_manager" where
  "free_completed completed cache = foldl (\<lambda>c x. snd (free_seq (snd x) c)) cache completed"

text \<open>\<open>None\<close>: the pass panicked. The lock of the cache is then poisoned and the next round panics on it.\<close>

definition scheduler_round ::
    "(u16 \<Rightarrow> f32) \<Rightarrow> 'b backend \<Rightarrow> weight_store \<Rightarrow> usize \<times> usize \<Rightarrow> (f32 \<Rightarrow> f32) \<Rightarrow> (u64 \<Rightarrow> f32) \<Rightarrow> (u64 \<Rightarrow> f32) \<Rightarrow> (channel \<Rightarrow> bool)
     \<Rightarrow> ((u64 \<rightharpoonup> active_sequence) \<Rightarrow> u64 list) \<Rightarrow> batch_scheduler \<times> paged_manager \<times> 'b \<Rightarrow> ((batch_scheduler \<times> paged_manager \<times> 'b) \<times> events) option" where
  "scheduler_round h2f be ws lr fexp seeded draw closed order = (\<lambda>(s, cache, b).
     (case schedule_batch closed (order (active s)) s cache of (d, s1, cache1, evs) \<Rightarrow>
        if total_tokens d = 0 then Some ((s1, cache1, b), evs)
        else let entries = build_slices s1 d in
          if entries = [] then Some ((s1, cache1, b), evs)
          else case batched_forward_model h2f be paged_kv_cache ws lr (map fst entries) (cache1, b) of
            None \<Rightarrow> None
          | Some (Inl e, (cache2, b2)) \<Rightarrow>
              (case abort_batch (map (\<lambda>x. fst (snd x)) entries) s1 cache2 of (s3, cache3, evs3) \<Rightarrow> Some ((s3, cache3, b2), evs @ evs3))
          | Some (Inr logits, (cache2, b2)) \<Rightarrow>
              (case sample_batch fexp seeded draw (zip (map snd entries) logits) s1 of (s3, evs3) \<Rightarrow>
               case cleanup_completed closed (order (active s3)) s3 of (completed, s4, evs4) \<Rightarrow>
                 Some ((s4, free_completed completed cache2, b2), evs @ evs3 @ evs4))))"

subsection \<open>Caches and sequences\<close>

definition handle_of :: "(u64 \<rightharpoonup> active_sequence) \<Rightarrow> u64 \<Rightarrow> u64" where
  "handle_of a k = aq_handle (the (a k))"

text \<open>The cache holds exactly the sequences that are active, each under its own handle.\<close>

definition matched :: "(u64 \<rightharpoonup> active_sequence) \<Rightarrow> paged_manager \<Rightarrow> bool" where
  "matched a c \<longleftrightarrow> paged_ok c \<and> finite (dom a) \<and> (\<forall>k q. a k = Some q \<longrightarrow> aq_seq_id q = k)
     \<and> inj_on (handle_of a) (dom a) \<and> dom (sequences c) = handle_of a ` dom a"

lemma matched_upd:
  assumes "matched a c" "a k = Some q" "aq_handle q' = aq_handle q" "aq_seq_id q' = aq_seq_id q"
  shows "matched (a(k \<mapsto> q')) c"
proof -
  have "handle_of (a(k \<mapsto> q')) = handle_of a" using assms(2,3) by (simp add: handle_of_def fun_eq_iff)
  moreover have "dom (a(k \<mapsto> q')) = dom a" using assms(2) by (simp add: insert_absorb domI)
  ultimately show ?thesis using assms unfolding matched_def by simp
qed

lemma alloc_seq_ok:
  assumes "paged_ok m" "next_id m \<noteq> - 1" "alloc_seq m = (r, m')"
  shows "paged_ok m'"
proof -
  have "paged_run undefined m m'"
    by (rule mr_step [OF mr_start ms_alloc [where alloc = alloc_seq, OF _ assms(3)]]) (use assms(2) in \<open>simp add: paged_ledger_def\<close>)
  then show ?thesis using run_ok assms(1) by blast
qed

lemma matched_add:
  assumes m: "matched a c" and k: "a k = None" and n: "next_id c \<noteq> - 1" and al: "alloc_seq c = (r, c')"
  shows "(case r of Inl e \<Rightarrow> matched a c' | Inr h \<Rightarrow> aq_handle q = h \<longrightarrow> aq_seq_id q = k \<longrightarrow> matched (a(k \<mapsto> q)) c')
    \<and> next_id c' = next_id c + 1"
proof -
  have ok: "paged_ok c'" using alloc_seq_ok [OF _ n al] m by (simp add: matched_def)
  have out: "next_id c \<notin> dom (sequences c)"
  proof
    assume "next_id c \<in> dom (sequences c)"
    then obtain s where "lg_seqs (paged_ledger c) (next_id c) = Some s" by (auto simp: paged_ledger_def)
    then have "next_id c < lg_next (paged_ledger c)" using m ledger_invD(3) by (auto simp: matched_def paged_ok_def)
    then show False by (simp add: paged_ledger_def)
  qed
  show ?thesis
  proof (cases r)
    case (Inl e)
    then have "sequences c' = sequences c" "next_id c' = next_id c + 1" using al by (auto simp: alloc_seq_def Let_def split: prod.splits sum.splits)
    then show ?thesis using m ok Inl by (simp add: matched_def)
  next
    case (Inr h)
    then have s: "dom (sequences c') = insert h (dom (sequences c))" "h = next_id c" "next_id c' = next_id c + 1"
      using al by (auto simp: alloc_seq_def Let_def split: prod.splits sum.splits)
    have "matched (a(k \<mapsto> q)) c'" if q: "aq_handle q = h" "aq_seq_id q = k"
    proof -
      have f: "handle_of (a(k \<mapsto> q)) j = (if j = k then h else handle_of a j)" for j using q(1) by (simp add: handle_of_def)
      have kd: "k \<notin> dom a" using k by auto
      have h: "h \<notin> handle_of a ` dom a" using out m s(2) by (simp add: matched_def)
      let ?F = "handle_of (a(k \<mapsto> q))"
      have d: "dom (a(k \<mapsto> q)) = insert k (dom a)" by simp
      have i: "?F ` dom a = handle_of a ` dom a" by (rule image_cong) (use kd f in auto)
      have "inj_on ?F (dom a) = inj_on (handle_of a) (dom a)" by (rule inj_on_cong) (use kd f in auto)
      then have "inj_on ?F (dom (a(k \<mapsto> q)))" using m h kd unfolding d inj_on_insert matched_def by (auto simp: i f)
      moreover have "?F ` dom (a(k \<mapsto> q)) = insert h (handle_of a ` dom a)" unfolding d image_insert i by (simp add: f)
      ultimately show ?thesis using m ok q(2) unfolding matched_def s by simp
    qed
    then show ?thesis using Inr s(3) by simp
  qed
qed

lemma free_seq_ok:
  assumes "paged_ok m"
  shows "paged_ok (snd (free_seq h m))"
proof -
  obtain r m' where f: "free_seq h m = (r, m')" by fastforce
  have "paged_run undefined m m'" by (rule mr_step [OF mr_start ms_release [where release = free_seq, OF f]])
  then show ?thesis using run_ok assms f by fastforce
qed

lemma matched_remove:
  assumes m: "matched a c" and k: "a k = Some q"
  shows "matched (a(k := None)) (snd (free_seq (aq_handle q) c))"
proof -
  have hk: "handle_of a k = aq_handle q" "k \<in> dom a" using k by (auto simp: handle_of_def)
  then have "aq_handle q \<in> handle_of a ` dom a" by (metis imageI)
  then have "aq_handle q \<in> dom (sequences c)" using m by (simp only: matched_def)
  then obtain sq where sq: "sequences c (aq_handle q) = Some sq" by blast
  have d: "dom (sequences (snd (free_seq (aq_handle q) c))) = dom (sequences c) - {aq_handle q}"
    unfolding free_seq_def sq option.case snd_conv by (simp del: fun_upd_apply)
  have f: "handle_of (a(k := None)) ` (dom a - {k}) = handle_of a ` (dom a - {k})" by (rule image_cong) (simp_all add: handle_of_def)
  have g: "inj_on (handle_of (a(k := None))) (dom a - {k}) = inj_on (handle_of a) (dom a - {k})" by (rule inj_on_cong) (simp add: handle_of_def)
  have "handle_of a ` (dom a - {k}) = handle_of a ` dom a - {aq_handle q}"
    using m hk inj_on_image_set_diff [of "handle_of a" "dom a" "dom a" "{k}"] by (simp add: matched_def)
  moreover have "inj_on (handle_of a) (dom a - {k})" using m by (auto simp: matched_def intro: inj_on_subset)
  moreover have "dom (a(k := None)) = dom a - {k}" by (simp add: dom_fun_upd)
  ultimately show ?thesis using m free_seq_ok [of c "aq_handle q"] unfolding matched_def d by (simp add: f g)
qed

subsection \<open>The forward pass keeps the sequences of the cache\<close>

text \<open>A computation keeps \<open>I\<close>, also when it fails.\<close>

definition preserves :: "('s \<Rightarrow> bool) \<Rightarrow> ('s, 'a) comp \<Rightarrow> bool" where
  "preserves I m \<longleftrightarrow> (\<forall>s r s'. I s \<longrightarrow> m s = Some (r, s') \<longrightarrow> I s')"

lemma preserves_ret: "preserves I (cret x)" "preserves I (cfail e)" "preserves I cpanic"
  by (simp_all add: preserves_def cret_def cfail_def cpanic_def)

lemma preserves_dev: "preserves (\<lambda>s. J (fst s)) (dev d)"
  unfolding preserves_def
proof (intro allI impI)
  fix s r s'
  assume "J (fst s)" "dev d s = Some (r, s')"
  then show "J (fst s')" by (cases s; cases "d (snd s)") (auto simp: dev_def)
qed

lemmas preserves_basic = preserves_ret preserves_dev

lemma preserves_cbind: "preserves I m \<Longrightarrow> (\<And>x. preserves I (f x)) \<Longrightarrow> preserves I (cbind m f)"
  unfolding preserves_def
proof (intro allI impI)
  fix s r s'
  assume m: "\<forall>s r s'. I s \<longrightarrow> m s = Some (r, s') \<longrightarrow> I s'" and f: "\<And>x. \<forall>s r s'. I s \<longrightarrow> f x s = Some (r, s') \<longrightarrow> I s'"
    and i: "I s" and b: "cbind m f s = Some (r, s')"
  obtain r1 s1 where r1: "m s = Some (r1, s1)" using b by (cases "m s") (auto simp: cbind_def)
  have s1: "I s1" using m i r1 by blast
  show "I s'"
  proof (cases r1)
    case (Inl e)
    then show ?thesis using b r1 s1 by (simp add: cbind_def)
  next
    case (Inr x)
    then have "f x s1 = Some (r, s')" using b r1 by (simp add: cbind_def)
    then show ?thesis using f s1 by blast
  qed
qed

lemma preserves_if: "(c \<Longrightarrow> preserves I m) \<Longrightarrow> (\<not> c \<Longrightarrow> preserves I n) \<Longrightarrow> preserves I (if c then m else n)"
  by simp

lemma preserves_cforeach:
  assumes f: "\<And>x. preserves I (f x)"
  shows "preserves I (cforeach f xs)"
proof (induction xs)
  case Nil
  show ?case unfolding cforeach.simps by (rule preserves_ret)
next
  case (Cons x xs)
  show ?case unfolding cforeach.simps by (rule preserves_cbind [OF f Cons])
qed

lemma preserves_ccollect:
  assumes f: "\<And>x. preserves I (f x)"
  shows "preserves I (ccollect f xs)"
proof (induction xs)
  case Nil
  show ?case unfolding ccollect.simps by (rule preserves_ret)
next
  case (Cons x xs)
  show ?case unfolding ccollect.simps by (intro preserves_cbind f Cons preserves_ret)
qed

lemmas preserves_intros = preserves_basic preserves_cbind preserves_if preserves_cforeach preserves_ccollect

lemma pass_preserves:
  assumes "\<And>h l k v c b r c' b'. J c \<Longrightarrow> pc_append_kv pc be h l k v c b = Some (r, c', b') \<Longrightarrow> J c'"
  shows "preserves (\<lambda>s. J (fst s)) (batched_forward_model h2f be pc ws lr ss)"
proof -
  have ap: "preserves (\<lambda>s. J (fst s)) (\<lambda>(c, b). pc_append_kv pc be h l k v c b)" for h l k v
    unfolding preserves_def split_beta by (metis assms prod.collapse)
  have at: "preserves (\<lambda>s. J (fst s)) (\<lambda>(c, b). map_option (\<lambda>(r, b'). (r, (c, b'))) (pc_dispatch_attention pc be c q h l nkv n sp out b))" for q h l nkv n sp out
    by (auto simp: preserves_def)
  have sl: "preserves (\<lambda>s. J (fst s)) (\<lambda>(c, b). Some (pc_seq_len pc c h, (c, b)))" for h by (auto simp: preserves_def)
  have 1: "preserves (\<lambda>s. J (fst s)) (append_slice be pc cfg n l sc x)" for cfg n l sc x
    by (cases x) (simp only: append_slice_def Let_def prod.case, (intro preserves_intros ap)+)
  have 2: "preserves (\<lambda>s. J (fst s)) (attend_slice be pc cfg n l sc x)" for cfg n l sc x
  proof -
    obtain s a e p where x: "x = ((s, a, e), p)" by (metis prod.exhaust)
    show ?thesis unfolding x attend_slice_def Let_def prod.case by (intro preserves_intros at)
  qed
  have 3: "preserves (\<lambda>s. J (fst s)) (batched_layer be pc ws batch starts n ps hs sc l)" for batch starts n ps hs sc l
    unfolding batched_layer_def project_def feed_forward_def Let_def by (intro preserves_intros 1 2)
  have 4: "preserves (\<lambda>s. J (fst s)) (last_logits h2f be ws sc x)" for sc x
    by (cases x) (simp only: last_logits_def Let_def prod.case, (intro preserves_intros)+)
  have 5: "preserves (\<lambda>s. J (fst s)) (alloc_scratch be cfg n)" for cfg n
    unfolding alloc_scratch_def Let_def by (intro preserves_intros)
  show ?thesis unfolding batched_forward_model_def final_norm_def Let_def 
    apply (intro preserves_if preserves_basic(1))
    apply (rule preserves_cbind, rule preserves_ccollect, rule sl)
    apply (rule preserves_cbind, rule preserves_basic)+
    apply (rule preserves_cbind, rule 5)
    apply (rule preserves_cbind, rule preserves_cforeach, rule 3)
    apply (rule preserves_cbind, rule preserves_basic)
    apply (rule preserves_cbind, rule preserves_ccollect, rule 4)
    apply (rule preserves_cbind, rule preserves_cforeach, rule preserves_basic, rule preserves_basic)
    done
qed

lemma append_keeps_sequences:
  assumes "append_kv be h l k v m b = Some (r, m', b')"
  shows "dom (sequences m') = dom (sequences m) \<and> next_id m' = next_id m"
  using assms by (cases rule: append_kv_cases) auto

lemma pass_keeps_sequences:
  assumes "paged_ok c" and "batched_forward_model h2f be paged_kv_cache ws lr ss (c, b) = Some (r, (c', b'))"
  shows "paged_ok c' \<and> dom (sequences c') = dom (sequences c) \<and> next_id c' = next_id c"
proof -
  define J where "J x \<longleftrightarrow> paged_ok x \<and> dom (sequences x) = dom (sequences c) \<and> next_id x = next_id c" for x
  have "preserves (\<lambda>s. J (fst s)) (batched_forward_model h2f be paged_kv_cache ws lr ss)"
  proof (rule pass_preserves [where J = J])
    fix h l k v x b r c' b'
    assume x: "J x" and a: "pc_append_kv paged_kv_cache be h l k v x b = Some (r, c', b')"
    then have r: "append_kv be h l k v x b = Some (r, c', b')" by (simp add: paged_kv_cache_def)
    show "J c'" using append_ok [OF _ r] append_keeps_sequences [OF r] x by (simp add: J_def)
  qed
  then have "J (fst (c, b)) \<longrightarrow> J (fst (c', b'))" using assms(2) unfolding preserves_def by blast
  then show ?thesis using assms(1) by (simp add: J_def)
qed

lemma matched_same: "matched a c \<Longrightarrow> paged_ok c' \<Longrightarrow> dom (sequences c') = dom (sequences c) \<Longrightarrow> matched a c'"
  by (simp add: matched_def)

subsection \<open>The steps of a round\<close>

lemma chunks_matched:
  assumes "matched (active s) c" and "schedule_chunks sids s d pt = (s', d', pt')"
  shows "matched (active s') c \<and> prefill_queue s' = prefill_queue s \<and> dom (active s') = dom (active s)"
  using assms
proof (induction sids arbitrary: s d pt)
  case (Cons sid sids)
  show ?case
  proof (cases "no_room s d pt \<or> active s sid = None")
    case True
    then show ?thesis using Cons by (auto split: if_splits)
  next
    case False
    then obtain q where q: "active s sid = Some q" by blast
    let ?n = "chunk_size s d pt (length (aq_remaining_prefill q))"
    let ?s = "s\<lparr>active := (active s)(sid \<mapsto> advance ?n q)\<rparr>"
    have r: "schedule_chunks sids ?s (add_prefill (chunk_job ?n sid q) ?n d) (pt + ?n) = (s', d', pt')"
      using Cons.prems(2) False q by (simp add: Let_def)
    have m: "matched (active ?s) c" using matched_upd [OF Cons.prems(1) q, of "advance ?n q"] by (simp add: advance_def)
    have d: "dom (active ?s) = dom (active s)" using q by (simp add: insert_absorb domI)
    show ?thesis using Cons.IH [OF m r, unfolded d] by simp
  qed
qed simp

definition fresh_queue :: "pending_request list \<Rightarrow> (u64 \<rightharpoonup> active_sequence) \<Rightarrow> bool" where
  "fresh_queue queue a \<longleftrightarrow> distinct (map pr_seq_id queue) \<and> pr_seq_id ` set queue \<inter> dom a = {}"

lemma admit_matched:
  assumes "matched (active s) c" and "fresh_queue queue (active s)" and "unat (next_id c) + length queue < 2 ^ 64"
    and "admit_requests available queue s c d pt = ((s', queue'), c', d', evs)"
  shows "matched (active s') c' \<and> fresh_queue queue' (active s')"
  using assms
proof (induction queue arbitrary: s c d pt evs)
  case (Cons req queue)
  let ?n = "chunk_size s d pt (length (pr_prompt_tokens req))"
  obtain r c1 where a: "alloc_seq c = (r, c1)" by fastforce
  show ?case
  proof (cases "no_room s d pt \<or> div_ceil (length (pr_prompt_tokens req)) 16 > available")
    case True
    then show ?thesis using Cons.prems by auto
  next
    case False
    have nw: "next_id c \<noteq> - 1"
    proof
      assume "next_id c = - 1"
      then have "unat (next_id c) = 2 ^ 64 - 1" by (simp add: unsigned_minus_1_eq_mask mask_eq_exp_minus_1)
      then show False using Cons.prems(3) by simp
    qed
    have k: "active s (pr_seq_id req) = None" "fresh_queue queue (active s)" using Cons.prems(2) by (auto simp: fresh_queue_def)
    have lt: "unat (next_id c + 1) = unat (next_id c) + 1" using Cons.prems(3) by (simp add: unat_word_ariths)
    note M = matched_add [OF Cons.prems(1) k(1) nw a]
    show ?thesis
    proof (cases r)
      case (Inl e)
      obtain sq cc d1 evs1 where z: "admit_requests available queue s c1 d pt = (sq, cc, d1, evs1)" using prod_cases4 by blast
      then have z: "admit_requests available queue s c1 d pt = ((s', queue'), c', d', evs1)" using Cons.prems(4) False a Inl by simp
      have "matched (active s) c1" "unat (next_id c1) + length queue < 2 ^ 64" using M Inl lt Cons.prems(3) by simp_all
      then show ?thesis using Cons.IH [OF _ k(2) _ z] by blast
    next
      case (Inr h)
      let ?s = "s\<lparr>active := (active s)(pr_seq_id req \<mapsto> admit_sequence req h ?n)\<rparr>"
      have z: "admit_requests available queue ?s c1 (add_prefill (admit_job req h ?n) ?n d) (pt + ?n) = ((s', queue'), c', d', evs)"
        using Cons.prems(4) False a Inr by (simp add: Let_def)
      have "matched (active ?s) c1" using M [where q = "admit_sequence req h ?n"] Inr by (simp add: admit_sequence_def)
      moreover have "fresh_queue queue (active ?s)" using Cons.prems(2) by (auto simp: fresh_queue_def)
      moreover have "unat (next_id c1) + length queue < 2 ^ 64" using M Cons.prems(3) lt by simp
      ultimately show ?thesis using Cons.IH z by blast
    qed
  qed
qed auto

lemma schedule_matched:
  assumes "matched (active s) c" and "fresh_queue (prefill_queue s) (active s)" and "unat (next_id c) + length (prefill_queue s) < 2 ^ 64"
    and "schedule_batch closed ks s c = (d, s', c', evs)"
  shows "matched (active s') c' \<and> fresh_queue (prefill_queue s') (active s')"
proof -
  let ?d1 = "schedule_decodes closed s (seqs_where (\<lambda>q. aq_remaining_prefill q = []) ks s) empty_decision"
  obtain s2 d2 pt where c: "schedule_chunks (seqs_where (\<lambda>q. aq_remaining_prefill q \<noteq> []) ks s) s ?d1 0 = (s2, d2, pt)" using prod_cases3 by blast
  note C = chunks_matched [OF assms(1) c]
  obtain s3 queue cc d3 e3 where a: "admit_requests (num_free_blocks c - reserved_blocks s c) (prefill_queue s2) s2 c d2 pt = ((s3, queue), cc, d3, e3)"
    by (metis prod.exhaust)
  have "matched (active s3) cc \<and> fresh_queue queue (active s3)"
    by (rule admit_matched [OF _ _ _ a]) (use C assms(2,3) in \<open>auto simp: fresh_queue_def\<close>)
  moreover have "s' = s3\<lparr>prefill_queue := queue\<rparr>" "c' = cc" using assms(4) c a by (auto simp: schedule_batch_def Let_def)
  ultimately show ?thesis by simp
qed

lemma abort_matched:
  assumes "matched (active s) c" and "fresh_queue (prefill_queue s) (active s)" and "abort_batch sids s c = (s', c', evs)"
  shows "matched (active s') c' \<and> fresh_queue (prefill_queue s') (active s')"
  using assms
proof (induction sids arbitrary: s c evs)
  case (Cons sid sids)
  show ?case
  proof (cases "active s sid")
    case (Some q)
    let ?s = "s\<lparr>active := (active s)(sid := None)\<rparr>" and ?c = "snd (free_seq (aq_handle q) c)"
    obtain s1 c1 e1 where z: "abort_batch sids ?s ?c = (s1, c1, e1)" using prod_cases3 by blast
    have "matched (active ?s) ?c" using matched_remove [OF Cons.prems(1) Some] by simp
    moreover have "fresh_queue (prefill_queue ?s) (active ?s)" using Cons.prems(2) by (auto simp: fresh_queue_def)
    moreover have "abort_batch sids ?s ?c = (s', c', e1)" using Cons.prems(3) Some z by (simp del: fun_upd_apply)
    ultimately show ?thesis by (rule Cons.IH)
  qed (use Cons in simp)
qed simp

lemma sample_matched:
  assumes "matched (active s) c" and "fresh_queue (prefill_queue s) (active s)" and "sample_batch fexp seeded draw xs s = (s', evs)"
  shows "matched (active s') c \<and> fresh_queue (prefill_queue s') (active s')"
  using assms
proof (induction xs arbitrary: s evs)
  case (Cons x xs)
  obtain s1 e1 s2 e2 where z: "sample_seq fexp seeded draw (fst (fst x)) (snd (fst x)) (snd x) s = (s1, e1)" "sample_batch fexp seeded draw xs s1 = (s2, e2)"
    by (metis prod.exhaust)
  have "matched (active s1) c \<and> fresh_queue (prefill_queue s1) (active s1)"
  proof (cases "active s (fst (fst x))")
    case (Some q)
    have "matched ((active s)(fst (fst x) \<mapsto> q')) c \<and> fresh_queue (prefill_queue s) ((active s)(fst (fst x) \<mapsto> q'))"
      if "aq_handle q' = aq_handle q" "aq_seq_id q' = aq_seq_id q" for q'
      using matched_upd [OF Cons.prems(1) Some that] Cons.prems(2) Some by (auto simp: fresh_queue_def)
    note upd = this
    show ?thesis
    proof (cases "snd (fst x) \<and> aq_remaining_prefill q \<noteq> []")
      case True
      then show ?thesis using z(1) Some Cons.prems(1,2) by (simp add: sample_seq_def)
    next
      case False
      then show ?thesis
        using z(1) Some upd [of "q\<lparr>aq_max_tokens := 0\<rparr>"] upd [of "accept_token t q" for t]
        by (cases "sample fexp seeded (draw (fst (fst x))) (snd x) (seq_params q)") (auto simp: sample_seq_def accept_token_def simp del: fun_upd_apply)
    qed
  qed (use z(1) Cons.prems in \<open>simp add: sample_seq_def\<close>)
  then show ?case using Cons.IH [of s1 e2] Cons.prems(3) z by simp
qed simp

lemma removed_matched:
  assumes "matched a c" and "distinct ks" and "set ks \<subseteq> dom a"
  shows "matched (foldl (\<lambda>m k. m(k := None)) a ks) (free_completed (map (\<lambda>k. (k, aq_handle (the (a k)))) ks) c)"
  using assms
proof (induction ks arbitrary: a c)
  case (Cons k ks)
  then obtain q where q: "a k = Some q" by auto
  let ?a = "a(k := None)" and ?c = "snd (free_seq (aq_handle q) c)"
  have eq: "map (\<lambda>k. (k, aq_handle (the (?a k)))) ks = map (\<lambda>k. (k, aq_handle (the (a k)))) ks" using Cons.prems(2) by auto
  have "set ks \<subseteq> dom ?a" using Cons.prems(2,3) by auto
  from Cons.IH [OF matched_remove [OF Cons.prems(1) q] _ this, unfolded eq] Cons.prems(2)
  show ?case using q by (simp add: free_completed_def del: fun_upd_apply)
qed (simp add: free_completed_def)

lemma foldl_remove: "foldl (\<lambda>m k. m(k := None)) a ks = a |` (- set ks)"
  by (induction ks arbitrary: a) (auto simp: fun_eq_iff restrict_map_def)

lemma cleanup_matched:
  assumes "matched (active s) c" and "fresh_queue (prefill_queue s) (active s)" and "lists_keys ks (active s)"
    and "cleanup_completed closed ks s = (completed, s', evs)"
  shows "matched (active s') (free_completed completed c) \<and> fresh_queue (prefill_queue s') (active s')"
proof -
  let ?ks = "filter (\<lambda>k. let q = the (active s k) in finished_reason q \<noteq> None \<or> closed (aq_event_tx q)) ks"
  have e: "completed = map (\<lambda>k. (k, aq_handle (the (active s k)))) ?ks" "s' = s\<lparr>active := foldl (\<lambda>m k. m(k := None)) (active s) ?ks\<rparr>"
    using assms(4) by (auto simp: cleanup_completed_def Let_def)
  have "distinct ?ks" "set ?ks \<subseteq> dom (active s)" using assms(3) by (auto simp: lists_keys_def)
  from removed_matched [OF assms(1) this] have "matched (active s') (free_completed completed c)" unfolding e by simp
  moreover have "fresh_queue (prefill_queue s') (active s')" using assms(2) unfolding e by (auto simp: fresh_queue_def foldl_remove)
  ultimately show ?thesis ..
qed

definition server_inv :: "batch_scheduler \<Rightarrow> paged_manager \<Rightarrow> bool" where
  "server_inv s c \<longleftrightarrow> matched (active s) c \<and> fresh_queue (prefill_queue s) (active s)"

lemma round_keeps_inv:
  assumes inv: "server_inv s c" and id: "unat (next_id c) + length (prefill_queue s) < 2 ^ 64"
    and order: "\<And>m. finite (dom m) \<Longrightarrow> lists_keys (order m) m"
    and rd: "scheduler_round h2f be ws lr fexp seeded draw closed order (s, c, b) = Some ((s', c', b'), evs)"
  shows "server_inv s' c'"
proof -
  obtain d s1 c1 e1 where sb: "schedule_batch closed (order (active s)) s c = (d, s1, c1, e1)" using prod_cases4 by blast
  have S: "matched (active s1) c1" "fresh_queue (prefill_queue s1) (active s1)"
    using schedule_matched [OF _ _ id sb] inv by (auto simp: server_inv_def)
  show ?thesis
  proof (cases "total_tokens d = 0 \<or> build_slices s1 d = []")
    case True
    then have "s' = s1" "c' = c1" using rd sb by (cases "total_tokens d = 0"; simp add: scheduler_round_def Let_def)+
    then show ?thesis using S by (simp add: server_inv_def)
  next
    case False
    let ?pass = "batched_forward_model h2f be paged_kv_cache ws lr (map fst (build_slices s1 d)) (c1, b)"
    obtain r c2 b2 where p: "?pass = Some (r, (c2, b2))"
      using rd sb False by (cases ?pass) (auto simp: scheduler_round_def Let_def)
    have m: "matched (active s1) c2" using pass_keeps_sequences [OF _ p] S(1) by (simp add: matched_def)
    show ?thesis
    proof (cases r)
      case (Inl e)
      obtain s3 c3 e3 where a: "abort_batch (map (\<lambda>x. fst (snd x)) (build_slices s1 d)) s1 c2 = (s3, c3, e3)" using prod_cases3 by blast
      have "s' = s3" "c' = c3" using rd sb False p Inl a by (simp_all add: scheduler_round_def Let_def)
      then show ?thesis using abort_matched [OF m S(2) a] by (simp add: server_inv_def)
    next
      case (Inr logits)
      obtain s3 e3 where a: "sample_batch fexp seeded draw (zip (map snd (build_slices s1 d)) logits) s1 = (s3, e3)" by fastforce
      obtain cs s4 e4 where f: "cleanup_completed closed (order (active s3)) s3 = (cs, s4, e4)" using prod_cases3 by blast
      have e: "s' = s4" "c' = free_completed cs c2" using rd sb False p Inr a f by (simp_all add: scheduler_round_def Let_def)
      note M = sample_matched [OF m S(2) a]
      then have "lists_keys (order (active s3)) (active s3)" using order by (simp add: matched_def)
      then show ?thesis using cleanup_matched [OF _ _ _ f] M unfolding e server_inv_def by blast
    qed
  qed
qed

text \<open>
  A run of the server: it starts with a new scheduler and a cache without sequences, accepts requests under new
  ids, and runs rounds. A round needs an unused handle for every request that waits.
\<close>

inductive server_run ::
    "(u16 \<Rightarrow> f32) \<Rightarrow> 'b backend \<Rightarrow> weight_store \<Rightarrow> usize \<times> usize \<Rightarrow> (f32 \<Rightarrow> f32) \<Rightarrow> (u64 \<Rightarrow> f32) \<Rightarrow> ((u64 \<rightharpoonup> active_sequence) \<Rightarrow> u64 list)
     \<Rightarrow> paged_manager \<Rightarrow> batch_scheduler \<times> paged_manager \<times> 'b \<Rightarrow> bool"
  for h2f be ws lr fexp seeded order c0 where
  sr_start: "server_run h2f be ws lr fexp seeded order c0 (new_batch_scheduler mb mt mp rsv, c0, b)"
| sr_submit: "server_run h2f be ws lr fexp seeded order c0 (s, c, b) \<Longrightarrow> pr_seq_id req \<notin> pr_seq_id ` set (prefill_queue s) \<union> dom (active s)
    \<Longrightarrow> server_run h2f be ws lr fexp seeded order c0 (fst (handle_command config ks (Submit req) s c), c, b)"
| sr_round: "server_run h2f be ws lr fexp seeded order c0 (s, c, b) \<Longrightarrow> unat (next_id c) + length (prefill_queue s) < 2 ^ 64
    \<Longrightarrow> scheduler_round h2f be ws lr fexp seeded draw closed order (s, c, b) = Some (scb, evs)
    \<Longrightarrow> server_run h2f be ws lr fexp seeded order c0 scb"

lemma server_run_inv:
  assumes "server_run h2f be ws lr fexp seeded order c0 scb" and "paged_ok c0" and "sequences c0 = Map.empty"
    and order: "\<And>m. finite (dom m) \<Longrightarrow> lists_keys (order m) m"
  shows "server_inv (fst scb) (fst (snd scb))"
  using assms(1)
proof induction
  case sr_start
  show ?case using assms(2,3) by (simp add: server_inv_def matched_def fresh_queue_def new_batch_scheduler_def)
next
  case (sr_submit s c b req config ks)
  then show ?case by (auto simp: server_inv_def fresh_queue_def handle_command_def enqueue_def)
next
  case (sr_round s c b draw closed scb evs)
  obtain s' c' b' where e: "scb = (s', c', b')" using prod_cases3 by blast
  have "server_inv s c" using sr_round.IH by simp
  from round_keeps_inv [OF this sr_round.hyps(2) order sr_round.hyps(3) [unfolded e]] show ?case by (simp add: e)
qed

subsection \<open>Properties\<close>

definition one_token :: pending_request where
  "one_token = (request 1 1)\<lparr>pr_prompt_tokens := [1]\<rparr>"

definition idle :: batch_scheduler where
  "idle = new_batch_scheduler 8 64 20 0"

abbreviation tiny_round :: "batch_scheduler \<times> paged_manager \<times> blank \<Rightarrow> ((batch_scheduler \<times> paged_manager \<times> blank) \<times> events) option" where
  "tiny_round \<equiv> scheduler_round (\<lambda>_. 0) blank_backend tiny_weights (0, 1) (\<lambda>x. x) (\<lambda>_. 0) (\<lambda>_. 0) (\<lambda>_. False) (\<lambda>m. sorted_list_of_set (dom m))"

lemma tiny0_ok: "paged_ok tiny0"
  by (rule new_manager_ok(1) [OF ram_heap_laws tiny_new])

lemma tiny_admits:
  "schedule_batch (\<lambda>_. False) [] (enqueue one_token idle) tiny0
   = (\<lparr>prefills = [admit_job one_token 0 1], decodes = [], total_tokens = 1\<rparr>, idle\<lparr>active := [1 \<mapsto> admit_sequence one_token 0 1]\<rparr>, tiny1, [])"
proof -
  have r: "reserved_blocks (enqueue one_token idle) tiny0 = 0" by code_simp
  have n: "num_free_blocks tiny0 = 2" by (simp add: num_free_blocks_def num_free_def tiny_pool_def)
  show ?thesis
    unfolding schedule_batch_def r n
    by (simp add: Let_def seqs_where_def enqueue_def idle_def new_batch_scheduler_def one_token_def request_def no_room_def
        batch_full_def empty_decision_def tiny_alloc [simplified] chunk_size_def add_prefill_def div_ceil_def)
qed

lemma tiny_round_runs: "\<exists>scb evs. tiny_round (enqueue one_token idle, tiny0, blank0) = Some (scb, evs)"
proof -
  let ?S = "idle\<lparr>active := [1 \<mapsto> admit_sequence one_token 0 1]\<rparr>"
  let ?D = "\<lparr>prefills = [admit_job one_token 0 1], decodes = [], total_tokens = 1\<rparr>"
  have b: "map fst (build_slices ?S ?D) = [tiny_slice [1] [0]]"
    by (simp add: build_slices_def prefill_slice_def admit_job_def admit_sequence_def one_token_def request_def tiny_slice_def)
  then have n: "total_tokens ?D \<noteq> 0" "build_slices ?S ?D \<noteq> []" by auto
  obtain out m b' where p: "batched_forward_model (\<lambda>_. 0) blank_backend paged_kv_cache tiny_weights (0, 1) [tiny_slice [1] [0]] (tiny1, blank0)
      = Some (Inr out, (m, b'))" using tiny_chunks by blast
  have "sorted_list_of_set (dom (active (enqueue one_token idle))) = []" by (simp add: enqueue_def idle_def new_batch_scheduler_def)
  then have e: "schedule_batch (\<lambda>_. False) (sorted_list_of_set (dom (active (enqueue one_token idle)))) (enqueue one_token idle) tiny0 = (?D, ?S, tiny1, [])"
    using tiny_admits by (simp only:)
  obtain s3 e3 where q: "sample_batch (\<lambda>x. x) (\<lambda>_. 0) (\<lambda>_. 0) (zip (map snd (build_slices ?S ?D)) out) ?S = (s3, e3)" by (metis prod.exhaust)
  obtain cs s4 e4 where c: "cleanup_completed (\<lambda>_. False) (sorted_list_of_set (dom (active s3))) s3 = (cs, s4, e4)" by (metis prod.exhaust)
  show ?thesis
    unfolding scheduler_round_def prod.case e Let_def b p if_not_P [OF n(1)] if_not_P [OF n(2)] option.case sum.case q c by blast
qed

text \<open>C15: whatever requests arrive, and whether the passes succeed or fail, between two rounds of the server the paged cache holds
  exactly one sequence for every active request, no two requests share one, and no cache outlives its request: a
  server without active requests has all blocks of its pool free.\<close>

theorem caches_match_sequences:
  assumes "paged_ok c0" and "sequences c0 = Map.empty" and "\<forall>m. finite (dom m) \<longrightarrow> lists_keys (order m) m"
    and "server_run h2f be ws lr fexp seeded order c0 (s, c, b)"
  shows "paged_ok c \<and> dom (sequences c) = handle_of (active s) ` dom (active s) \<and> inj_on (handle_of (active s)) (dom (active s))
    \<and> (active s = Map.empty \<longrightarrow> num_free_blocks c = capacity (pool c))"
proof -
  have m: "matched (active s) c" using server_run_inv [OF assms(4,1,2)] assms(3) by (simp add: server_inv_def)
  have "num_free_blocks c = capacity (pool c)" if "active s = Map.empty"
  proof -
    have "sequences c = Map.empty" using m that by (simp add: matched_def)
    then have "owned (paged_ledger c) h = {}" for h by (simp add: owned_def paged_ledger_def)
    then show ?thesis using m free_count [of "paged_ledger c"]
      by (simp add: matched_def paged_ok_def num_free_blocks_def num_free_def paged_ledger_def)
  qed
  then show ?thesis using m by (simp add: matched_def)
qed

theorem caches_match_sequences_witness:
  "\<exists>s c b evs. tiny_round (enqueue one_token idle, tiny0, blank0) = Some ((s, c, b), evs)
     \<and> paged_ok c \<and> dom (sequences c) = handle_of (active s) ` dom (active s)"
proof -
  obtain s c b evs where r: "tiny_round (enqueue one_token idle, tiny0, blank0) = Some ((s, c, b), evs)"
    using tiny_round_runs by (metis prod.exhaust)
  let ?run = "server_run (\<lambda>_. 0) blank_backend tiny_weights (0, 1) (\<lambda>x. x) (\<lambda>_. 0) (\<lambda>m. sorted_list_of_set (dom m)) tiny0"
  have "?run (idle, tiny0, blank0)" unfolding idle_def by (rule sr_start)
  then have "?run (fst (handle_command default_loop_config [] (Submit one_token) idle tiny0), tiny0, blank0)"
    by (rule sr_submit) (simp add: idle_def new_batch_scheduler_def)
  then have "?run (enqueue one_token idle, tiny0, blank0)" by (simp add: handle_command_def)
  then have "?run (s, c, b)" by (rule sr_round [OF _ _ r]) (simp add: enqueue_def idle_def new_batch_scheduler_def)
  from caches_match_sequences [OF tiny0_ok _ _ this] show ?thesis using r by (auto simp: lists_keys_def)
qed


end
