(* ===== verification/Spec2Isabelle.thy ===== *)
theory Spec2Isabelle
  imports Election_Cluster Rebalance Paged_Correct Heartbeat_Tracker Seq_State Gguf_Correct Batch_Scheduler Scheduler_Loop
begin

text \<open>
  Fracture runs inference of one transformer model on several machines. A coordinator registers
  workers, hands each a range of layers, and sends every request through them in layer order over a
  framed TCP protocol; workers keep the attention caches of their layers; heartbeats find dead workers,
  a rebalance spreads the layers over the rest, and an election replaces a dead coordinator. This
  library models the Rust sources under \<open>src/crates\<close> and \<open>src/bins\<close> as HOL functions and proves what
  makes them correct.

  \<^bold>\<open>Conventions.\<close> \<open>Prelude\<close> has the result chains (\<open>?\<close> is \<open>rbind\<close>), byte orders, byte readers and
  iterator adaptors; \<open>Core\<close> the errors of \<open>fracture-core/src/error.rs\<close>, tensors and the model
  configuration. A function that may fail returns \<open>error + value\<close>, one that may panic an option; an
  operation on a struct takes and returns its record. Fixed-width integers are words, \<open>usize\<close> is \<open>nat\<close>
  with saturation and truncation written out where the code has them, an \<open>f32\<close> is its 32 bits with the
  arithmetic of \<open>F32\<close>. A hash map is a map together with the order in which it happens to be traversed,
  given as an argument; so are clock readings, the completion order of concurrent receives, and the bytes
  a peer will have sent (the read half of a connection). Strings in errors are the format strings.

  \<^bold>\<open>Protocol\<close> (\<open>fracture-protocol/src\<close>). \<open>Frame\<close> (frame.rs), \<open>Wire_Tensor\<close> (tensor.rs), \<open>Messages\<close>
  (messages.rs) and \<open>Connection\<close> (connection.rs). The locale \<open>stream_codec\<close> of \<open>Stream_Codec\<close> is the
  contract of everything that is written to a stream and read back; frames, headers and GGUF entries
  interpret it. Shown: a conversation over an intact link is delivered unchanged, receiver and frame
  decoder agree, and a link that breaks inside a frame is noticed at both ends.

  \<^bold>\<open>Election\<close> (\<open>fracture-election/src\<close>). \<open>Election\<close> has the terms and the agent (term.rs,
  state_machine.rs); \<open>Election_Cluster\<close> runs agents over a network that delays, reorders and drops
  messages, as an inductive step relation. Shown by rule induction over the reachable states: no two
  nodes that ran in a term both win it; a node may still win a term it never ran in.

  \<^bold>\<open>Coordinator\<close> (\<open>fracture-coordinator/src\<close>). \<open>Layer_Scheduler\<close> has scheduler.rs; \<open>Layer_Plan\<close> states
  the contract of a plan as the locale \<open>layer_plan\<close>, \<open>Layer_Modes\<close> interprets it for the three modes, and
  \<open>Layer_Schedule\<close> shows coverage, memory bounds, absence of panics, balance and the bottleneck.
  \<open>Registry\<close> has registry.rs, \<open>Heartbeat_Tracker\<close> heartbeat.rs with the judging round of
  \<open>distributed_loop.rs\<close>, \<open>Seq_State\<close> state.rs. \<open>Dist_Pipeline\<close> has pipeline.rs, and \<open>Pipeline_Correct\<close>
  shows that a forward pass is the composition of the stages. \<open>Rebalance\<close> has rebalance.rs, which composes
  pipeline, registry and scheduler, and shows what the new pipeline consists of.

  \<^bold>\<open>Engine\<close> (\<open>fracture-engine/src\<close>). \<open>Batch_Scheduler\<close> has scheduler.rs, which decides what takes part
  in the next pass and admits requests to the paged cache; it shows that a batch keeps its limits and that
  prompts are prefilled in order and without loss.
  \<open>Device\<close> is the part of the \<open>Backend\<close> trait that the caches and the forward pass call.
  \<open>Block_Ledger\<close> is the abstract account of who owns which block, with the contract of a block manager
  as the locale \<open>block_manager\<close>; \<open>Paged_Cache\<close> has paged_kv_cache.rs, \<open>Paged_Store\<close> interprets the locale
  for it and follows the rows through the blocks, and \<open>Paged_Correct\<close> shows that a block has one owner,
  that an append appends to what a sequence stores and to nothing else, and when it fails.
  \<open>Sampler\<close> has sampler.rs, with the exponential and the random draw as arguments, and shows that the greedy
  token has the largest logit and that a top-k token is one of the k largest.

  \<^bold>\<open>Forward pass\<close> (\<open>fracture-engine/src/batched.rs\<close>). \<open>Kernels\<close> has the laws of the device's kernels on rows
  (\<open>kernel_laws\<close>) and the reference transformer, which computes the logits of one sequence from its tokens.
  \<open>Batched_Forward\<close> has the pass over a batch of sequences, as computations over the cache and the device that
  stop at the first error, and the pass of one pipeline node. \<open>Batched_Pass\<close> states what the pass needs of the
  \<open>PagedCache\<close> trait as the locale \<open>cached\<close> and follows the rows through a pass; \<open>Batched_Correct\<close> interprets
  the locale for the paged cache and shows that every sequence of a batch gets the logits it would get alone from
  the reference, that a prompt run in chunks gives the logits of the whole prompt, and that a failed pass keeps its
  scratch tensors.

  \<^bold>\<open>Server\<close> (\<open>fracture-server/src/scheduler_loop.rs\<close>). \<open>Scheduler_Loop\<close> has one round of the loop that serves
  batched requests: scheduling, the pass, sampling and clean-up. Over all runs of rounds and submissions the paged
  cache holds exactly the sequences of the active requests; the first decode of a request skips a position.

  \<^bold>\<open>Model files\<close> (\<open>fracture-gguf/src\<close>). \<open>Gguf\<close> has the header parser of parser.rs and the byte format it
  reads; \<open>Gguf_Correct\<close> shows the round trip, that work and nesting are bounded by the input, and what an
  accepted header guarantees.

  \<^bold>\<open>Parameters.\<close> Code outside the repository is an argument: the CRC32C function, the codecs of \<open>bincode\<close>
  (record \<open>wire_codec\<close>), and the device (record \<open>backend\<close>). What a theorem needs of them is a named
  hypothesis (\<open>heap_laws\<close>, \<open>row_laws\<close>, \<open>kernel_laws\<close>, \<open>copies_succeed\<close>, or that a payload serializes), and its
  witness gives an instance (\<open>ram_backend\<close>, \<open>blank_backend\<close>, \<open>tiny_codec\<close>).

  \<^bold>\<open>Loops.\<close> No model uses fuel. Loops are structural recursions or have a termination proof: the
  redistribution and pruning of the scheduler by the layers and nodes left, growing and writing of the
  paged cache by the rows left, receiving by the bytes on the stream, and the recursive GGUF reader by the
  bytes left and the elements to read.

  \<^bold>\<open>Not modelled.\<close> The CUDA backend and the arithmetic of its kernels, which is device code; the HTTP routes
  and the dashboard, which are I/O around the engine, and the channels of the server's loop; the unbatched engine and its generation loop; the tokenizer
  and the loading of weights (the weight store is its record of tensors); the contiguous and the quantized cache
  and the engine's IPC; the binaries' set-up code, and the batching part of the coordinator's loop. Of the worker
  binary only its side of the protocol shows, as the bytes a coordinator receives.
\<close>

end
